(* ===== verification/Prelude.thy ===== *)
theory Prelude
  imports Main "HOL-Library.Word"
begin

text \<open>
  Shared vocabulary of the development: machine integers at their width, byte buffers,
  the big-endian 32-bit codec of the \<^verbatim>\<open>bytes\<close> crate's \<^verbatim>\<open>put_i32\<close>/\<^verbatim>\<open>get_i32\<close>, the error
  values of the program, the result of an asynchronous operation, and the generic lemmas
  the component theories use.

  A Rust \<^verbatim>\<open>String\<close> or \<^verbatim>\<open>&str\<close> is a HOL \<^typ>\<open>string\<close> whose characters are its UTF-8
  bytes (a HOL \<^typ>\<open>char\<close> is one byte); \<open>as_bytes\<close> is the identity on those bytes.
\<close>

section \<open>Collections of facts\<close>

named_theorems wire_simps \<open>unfolding of wire-format definitions\<close>
named_theorems buf_simps \<open>lengths and splits of byte buffers\<close>
named_theorems res_splits \<open>case splits of result types\<close>

section \<open>Machine integers and buffers\<close>

type_synonym u8 = "8 word"
type_synonym u16 = "16 word"
type_synonym i32 = "32 word"
type_synonym u32 = "32 word"
type_synonym u64 = "64 word"
type_synonym i64 = "64 word"
type_synonym bytes = "8 word list"

text \<open>A byte literal \<^verbatim>\<open>b'X'\<close> and the bytes of a string.\<close>

definition byte_of :: "char \<Rightarrow> u8" where
  "byte_of c = word_of_nat (of_char c)"

definition char_of_byte :: "u8 \<Rightarrow> char" where
  "char_of_byte b = char_of (unat b)"

definition as_bytes :: "string \<Rightarrow> bytes" where
  "as_bytes s = map byte_of s"

definition of_bytes :: "bytes \<Rightarrow> string" where
  "of_bytes bs = map char_of_byte bs"

lemma unat_less_pow: "unat (w :: 'a :: len word) < 2 ^ LENGTH('a)"
  by (rule unsigned_less)

lemma char_of_byte_of [simp]: "char_of_byte (byte_of c) = c"
  by (simp add: char_of_byte_def byte_of_def unat_of_nat take_bit_eq_mod)

lemma byte_of_char_of_byte [simp]: "byte_of (char_of_byte b) = b"
proof -
  have "unat b < 256" using unat_less_pow [of b] by simp
  then show ?thesis by (simp add: char_of_byte_def byte_of_def)
qed

lemma of_bytes_as_bytes [simp]: "of_bytes (as_bytes s) = s"
  by (simp add: of_bytes_def as_bytes_def comp_def)

lemma as_bytes_of_bytes [simp]: "as_bytes (of_bytes bs) = bs"
  by (simp add: of_bytes_def as_bytes_def comp_def)

lemma length_as_bytes [simp]: "length (as_bytes s) = length s"
  by (simp add: as_bytes_def)

lemma as_bytes_append [simp]: "as_bytes (s @ t) = as_bytes s @ as_bytes t"
  by (simp add: as_bytes_def)

lemma as_bytes_simps [simp]: "as_bytes [] = []" "as_bytes (c # s) = byte_of c # as_bytes s"
  by (simp_all add: as_bytes_def)

lemma byte_of_inject [simp]: "byte_of c = byte_of d \<longleftrightarrow> c = d"
  by (metis char_of_byte_of)

section \<open>The big-endian 32-bit codec\<close>

text \<open>
  \<^verbatim>\<open>BufMut::put_i32\<close> and \<^verbatim>\<open>i32::to_be_bytes\<close>: four bytes, most significant first.
  \<^verbatim>\<open>Buf::get_i32\<close> and \<^verbatim>\<open>i32::from_be_bytes\<close>: their inverse.
\<close>

definition put_i32 :: "i32 \<Rightarrow> bytes" where
  "put_i32 w =
     [word_of_nat (unat w div 16777216), word_of_nat (unat w div 65536),
      word_of_nat (unat w div 256), word_of_nat (unat w)]"

definition from_be_bytes :: "u8 \<Rightarrow> u8 \<Rightarrow> u8 \<Rightarrow> u8 \<Rightarrow> i32" where
  "from_be_bytes a b c d =
     word_of_nat (((unat a * 256 + unat b) * 256 + unat c) * 256 + unat d)"

fun get_i32 :: "bytes \<Rightarrow> i32 option" where
  "get_i32 (a # b # c # d # _) = Some (from_be_bytes a b c d)"
| "get_i32 _ = None"

lemma length_put_i32 [simp]: "length (put_i32 w) = 4"
  by (simp add: put_i32_def)

lemma be_digits: "n < 4294967296 \<Longrightarrow>
  ((n div 16777216 mod 256 * 256 + n div 65536 mod 256) * 256 + n div 256 mod 256) * 256 + n mod 256 = (n::nat)"
proof -
  assume n: "n < 4294967296"
  have *: "n div 16777216 mod 256 = n div 16777216"
    using n by (simp add: less_mult_imp_div_less)
  have 1: "n div 16777216 * 256 + n div 65536 mod 256 = n div 65536"
    using div_mult_mod_eq [of "n div 65536" 256] by (simp add: div_mult2_eq [symmetric])
  have 2: "n div 65536 * 256 + n div 256 mod 256 = n div 256"
    using div_mult_mod_eq [of "n div 256" 256] by (simp add: div_mult2_eq [symmetric])
  show ?thesis by (simp only: * 1 2 div_mult_mod_eq)
qed

lemma unat_u8_less: "unat (x :: u8) < 256"
  using unat_less_pow [of x] by simp

lemma unat_word_of_nat_u8: "unat (word_of_nat n :: u8) = n mod 256"
  by (simp add: unat_of_nat)

lemma unat_from_be_bytes:
  "unat (from_be_bytes a b c d) = ((unat a * 256 + unat b) * 256 + unat c) * 256 + unat d"
proof -
  have "((unat a * 256 + unat b) * 256 + unat c) * 256 + unat d < 2 ^ LENGTH(32)"
    using unat_u8_less [of a] unat_u8_less [of b] unat_u8_less [of c] unat_u8_less [of d] by simp
  then show ?thesis by (simp only: from_be_bytes_def unat_of_nat mod_less)
qed

lemma get_put_i32 [simp]: "get_i32 (put_i32 w @ rest) = Some w"
proof -
  have lt: "unat w < 4294967296" using unat_less_pow [of w] by simp
  have "unat (from_be_bytes (word_of_nat (unat w div 16777216)) (word_of_nat (unat w div 65536))
      (word_of_nat (unat w div 256)) (word_of_nat (unat w))) = unat w"
    by (simp only: unat_from_be_bytes unat_word_of_nat_u8 be_digits [OF lt])
  then show ?thesis 
    by (simp only: put_i32_def append.simps get_i32.simps option.inject word_unat_eq_iff)
qed

lemma get_i32_Some_length: "get_i32 bs = Some w \<Longrightarrow> 4 \<le> length bs"
  by (cases bs rule: get_i32.cases) auto

lemma get_i32_total: "4 \<le> length bs \<Longrightarrow> \<exists>w. get_i32 bs = Some w"
  by (cases bs rule: get_i32.cases) auto

lemma get_i32_append: "4 \<le> length bs \<Longrightarrow> get_i32 (bs @ cs) = get_i32 bs"
  by (cases bs rule: get_i32.cases) auto

lemma digit_inject:
  "x * 256 + d = x' * 256 + d' \<Longrightarrow> d < 256 \<Longrightarrow> d' < 256 \<Longrightarrow> x = x' \<and> d = (d' :: nat)"
proof -
  assume a: "x * 256 + d = x' * 256 + d'" "d < 256" "d' < 256"
  have "(x * 256 + d) mod 256 = (x' * 256 + d') mod 256" using a by simp
  then have "d = d'" using a(2,3) by (simp only: mod_mult_self3 mod_less)
  then show ?thesis using a by simp
qed

lemma from_be_bytes_inject:
  "from_be_bytes a b c d = from_be_bytes a' b' c' d' \<longleftrightarrow> a = a' \<and> b = b' \<and> c = c' \<and> d = d'"
proof
  assume eq: "from_be_bytes a b c d = from_be_bytes a' b' c' d'"
  note lt = unat_u8_less
  have "((unat a * 256 + unat b) * 256 + unat c) * 256 + unat d =
        ((unat a' * 256 + unat b') * 256 + unat c') * 256 + unat d'"
    using arg_cong [OF eq, of unat] by (simp only: unat_from_be_bytes)
  then have "unat a = unat a' \<and> unat b = unat b' \<and> unat c = unat c' \<and> unat d = unat d'"
    using digit_inject lt by metis
  then show "a = a' \<and> b = b' \<and> c = c' \<and> d = d'" by (simp only: word_unat_eq_iff)
qed simp

lemma put_from_be_bytes [simp]: "put_i32 (from_be_bytes a b c d) = [a, b, c, d]"
proof -
  obtain a' b' c' d' where p: "put_i32 (from_be_bytes a b c d) = [a', b', c', d']"
    by (simp add: put_i32_def)
  have "get_i32 (put_i32 (from_be_bytes a b c d) @ []) = Some (from_be_bytes a b c d)"
    by (rule get_put_i32)
  then show ?thesis by (simp add: p from_be_bytes_inject)
qed

lemma put_get_i32: "get_i32 bs = Some w \<Longrightarrow> put_i32 w = take 4 bs"
  by (cases bs rule: get_i32.cases) auto

section \<open>Conversions between widths\<close>

text \<open>
  \<^verbatim>\<open>x as usize\<close> on an \<^verbatim>\<open>i32\<close> sign-extends to 64 bits: a negative value becomes a huge
  \<^verbatim>\<open>usize\<close>. \<^verbatim>\<open>n as i32\<close> on a \<^verbatim>\<open>usize\<close> keeps the low 32 bits.
\<close>

definition i32_as_usize :: "i32 \<Rightarrow> nat" where
  "i32_as_usize w = nat (sint w mod 18446744073709551616)"

definition usize_as_i32 :: "nat \<Rightarrow> i32" where
  "usize_as_i32 n = word_of_nat n"

lemma sint_word_of_nat_small: "n < 2147483648 \<Longrightarrow> sint (word_of_nat n :: i32) = int n"
  by (simp add: signed_of_nat signed_take_bit_int_eq_self)

lemma i32_as_usize_small [simp]: "n < 2147483648 \<Longrightarrow> i32_as_usize (usize_as_i32 n) = n"
  by (simp add: i32_as_usize_def usize_as_i32_def sint_word_of_nat_small)

section \<open>Errors and outcomes\<close>

text \<open>
  One constructor per \<^verbatim>\<open>bail!\<close> of the program and per foreign error it propagates with
  \<^verbatim>\<open>?\<close>. \<open>IoError\<close> and \<open>LibError\<close> carry the text of an operating-system or library error.
\<close>

datatype pg_error =
    InvalidStartupLength nat
  | InvalidMessageLength nat u8
  | StartupPayloadTooShort
  | Utf8Error
  | IoError string
  | LibError string
  | ClientDisconnectedBeforeStartup
  | UnsupportedProtocolVersion i32
  | ClientDisconnectedDuringAuth
  | InvalidPasswordMessage
  | ExpectedPasswordMessage u8
  | BackendConnectionFailed pg_error
  | BackendDisconnectedDuringAuth
  | InvalidAuthMessage
  | InvalidMd5AuthMessage
  | NoScramSha256
  | BackendDisconnectedDuringScram
  | UnexpectedAuthTypeDuringScram i32
  | BackendErrorDuringScram string
  | BackendDisconnectedDuringScramFinal
  | UnexpectedAuthTypeInScramFinal i32
  | UnsupportedAuthType i32
  | BackendError string
  | BackendDisconnectedAfterAuth
  | BackendErrorAfterAuth string
  | BackendDisconnectedDuringReset
  | ResetFailed string
  | PoolTimeoutGlobal
  | PoolTimeoutPerPool
  | PoolTimeout
  | FailedToConnect string pg_error
  | TlsPathsNotSet
  | NoPrivateKey
  | WithContext string pg_error

text \<open>
  An asynchronous operation returns a value, returns an error, panics, or is still waiting
  for input when the recorded input ends.
\<close>

datatype 'a outcome = Ok 'a | Err pg_error | Panic | Pending

lemmas [res_splits] = sum.splits option.splits prod.splits outcome.splits

section \<open>Generic list lemmas\<close>

lemma take_eq_append: "n = length xs \<Longrightarrow> take n (xs @ ys) = xs"
  by simp

lemma drop_eq_append: "n = length xs \<Longrightarrow> drop n (xs @ ys) = ys"
  by simp

lemmas [buf_simps] = take_eq_append drop_eq_append length_put_i32 length_as_bytes

end
