(* ===== verification/Rust_Str.thy ===== *)
theory Rust_Str
  imports Prelude "HOL-Library.Sublist"
begin

text \<open>
  The parts of Rust's string library the program uses: UTF-8 validation
  (\<^verbatim>\<open>str::from_utf8\<close>), \<^verbatim>\<open>trim\<close>, \<^verbatim>\<open>split_whitespace\<close>, \<^verbatim>\<open>to_uppercase\<close>, \<^verbatim>\<open>starts_with\<close>,
  \<^verbatim>\<open>ends_with\<close>, \<^verbatim>\<open>strip_prefix\<close>, byte slicing with its character-boundary check,
  \<^verbatim>\<open>parse\<close> for unsigned integers and decimal formatting.

  Strings are their UTF-8 bytes. Operations on characters decode to Unicode scalar values
  and encode the result. Upper-casing a non-ASCII character reads the Unicode character
  database, which is a parameter \<open>u\<close> of \<open>to_uppercase\<close>; the seventeen non-ASCII characters
  whose upper case contains an ASCII letter are written out in \<open>ascii_upper_specials\<close>, and
  \<open>upper_table u\<close> says that the table maps every other one to non-ASCII scalar values.
\<close>

section \<open>UTF-8\<close>

definition cont :: "nat \<Rightarrow> bool" where
  "cont b \<longleftrightarrow> 128 \<le> b \<and> b \<le> 191"

fun utf8_decode :: "nat list \<Rightarrow> nat list option" where
  "utf8_decode [] = Some []"
| "utf8_decode (a # bs) =
     (if a < 128 then map_option ((#) a) (utf8_decode bs)
      else if a < 194 then None
      else if a < 224 then
        (case bs of b # r \<Rightarrow>
           if cont b then map_option ((#) ((a - 192) * 64 + (b - 128))) (utf8_decode r) else None
         | _ \<Rightarrow> None)
      else if a < 240 then
        (case bs of b # c # r \<Rightarrow>
           if cont b \<and> cont c \<and> (a = 224 \<longrightarrow> 160 \<le> b) \<and> (a = 237 \<longrightarrow> b \<le> 159)
           then map_option ((#) (((a - 224) * 64 + (b - 128)) * 64 + (c - 128))) (utf8_decode r)
           else None
         | _ \<Rightarrow> None)
      else if a < 245 then
        (case bs of b # c # d # r \<Rightarrow>
           if cont b \<and> cont c \<and> cont d \<and> (a = 240 \<longrightarrow> 144 \<le> b) \<and> (a = 244 \<longrightarrow> b \<le> 143)
           then map_option
             ((#) ((((a - 240) * 64 + (b - 128)) * 64 + (c - 128)) * 64 + (d - 128))) (utf8_decode r)
           else None
         | _ \<Rightarrow> None)
      else None)"

definition utf8_encode_char :: "nat \<Rightarrow> nat list" where
  "utf8_encode_char c =
     (if c < 128 then [c]
      else if c < 2048 then [192 + c div 64, 128 + c mod 64]
      else if c < 65536 then [224 + c div 4096, 128 + c div 64 mod 64, 128 + c mod 64]
      else [240 + c div 262144, 128 + c div 4096 mod 64, 128 + c div 64 mod 64, 128 + c mod 64])"

definition utf8_encode :: "nat list \<Rightarrow> nat list" where
  "utf8_encode cs = concat (map utf8_encode_char cs)"

definition scalar :: "nat \<Rightarrow> bool" where
  "scalar c \<longleftrightarrow> c < 55296 \<or> 57344 \<le> c \<and> c < 1114112"

definition from_utf8 :: "bytes \<Rightarrow> string option" where
  "from_utf8 bs = (case utf8_decode (map unat bs) of None \<Rightarrow> None | Some _ \<Rightarrow> Some (of_bytes bs))"

definition chars :: "string \<Rightarrow> nat list" where
  "chars s = (case utf8_decode (map of_char s) of None \<Rightarrow> [] | Some cs \<Rightarrow> cs)"

definition of_chars :: "nat list \<Rightarrow> string" where
  "of_chars cs = map char_of (utf8_encode cs)"

definition valid_str :: "string \<Rightarrow> bool" where
  "valid_str s \<longleftrightarrow> utf8_decode (map of_char s) \<noteq> None"

section \<open>White space, trimming, splitting\<close>

definition white_space :: "nat \<Rightarrow> bool" where
  "white_space c \<longleftrightarrow> 9 \<le> c \<and> c \<le> 13 \<or> c \<in> {32, 133, 160, 5760, 8232, 8233, 8239, 8287, 12288}
     \<or> 8192 \<le> c \<and> c \<le> 8202"

definition trim_chars :: "nat list \<Rightarrow> nat list" where
  "trim_chars cs = rev (dropWhile white_space (rev (dropWhile white_space cs)))"

definition trim :: "string \<Rightarrow> string" where
  "trim s = of_chars (trim_chars (chars s))"

function split_ws_chars :: "nat list \<Rightarrow> nat list list" where
  "split_ws_chars cs =
     (case dropWhile white_space cs of
        [] \<Rightarrow> []
      | c # r \<Rightarrow> (c # takeWhile (\<lambda>x. \<not> white_space x) r)
               # split_ws_chars (dropWhile (\<lambda>x. \<not> white_space x) r))"
  by pat_completeness auto
termination
proof (relation "measure length", goal_cases)
  case (2 cs c r)
  have "length (c # r) \<le> length cs" using length_dropWhile_le [of white_space cs] 2 by simp
  then show ?case
    using length_dropWhile_le [of "\<lambda>x. \<not> white_space x" r] by simp
qed simp

declare split_ws_chars.simps [simp del]

definition split_whitespace :: "string \<Rightarrow> string list" where
  "split_whitespace s = map of_chars (split_ws_chars (chars s))"

section \<open>Prefixes, suffixes, slices\<close>

definition starts_with :: "string \<Rightarrow> string \<Rightarrow> bool" where
  "starts_with s p \<longleftrightarrow> take (length p) s = p"

definition ends_with :: "string \<Rightarrow> string \<Rightarrow> bool" where
  "ends_with s p \<longleftrightarrow> length p \<le> length s \<and> drop (length s - length p) s = p"

definition strip_prefix :: "string \<Rightarrow> string \<Rightarrow> string option" where
  "strip_prefix s p = (if starts_with s p then Some (drop (length p) s) else None)"

text \<open>\<^verbatim>\<open>&s[..k]\<close> panics (here \<open>None\<close>) unless \<open>k\<close> is a character boundary of \<open>s\<close>.\<close>

definition is_char_boundary :: "string \<Rightarrow> nat \<Rightarrow> bool" where
  "is_char_boundary s k \<longleftrightarrow> k = length s \<or> k < length s \<and> \<not> cont (of_char (s ! k))"

definition slice_to :: "string \<Rightarrow> nat \<Rightarrow> string option" where
  "slice_to s k = (if is_char_boundary s k then Some (take k s) else None)"

section \<open>Upper case\<close>

definition ascii_upper_specials :: "(nat \<times> nat list) list" where
  "ascii_upper_specials =
     [(223, [83, 83]), (305, [73]), (329, [700, 78]), (383, [83]), (496, [74, 780]),
      (7830, [72, 817]), (7831, [84, 776]), (7832, [87, 778]), (7833, [89, 778]),
      (7834, [65, 702]), (64256, [70, 70]), (64257, [70, 73]), (64258, [70, 76]),
      (64259, [70, 70, 73]), (64260, [70, 70, 76]), (64261, [83, 84]), (64262, [83, 84])]"

definition upper_char :: "(nat \<Rightarrow> nat list) \<Rightarrow> nat \<Rightarrow> nat list" where
  "upper_char u c =
     (if 97 \<le> c \<and> c \<le> 122 then [c - 32]
      else if c < 128 then [c]
      else case map_of ascii_upper_specials c of Some cs \<Rightarrow> cs | None \<Rightarrow> u c)"

definition to_uppercase :: "(nat \<Rightarrow> nat list) \<Rightarrow> string \<Rightarrow> string" where
  "to_uppercase u s = of_chars (concat (map (upper_char u) (chars s)))"

definition upper_table :: "(nat \<Rightarrow> nat list) \<Rightarrow> bool" where
  "upper_table u \<longleftrightarrow> (\<forall>c. scalar c \<longrightarrow> 128 \<le> c \<longrightarrow> u c \<noteq> [] \<and> (\<forall>x \<in> set (u c). 128 \<le> x \<and> scalar x))"

section \<open>Numbers\<close>

definition digit_val :: "char \<Rightarrow> nat option" where
  "digit_val c = (let n = of_char c in if 48 \<le> n \<and> n \<le> 57 then Some (n - 48) else None)"

fun parse_digits :: "nat \<Rightarrow> nat \<Rightarrow> string \<Rightarrow> nat option" where
  "parse_digits lim acc [] = Some acc"
| "parse_digits lim acc (c # cs) =
     (case digit_val c of
        None \<Rightarrow> None
      | Some d \<Rightarrow>
          if lim \<le> acc * 10 then None
          else if lim \<le> acc * 10 + d then None
          else parse_digits lim (acc * 10 + d) cs)"

text \<open>\<^verbatim>\<open>str::parse\<close> for an unsigned type with \<open>lim\<close> values: an optional \<^verbatim>\<open>+\<close>, then one or more digits.\<close>

fun parse_unsigned :: "nat \<Rightarrow> string \<Rightarrow> nat option" where
  "parse_unsigned lim [] = None"
| "parse_unsigned lim [c] = (if c = CHR ''+'' then None else parse_digits lim 0 [c])"
| "parse_unsigned lim (c # d # cs) =
     parse_digits lim 0 (if c = CHR ''+'' then d # cs else c # d # cs)"

definition digit_char :: "nat \<Rightarrow> char" where
  "digit_char d = char_of (48 + d)"

fun show_nat :: "nat \<Rightarrow> string" where
  "show_nat n = (if n < 10 then [digit_char n] else show_nat (n div 10) @ [digit_char (n mod 10)])"

declare show_nat.simps [simp del]

definition show_i32 :: "i32 \<Rightarrow> string" where
  "show_i32 w = (if sint w < 0 then ''-'' @ show_nat (nat (- sint w)) else show_nat (nat (sint w)))"

section \<open>ASCII strings and keywords\<close>

definition ascii_str :: "string \<Rightarrow> bool" where
  "ascii_str s \<longleftrightarrow> list_all (\<lambda>c. of_char c < (128::nat)) s"

definition ascii_up :: "nat \<Rightarrow> nat" where
  "ascii_up c = (if 97 \<le> c \<and> c \<le> 122 then c - 32 else c)"

definition keyword :: "nat list \<Rightarrow> bool" where
  "keyword p \<longleftrightarrow> list_all (\<lambda>c. c < 128 \<and> c \<notin> {83, 73, 70} \<and> \<not> (97 \<le> c \<and> c \<le> 122)) p
     \<and> p \<noteq> [] \<and> last p \<notin> {84, 65, 74, 72, 87, 89}"

text \<open>Digits and the value of a digit string, the reference for \<open>parse_digits\<close>.\<close>

definition is_digit :: "char \<Rightarrow> bool" where
  "is_digit c \<longleftrightarrow> digit_val c \<noteq> None"

definition decimal :: "nat \<Rightarrow> string \<Rightarrow> nat" where
  "decimal acc s = foldl (\<lambda>a c. a * 10 + the (digit_val c)) acc s"

section \<open>UTF-8 round trips\<close>

lemma mod64_le: "c mod 64 \<le> (63::nat)"
  using mod_less_divisor [of 64 c] by simp

lemma enc2: "(c::nat) div 64 * 64 + c mod 64 = c"
  by (rule div_mult_mod_eq)

lemma enc3: "((c::nat) div 4096 * 64 + c div 64 mod 64) * 64 + c mod 64 = c"
  using div_mult_mod_eq [of "c div 64" 64] div_mult_mod_eq [of c 64]
  by (simp add: div_mult2_eq [symmetric])

lemma enc4: "(((c::nat) div 262144 * 64 + c div 4096 mod 64) * 64 + c div 64 mod 64) * 64 + c mod 64 = c"
  using div_mult_mod_eq [of "c div 4096" 64] enc3 [of c]
  by (simp add: div_mult2_eq [symmetric])

lemma mod64_shift: "k * 64 \<le> x \<Longrightarrow> x < k * 64 + n \<Longrightarrow> n \<le> 64 \<Longrightarrow> x mod 64 < (n::nat)"
proof -
  assume a: "k * 64 \<le> x" "x < k * 64 + n" "n \<le> 64"
  then obtain j where "x = j + k * 64" by (metis add.commute le_Suc_ex)
  with a show ?thesis by simp
qed

lemma utf8_decode_encode_char:
  assumes "scalar c"
  shows "utf8_decode (utf8_encode_char c @ r) = map_option ((#) c) (utf8_decode r)"
proof -
  consider "c < 128" | "128 \<le> c" "c < 2048" | "2048 \<le> c" "c < 65536" | "65536 \<le> c" by linarith
  then show ?thesis
  proof cases
    case 1
    then show ?thesis by (simp add: utf8_encode_char_def)
  next
    case 2
    then have d: "(c div 64 < 2) = False" "(c div 64 < 32) = True"
      by (auto simp: less_mult_imp_div_less not_less)
    show ?thesis using 2 mod64_le [of c] enc2 [of c]
      by (simp add: utf8_encode_char_def cont_def d)
  next
    case 3
    then have d: "c div 4096 < 16" by (simp add: less_mult_imp_div_less)
    have lo: "c div 4096 = 0 \<Longrightarrow> 32 \<le> c div 64 mod 64"
    proof -
      assume "c div 4096 = 0"
      then have "c < 4096" by (simp add: div_eq_0_iff)
      then have "c div 64 < 64" by (simp add: less_mult_imp_div_less)
      moreover have "32 \<le> c div 64" using 3 by simp
      ultimately show ?thesis by simp
    qed
    have hi: "c div 4096 = 13 \<Longrightarrow> c div 64 mod 64 \<le> 31"
    proof -
      assume "c div 4096 = 13"
      then have "53248 \<le> c" "c < 57344" using div_mult_mod_eq [of c 4096] mod_less_divisor [of 4096 c] by linarith+
      then have "c < 55296" using assms by (simp add: scalar_def)
      then have "c div 64 < 864" "832 \<le> c div 64" using \<open>53248 \<le> c\<close> by (simp_all add: less_mult_imp_div_less)
      then have "c div 64 mod 64 < 32" by (intro mod64_shift [of 13]) simp_all
      then show ?thesis by simp
    qed
    show ?thesis using 3 d lo hi mod64_le [of c] mod64_le [of "c div 64"] enc3 [of c]
      by (simp add: utf8_encode_char_def cont_def)
  next
    case 4
    then have c: "c < 1114112" using assms by (simp add: scalar_def)
    then have d: "c div 262144 < 5" by (simp add: less_mult_imp_div_less)
    have lo: "c div 262144 = 0 \<Longrightarrow> 16 \<le> c div 4096 mod 64"
    proof -
      assume "c div 262144 = 0"
      then have "c < 262144" by (simp add: div_eq_0_iff)
      then have "c div 4096 < 64" by (simp add: less_mult_imp_div_less)
      moreover have "16 \<le> c div 4096" using 4 by simp
      ultimately show ?thesis by simp
    qed
    have hi: "c div 262144 = 4 \<Longrightarrow> c div 4096 mod 64 \<le> 15"
    proof -
      assume "c div 262144 = 4"
      then have "1048576 \<le> c" using div_mult_mod_eq [of c 262144] by linarith
      then have "c div 4096 < 272" "256 \<le> c div 4096" using c by (simp_all add: less_mult_imp_div_less)
      then have "c div 4096 mod 64 < 16" by (intro mod64_shift [of 4]) simp_all
      then show ?thesis by simp
    qed
    show ?thesis using 4 d lo hi mod64_le [of c] mod64_le [of "c div 64"] mod64_le [of "c div 4096"] enc4 [of c]
      by (simp add: utf8_encode_char_def cont_def)
  qed
qed

lemma utf8_decode_encode: "list_all scalar cs \<Longrightarrow> utf8_decode (utf8_encode cs) = Some cs"
  by (induction cs) (simp_all add: utf8_encode_def utf8_decode_encode_char)

lemma contE:
  assumes "cont b"
  obtains y where "b = 128 + y" and "y < 64"
proof
  show "b = 128 + (b - 128)" "b - 128 < 64" using assms unfolding cont_def by linarith+
qed

lemma dm64: "r < 64 \<Longrightarrow> (r + q * 64) div 64 = (q::nat)" "r < 64 \<Longrightarrow> (r + q * 64) mod 64 = r"
  by simp_all

lemma nat_offsetE:
  assumes "(k::nat) \<le> a"
  obtains x where "a = k + x"
  using assms le_Suc_ex by blast

lemma encode2:
  assumes "194 \<le> a" "a < 224" "cont b"
  shows "utf8_encode_char ((a - 192) * 64 + (b - 128)) = [a, b] \<and> scalar ((a - 192) * 64 + (b - 128))"
proof -
  obtain x where x: "a = 194 + x" using assms(1) by (rule nat_offsetE)
  obtain y where y: "b = 128 + y" "y < 64" using assms(3) by (rule contE)
  have e: "(a - 192) * 64 + (b - 128) = y + (2 + x) * 64" by (simp add: x y)
  have "x < 30" using assms x by simp
  then have "y + (2 + x) * 64 < 2048" "128 \<le> y + (2 + x) * 64" using y by simp_all
  then show ?thesis
    unfolding e by (simp only: utf8_encode_char_def scalar_def dm64 [OF y(2)]) (simp add: x y)
qed

lemma encode3:
  assumes "224 \<le> a" "a < 240" "cont b" "cont c" "a = 224 \<longrightarrow> 160 \<le> b" "a = 237 \<longrightarrow> b \<le> 159"
  shows "utf8_encode_char (((a - 224) * 64 + (b - 128)) * 64 + (c - 128)) = [a, b, c] \<and>
         scalar (((a - 224) * 64 + (b - 128)) * 64 + (c - 128))"
proof -
  obtain x where x: "a = 224 + x" using assms(1) by (rule nat_offsetE)
  obtain y where y: "b = 128 + y" "y < 64" using assms(3) by (rule contE)
  obtain z where z: "c = 128 + z" "z < 64" using assms(4) by (rule contE)
  let ?n = "z + (y + x * 64) * 64"
  have e: "((a - 224) * 64 + (b - 128)) * 64 + (c - 128) = ?n" by (simp add: x y z)
  have x16: "x < 16" using assms(2) x by simp
  have d: "?n div 64 = y + x * 64" "?n mod 64 = z" by (rule dm64 [OF z(2)])+
  have "?n div 4096 = (?n div 64) div 64" by (simp add: div_mult2_eq [symmetric])
  then have d2: "?n div 4096 = x" unfolding d by (simp only: dm64 [OF y(2)])
  have m: "(y + x * 64) mod 64 = y" using y by simp
  have lo: "2048 \<le> ?n" using assms(5) x y by (cases x) auto
  have hi: "?n < 65536" using x16 y z by simp
  have "?n < 55296 \<or> 57344 \<le> ?n" 
  proof -
    consider "x \<le> 12" | "x = 13" | "14 \<le> x" by linarith
    then show ?thesis
    proof cases
      case 1
      then have "?n < 55296" using y(2) z(2) by simp
      then show ?thesis ..
    next
      case 2
      then have "y < 32" using assms(6) x y by simp
      with 2 z show ?thesis by simp
    next
      case 3
      then have "57344 \<le> ?n" by simp
      then show ?thesis ..
    qed
  qed
  with lo hi show ?thesis
    unfolding e by (simp only: utf8_encode_char_def scalar_def d d2 m) (simp add: x y z)
qed

lemma encode4:
  assumes "240 \<le> a" "a < 245" "cont b" "cont c" "cont d" "a = 240 \<longrightarrow> 144 \<le> b" "a = 244 \<longrightarrow> b \<le> 143"
  shows "utf8_encode_char ((((a - 240) * 64 + (b - 128)) * 64 + (c - 128)) * 64 + (d - 128)) = [a, b, c, d] \<and>
         scalar ((((a - 240) * 64 + (b - 128)) * 64 + (c - 128)) * 64 + (d - 128))"
proof -
  obtain x where x: "a = 240 + x" using assms(1) by (rule nat_offsetE)
  obtain y where y: "b = 128 + y" "y < 64" using assms(3) by (rule contE)
  obtain z where z: "c = 128 + z" "z < 64" using assms(4) by (rule contE)
  obtain w where w: "d = 128 + w" "w < 64" using assms(5) by (rule contE)
  let ?n = "w + (z + (y + x * 64) * 64) * 64"
  have e: "(((a - 240) * 64 + (b - 128)) * 64 + (c - 128)) * 64 + (d - 128) = ?n" by (simp add: x y z w)
  have x5: "x < 5" using assms(2) x by simp
  have d1: "?n div 64 = z + (y + x * 64) * 64" "?n mod 64 = w" by (rule dm64 [OF w(2)])+
  have "?n div 4096 = (?n div 64) div 64" by (simp add: div_mult2_eq [symmetric])
  then have d2: "?n div 4096 = y + x * 64" unfolding d1 by (simp only: dm64 [OF z(2)])
  have "?n div 262144 = (?n div 4096) div 64" by (simp add: div_mult2_eq [symmetric])
  then have d3: "?n div 262144 = x" unfolding d2 by (simp only: dm64 [OF y(2)])
  have m: "(y + x * 64) mod 64 = y" "(z + (y + x * 64) * 64) mod 64 = z"
    by (rule dm64 [OF y(2)], rule dm64 [OF z(2)])
  have lo: "65536 \<le> ?n" using assms(6) x y by (cases x) auto
  have "?n < 1114112" 
  proof -
    consider "x \<le> 3" | "x = 4" using x5 by linarith
    then show ?thesis
    proof cases
      case 1
      then show ?thesis using y(2) z(2) w(2) by simp
    next
      case 2
      then have "y < 16" using assms(7) x y by simp
      with 2 z w show ?thesis by simp
    qed
  qed
  with lo show ?thesis
    unfolding e by (simp only: utf8_encode_char_def scalar_def d1 d2 d3 m) (simp add: x y z w)
qed

lemma utf8_decode_sound:
  "utf8_decode bs = Some cs \<Longrightarrow> utf8_encode cs = bs \<and> list_all scalar cs"
proof (induction bs arbitrary: cs rule: utf8_decode.induct)
  case 1
  then show ?case by (simp add: utf8_encode_def)
next
  case (2 a bs)
  note IH = "2.IH" and dec = "2.prems"
  consider "a < 128" | "194 \<le> a" "a < 224" | "224 \<le> a" "a < 240" | "240 \<le> a" "a < 245"
    using dec by (auto split: if_splits)
  then show ?case
  proof cases
    case 1
    with dec obtain cs' where "utf8_decode bs = Some cs'" "cs = a # cs'" by auto
    with IH(1) 1 show ?thesis
      by (auto simp: utf8_encode_def utf8_encode_char_def scalar_def)
  next
    case 2
    with dec obtain b r cs' where b: "bs = b # r" "cont b" "utf8_decode r = Some cs'"
      "cs = ((a - 192) * 64 + (b - 128)) # cs'"
      by (auto split: list.splits if_splits)
    with IH(2) [of b r cs'] 2 encode2 [OF 2 b(2)] show ?thesis
      by (simp add: utf8_encode_def)
  next
    case 3
    with dec obtain b c r cs' where b: "bs = b # c # r" "utf8_decode r = Some cs'"
      "cs = (((a - 224) * 64 + (b - 128)) * 64 + (c - 128)) # cs'"
      and k: "cont b" "cont c" "a = 224 \<longrightarrow> 160 \<le> b" "a = 237 \<longrightarrow> b \<le> 159"
      by (auto split: list.splits if_splits)
    with IH(3) [of b "c # r" c r cs'] 3 encode3 [OF 3 k] show ?thesis
      by (simp add: utf8_encode_def)
  next
    case 4
    with dec obtain b c d r cs' where b: "bs = b # c # d # r" "utf8_decode r = Some cs'"
      "cs = ((((a - 240) * 64 + (b - 128)) * 64 + (c - 128)) * 64 + (d - 128)) # cs'"
      and k: "cont b" "cont c" "cont d" "a = 240 \<longrightarrow> 144 \<le> b" "a = 244 \<longrightarrow> b \<le> 143"
      by (auto split: list.splits if_splits)
    with IH(4) [of b "c # d # r" c "d # r" d r cs'] 4 encode4 [OF 4 k] show ?thesis
      by (simp add: utf8_encode_def)
  qed
qed

lemma utf8_encode_char_less: "scalar c \<Longrightarrow> b \<in> set (utf8_encode_char c) \<Longrightarrow> b < 256"
  using mod64_le [of c] mod64_le [of "c div 64"] mod64_le [of "c div 4096"]
  by (auto simp: utf8_encode_char_def scalar_def less_mult_imp_div_less split: if_splits)

lemma utf8_encode_less: "list_all scalar cs \<Longrightarrow> b \<in> set (utf8_encode cs) \<Longrightarrow> b < 256"
  by (auto simp: utf8_encode_def list_all_iff dest: utf8_encode_char_less)

lemma map_of_char_of_chars: "list_all scalar cs \<Longrightarrow> map of_char (of_chars cs) = utf8_encode cs"
  by (auto simp: of_chars_def intro!: map_idI dest: utf8_encode_less)

lemma chars_of_chars [simp]: "list_all scalar cs \<Longrightarrow> chars (of_chars cs) = cs"
  by (simp add: chars_def map_of_char_of_chars utf8_decode_encode)

lemma valid_of_chars [simp]: "list_all scalar cs \<Longrightarrow> valid_str (of_chars cs)"
  by (simp add: valid_str_def map_of_char_of_chars utf8_decode_encode)

lemma of_chars_chars [simp]: "valid_str s \<Longrightarrow> of_chars (chars s) = s"
proof -
  assume "valid_str s"
  then obtain cs where cs: "utf8_decode (map of_char s) = Some cs" by (auto simp: valid_str_def)
  have "utf8_encode cs = map of_char s" using utf8_decode_sound [OF cs] by simp
  then show ?thesis by (simp add: chars_def cs of_chars_def comp_def)
qed

lemma scalar_chars [simp]: "list_all scalar (chars s)"
  by (auto simp: chars_def split: option.split dest: utf8_decode_sound)

lemma map_unat_as_bytes [simp]: "map unat (as_bytes s) = map of_char s"
  by (simp add: as_bytes_def byte_of_def unat_word_of_nat_u8)

lemma from_utf8_as_bytes: "from_utf8 (as_bytes s) = (if valid_str s then Some s else None)"
  by (auto simp: from_utf8_def valid_str_def split: option.split)

lemma from_utf8_SomeD: "from_utf8 bs = Some s \<Longrightarrow> bs = as_bytes s \<and> valid_str s"
  using from_utf8_as_bytes [of "of_bytes bs"]
  by (auto simp: from_utf8_def split: option.splits if_splits)

lemma utf8_decode_ascii: "list_all (\<lambda>b. b < 128) bs \<Longrightarrow> utf8_decode bs = Some bs"
  by (induction bs) auto

lemma chars_ascii [simp]: "ascii_str s \<Longrightarrow> chars s = map of_char s"
  by (simp add: chars_def utf8_decode_ascii ascii_str_def list.pred_map comp_def)

lemma valid_ascii [simp]: "ascii_str s \<Longrightarrow> valid_str s"
  by (simp add: valid_str_def utf8_decode_ascii ascii_str_def list.pred_map comp_def)

lemma utf8_encode_ascii: "list_all (\<lambda>b. b < 128) cs \<Longrightarrow> utf8_encode cs = cs"
  by (induction cs) (auto simp: utf8_encode_def utf8_encode_char_def)

lemma valid_str_append: "valid_str s \<Longrightarrow> valid_str t \<Longrightarrow> valid_str (s @ t)"
proof -
  assume st: "valid_str s" "valid_str t"
  then have "s @ t = of_chars (chars s @ chars t)"
    by (metis of_chars_chars of_chars_def utf8_encode_def map_append concat_append)
  then show ?thesis by (simp only: valid_of_chars list_all_append scalar_chars)
qed

lemma split_ws_chars_no_ws:
  "p \<in> set (split_ws_chars cs) \<Longrightarrow> p \<noteq> [] \<and> list_all (\<lambda>c. \<not> white_space c) p \<and> set p \<subseteq> set cs"
proof (induction cs rule: split_ws_chars.induct)
  case (1 cs)
  show ?case
  proof (cases "dropWhile white_space cs")
    case Nil
    have "split_ws_chars cs = []" by (simp only: split_ws_chars.simps [of cs] Nil list.case)
    then show ?thesis using 1(2) by simp
  next
    case (Cons c r)
    have c: "\<not> white_space c" using Cons by (metis hd_dropWhile list.distinct(1) list.sel(1))
    have sub: "insert c (set r) \<subseteq> set cs"
      using Cons by (metis list.simps(15) set_dropWhileD subsetI)
    from 1(2) Cons consider "p = c # takeWhile (\<lambda>x. \<not> white_space x) r"
      | "p \<in> set (split_ws_chars (dropWhile (\<lambda>x. \<not> white_space x) r))"
      by (auto simp: split_ws_chars.simps [of cs])
    then show ?thesis
    proof cases
      case 1
      then show ?thesis using c sub by (auto simp: list_all_iff dest: set_takeWhileD)
    next
      case 2
      from "1.IH" [OF Cons 2] sub show ?thesis by (auto dest!: set_dropWhileD subsetD)
    qed
  qed
qed


lemma encode_char_head:
  "scalar c \<Longrightarrow> \<exists>h r. utf8_encode_char c = h # r \<and> (c < 128 \<longrightarrow> h = c \<and> r = []) \<and> (128 \<le> c \<longrightarrow> 192 \<le> h)"
  by (auto simp: utf8_encode_char_def)

lemma encode_prefix_ascii:
  assumes "list_all scalar cs" and "list_all (\<lambda>b. b < 128) p"
  shows "take (length p) (utf8_encode cs) = p \<longleftrightarrow> take (length p) cs = p"
  using assms
proof (induction p arbitrary: cs)
  case Nil
  then show ?case by simp
next
  case (Cons b p)
  show ?case
  proof (cases cs)
    case Nil
    then show ?thesis by (simp add: utf8_encode_def)
  next
    case (Cons c ds)
    then have c: "scalar c" "list_all scalar ds" using Cons.prems by simp_all
    obtain h r where h: "utf8_encode_char c = h # r" "c < 128 \<longrightarrow> h = c \<and> r = []" "128 \<le> c \<longrightarrow> 192 \<le> h"
      using encode_char_head [OF c(1)] by blast
    have e: "utf8_encode cs = h # r @ utf8_encode ds" by (simp add: utf8_encode_def Cons h)
    show ?thesis
    proof (cases "c < 128")
      case True
      then show ?thesis using Cons.IH [OF c(2)] Cons.prems(2) h e Cons by simp
    next
      case False
      then show ?thesis using Cons.prems(2) h e Cons by auto
    qed
  qed
qed

lemma starts_with_chars:
  assumes "list_all scalar cs" and "ascii_str p"
  shows "starts_with (of_chars cs) p \<longleftrightarrow> take (length p) cs = map of_char p"
proof -
  have inj: "map of_char xs = (map of_char ys :: nat list) \<longleftrightarrow> xs = ys" for xs ys :: string
    by (rule inj_map_eq_map) (simp add: inj_def)
  have "starts_with (of_chars cs) p \<longleftrightarrow> map of_char (take (length p) (of_chars cs)) = (map of_char p :: nat list)"
    by (simp only: starts_with_def inj)
  also have "\<dots> \<longleftrightarrow> take (length p) (utf8_encode cs) = map of_char p"
    by (simp add: take_map [symmetric] map_of_char_of_chars [OF assms(1)])
  also have "\<dots> \<longleftrightarrow> take (length p) cs = map of_char p"
    using encode_prefix_ascii [OF assms(1), of "map of_char p"] assms(2)
    by (simp add: ascii_str_def list.pred_map comp_def)
  finally show ?thesis .
qed

text \<open>
  No non-ASCII character can take part in a match of the keyword \<open>p\<close>: the expansions that
  contain S, I, F, J, H, T, W, Y or A either do not occur in \<open>p\<close> or are followed by a
  non-ASCII character that \<open>p\<close> would have to continue with.
\<close>

lemma upper_char_ascii: "c < 128 \<Longrightarrow> upper_char u c = [ascii_up c]"
  by (auto simp: upper_char_def ascii_up_def)

lemma ascii_up_less: "c < 128 \<Longrightarrow> ascii_up c < 128"
  by (auto simp: ascii_up_def)

lemma upper_char_nonascii:
  assumes "upper_table u" "scalar c" "128 \<le> c"
  shows "\<exists>h r. upper_char u c = h # r \<and> (128 \<le> h \<or> h \<in> {83, 73, 70} \<or>
           h \<in> {84, 65, 74, 72, 87, 89} \<and> (\<exists>k r'. r = k # r' \<and> 128 \<le> k))"
proof (cases "map_of ascii_upper_specials c")
  case None
  then have "upper_char u c = u c" using assms(3) by (simp add: upper_char_def)
  moreover obtain h r where "u c = h # r" "128 \<le> h"
    using assms unfolding upper_table_def by (metis list.set_intros(1) neq_Nil_conv)
  ultimately show ?thesis by simp
next
  case (Some cs)
  then have "upper_char u c = cs" using assms(3) by (simp add: upper_char_def)
  moreover from Some have "(c, cs) \<in> set ascii_upper_specials" by (rule map_of_SomeD)
  ultimately show ?thesis by (auto simp: ascii_upper_specials_def)
qed

lemma scalar_upper_char:
  assumes "upper_table u" "scalar c"
  shows "list_all scalar (upper_char u c)"
proof (cases "128 \<le> c")
  case True
  show ?thesis
  proof (cases "map_of ascii_upper_specials c")
    case None
    then have "upper_char u c = u c" using True by (simp add: upper_char_def)
    moreover have "\<forall>x \<in> set (u c). scalar x" using True assms unfolding upper_table_def by blast
    ultimately show ?thesis by (simp only: list_all_iff)
  next
    case (Some cs)
    then have "(c, cs) \<in> set ascii_upper_specials" by (rule map_of_SomeD)
    then have "list_all scalar cs" by (auto simp: ascii_upper_specials_def scalar_def)
    moreover have "upper_char u c = cs" using Some True by (simp add: upper_char_def)
    ultimately show ?thesis by simp
  qed
next
  case False
  then show ?thesis by (auto simp: upper_char_def scalar_def)
qed

lemma keyword_Cons: "keyword (b # p) \<Longrightarrow> p = [] \<or> keyword p"
  by (auto simp: keyword_def)

lemma upper_prefix:
  assumes "upper_table u" "list_all scalar cs" "keyword p"
  shows "take (length p) (concat (map (upper_char u) cs)) = p \<longleftrightarrow> map ascii_up (take (length p) cs) = p"
  using assms(2,3)
proof (induction cs arbitrary: p)
  case Nil
  then show ?case by (auto simp: keyword_def)
next
  case (Cons c cs)
  obtain b q where p: "p = b # q" using Cons.prems(2) by (cases p) (auto simp: keyword_def)
  show ?case
  proof (cases "c < 128")
    case True
    then show ?thesis
      using Cons.IH [of q] Cons.prems keyword_Cons [of b q] by (auto simp: p upper_char_ascii)
  next
    case False
    then obtain h r where h: "upper_char u c = h # r" "128 \<le> h \<or> h \<in> {83, 73, 70} \<or>
           h \<in> {84, 65, 74, 72, 87, 89} \<and> (\<exists>k r'. r = k # r' \<and> 128 \<le> k)"
      using upper_char_nonascii [OF assms(1), of c] Cons.prems(1) by auto
    have "ascii_up c \<noteq> b" using False Cons.prems(2) by (simp add: ascii_up_def p keyword_def)
    then have r: "map ascii_up (take (length p) (c # cs)) \<noteq> p" by (simp add: p)
    have k1: "list_all (\<lambda>c. c < 128 \<and> c \<notin> {83, 73, 70} \<and> \<not> (97 \<le> c \<and> c \<le> 122)) (b # q)"
      and k2: "last (b # q) \<notin> {84, 65, 74, 72, 87, 89}"
      using Cons.prems(2) unfolding p keyword_def by blast+
    have b: "b < 128" "b \<notin> {83, 73, 70}" using k1 by simp_all
    have q: "list_all (\<lambda>c. c < 128) q" using k1 by (simp add: list_all_iff)
    have b': "b \<in> {84, 65, 74, 72, 87, 89} \<Longrightarrow> q \<noteq> []" using k2 by (metis last_ConsL)
    have "take (length p) (concat (map (upper_char u) (c # cs))) \<noteq> p"
    proof
      assume eq: "take (length p) (concat (map (upper_char u) (c # cs))) = p"
      then have hb: "h = b" and tl: "take (length q) (r @ concat (map (upper_char u) cs)) = q"
        by (simp_all add: h(1) p)
      have "\<not> 128 \<le> h" "h \<notin> {83, 73, 70}" using b hb by simp_all
      with h(2) have "h \<in> {84, 65, 74, 72, 87, 89}" "\<exists>k r'. r = k # r' \<and> 128 \<le> k" by blast+
      then obtain k r' where k: "r = k # r'" "128 \<le> k" "q \<noteq> []" using b' hb by blast
      from k(3) obtain x q' where "q = x # q'" by (cases q) auto
      with tl k q show False by simp
    qed
    with r show ?thesis by blast
  qed
qed

lemma starts_with_to_uppercase:
  assumes "upper_table u" "keyword (map of_char p)"
  shows "starts_with (to_uppercase u s) p \<longleftrightarrow>
         map ascii_up (take (length p) (chars s)) = map of_char p"
proof -
  have sc: "list_all scalar (concat (map (upper_char u) (chars s)))"
    using scalar_upper_char [OF assms(1)] scalar_chars [of s] by (auto simp: list_all_iff)
  have as: "ascii_str p" using assms(2) by (auto simp: keyword_def ascii_str_def list_all_iff)
  show ?thesis
    using starts_with_chars [OF sc as] upper_prefix [OF assms(1) scalar_chars assms(2), of s]
    by (simp add: to_uppercase_def)
qed

lemma split_whitespace_no_prefix_with_space:
  assumes "s \<in> set (split_whitespace t)" and "ascii_str p" and "CHR '' '' \<in> set p"
  shows "strip_prefix s p = None"
proof -
  obtain cs where cs: "cs \<in> set (split_ws_chars (chars t))" "s = of_chars cs"
    using assms(1) by (auto simp: split_whitespace_def)
  from split_ws_chars_no_ws [OF cs(1)] have ws: "list_all (\<lambda>c. \<not> white_space c) cs" "list_all scalar cs"
    using scalar_chars [of t] by (auto simp: list_all_iff)
  have "take (length p) cs \<noteq> map of_char p"
  proof
    assume eq: "take (length p) cs = map of_char p"
    have "(32::nat) \<in> set (map of_char p)" using assms(3) by (force simp: image_iff)
    then have "32 \<in> set cs" unfolding eq [symmetric] by (rule in_set_takeD)
    then show False using ws(1) by (auto simp: list_all_iff white_space_def)
  qed
  then show ?thesis
    using starts_with_chars [OF ws(2) assms(2)] cs(2) by (simp add: strip_prefix_def)
qed

section \<open>Decimal numbers\<close>

lemma decimal_simps [simp]:
  "decimal acc [] = acc" "decimal acc (c # s) = decimal (acc * 10 + the (digit_val c)) s"
  by (simp_all add: decimal_def)

lemma decimal_append: "decimal acc (s @ t) = decimal (decimal acc s) t"
  by (simp add: decimal_def)

lemma decimal_mono: "acc \<le> decimal acc s"
proof (induction s arbitrary: acc)
  case (Cons c s)
  have "acc \<le> acc * 10 + the (digit_val c)" by simp
  also have "\<dots> \<le> decimal (acc * 10 + the (digit_val c)) s" by (rule Cons.IH)
  finally show ?case by simp
qed simp

lemma parse_digits_eq:
  "acc < lim \<Longrightarrow> parse_digits lim acc s =
     (if list_all is_digit s \<and> decimal acc s < lim then Some (decimal acc s) else None)"
proof (induction s arbitrary: acc)
  case Nil
  then show ?case by simp
next
  case (Cons c s)
  show ?case
  proof (cases "digit_val c")
    case None
    then show ?thesis by (simp add: is_digit_def)
  next
    case (Some d)
    let ?a = "acc * 10 + d"
    have m: "?a \<le> decimal ?a s" by (rule decimal_mono)
    show ?thesis
    proof (cases "?a < lim")
      case True
      then show ?thesis using Cons.IH [OF True] Some by (simp add: is_digit_def)
    next
      case False
      then have "\<not> decimal ?a s < lim" using m by linarith
      then show ?thesis using False Some by simp
    qed
  qed
qed

lemma plus_not_digit [simp]: "\<not> is_digit CHR ''+''"
  by (simp add: is_digit_def digit_val_def)

lemma parse_unsigned_digits:
  assumes "0 < lim" "s \<noteq> []" "list_all is_digit s"
  shows "parse_unsigned lim s = (if decimal 0 s < lim then Some (decimal 0 s) else None)"
proof -
  have "hd s \<noteq> CHR ''+''" using assms(2,3) by (cases s) auto
  then have "parse_unsigned lim s = parse_digits lim 0 s"
    using assms(2) by (cases "(lim, s)" rule: parse_unsigned.cases) auto
  with parse_digits_eq [OF assms(1), of s] assms(3) show ?thesis by simp
qed

lemma parse_unsigned_less: "parse_unsigned lim s = Some n \<Longrightarrow> 0 < lim \<Longrightarrow> n < lim"
  by (cases "(lim, s)" rule: parse_unsigned.cases)
     (auto simp: parse_digits_eq simp del: parse_digits.simps split: if_splits)

lemma digit_char_val: "d < 10 \<Longrightarrow> digit_val (digit_char d) = Some d"
  by (simp add: digit_val_def digit_char_def Let_def)

lemma show_nat_nonempty [simp]: "show_nat n \<noteq> []"
  by (subst show_nat.simps) simp

lemma show_nat_digits [simp]: "list_all is_digit (show_nat n)"
proof (induction n rule: show_nat.induct)
  case (1 n)
  have d: "is_digit (digit_char k)" if "k < 10" for k using that by (simp add: is_digit_def digit_char_val)
  show ?case using 1 by (subst show_nat.simps) (simp add: d)
qed

lemma decimal_show_nat [simp]: "decimal 0 (show_nat n) = n"
proof (induction n rule: show_nat.induct)
  case (1 n)
  show ?case
  proof (cases "n < 10")
    case True
    then show ?thesis by (subst show_nat.simps) (simp add: digit_char_val)
  next
    case False
    then have "decimal 0 (show_nat (n div 10)) = n div 10" by (rule 1)
    then show ?thesis using False
      by (subst show_nat.simps) (simp add: decimal_append digit_char_val)
  qed
qed

lemma parse_show_nat [simp]: "n < lim \<Longrightarrow> parse_unsigned lim (show_nat n) = Some n"
  by (simp add: parse_unsigned_digits)

lemma digit_ascii: "is_digit c \<Longrightarrow> of_char c < (128::nat)"
  by (auto simp: is_digit_def digit_val_def Let_def split: if_splits)

lemma digit_not_ws: "is_digit c \<Longrightarrow> \<not> white_space (of_char c)"
  by (auto simp: is_digit_def digit_val_def Let_def white_space_def split: if_splits)

lemma digits_ascii: "list_all is_digit s \<Longrightarrow> ascii_str s"
  by (auto simp: ascii_str_def list_all_iff digit_ascii)

lemma ascii_show_nat [simp]: "ascii_str (show_nat n)"
  by (simp add: digits_ascii)

lemma of_chars_ascii: "ascii_str s \<Longrightarrow> of_chars (map of_char s) = s"
  using of_chars_chars [of s] by simp

lemma trim_chars_id: "cs = [] \<or> \<not> white_space (hd cs) \<and> \<not> white_space (last cs) \<Longrightarrow> trim_chars cs = cs"
proof -
  assume h: "cs = [] \<or> \<not> white_space (hd cs) \<and> \<not> white_space (last cs)"
  have dw: "dropWhile white_space xs = xs" if "xs = [] \<or> \<not> white_space (hd xs)" for xs
    using that by (cases xs) auto
  have "dropWhile white_space cs = cs" "dropWhile white_space (rev cs) = rev cs"
    using h by (auto intro!: dw simp: hd_rev)
  then show ?thesis by (simp add: trim_chars_def)
qed

lemma trim_id:
  assumes "ascii_str s" "s \<noteq> []" "\<not> white_space (of_char (hd s))" "\<not> white_space (of_char (last s))"
  shows "trim s = s"
proof -
  have "trim_chars (map of_char s) = map of_char s"
    using assms(2,3,4) by (intro trim_chars_id) (simp add: hd_map last_map)
  then show ?thesis using assms(1) by (simp add: trim_def of_chars_ascii)
qed

lemma trim_ascii_str:
  assumes "ascii_str s"
  shows "trim s = (let ws = (\<lambda>c. white_space (of_char c)) in rev (dropWhile ws (rev (dropWhile ws s))))"
proof -
  let ?t = "rev (dropWhile (white_space \<circ> of_char) (rev (dropWhile (white_space \<circ> of_char) s)))"
  have sub: "set (dropWhile P xs) \<subseteq> set xs" for P and xs :: string by (auto dest: set_dropWhileD)
  have "set ?t \<subseteq> set s" using sub [of _ "rev (dropWhile _ s)"] sub [of _ s] by fastforce
  then have "ascii_str ?t" using assms by (auto simp: ascii_str_def list_all_iff)
  moreover have "trim_chars (map of_char s) = map of_char ?t"
    by (simp add: trim_chars_def dropWhile_map rev_map)
  ultimately show ?thesis using assms by (simp add: trim_def of_chars_ascii comp_def Let_def)
qed

end
