(* ===== verification/Framing.thy ===== *)
theory Framing
  imports Prelude
begin

text \<open>
  The interface between a byte stream and the code that consumes messages from it. Every
  read loop of the program has the shape \<^verbatim>\<open>read_buf(&mut buf)\<close> followed by
  \<^verbatim>\<open>while let Some(msg) = try_read_message(&mut buf)? { .. }\<close>. The locale \<open>frame_reader\<close> states what
  such a loop relies on; \<open>drain\<close> is the inner loop, \<open>feed\<close> the outer one over the chunks the
  socket delivers. Inside the locale: the messages seen do not depend on how the stream was cut
  into chunks.
\<close>

type_synonym 'm reader = "bytes \<Rightarrow> (pg_error + 'm option) \<times> bytes"

function drain :: "'m reader \<Rightarrow> bytes \<Rightarrow> 'm list \<times> pg_error option \<times> bytes" where
  "drain rd buf =
     (case rd buf of
        (Inl e, b) \<Rightarrow> ([], Some e, b)
      | (Inr None, b) \<Rightarrow> ([], None, b)
      | (Inr (Some m), b) \<Rightarrow>
          if length b < length buf
          then (case drain rd b of (ms, e, r) \<Rightarrow> (m # ms, e, r))
          else ([m], None, b))"
  by pat_completeness auto
termination
  by (relation "measure (\<lambda>(_, buf). length buf)") auto

declare drain.simps [simp del]

fun feed :: "'m reader \<Rightarrow> bytes \<Rightarrow> bytes list \<Rightarrow> 'm list \<times> pg_error option \<times> bytes" where
  "feed rd buf [] = ([], None, buf)"
| "feed rd buf (c # cs) =
     (case drain rd (buf @ c) of
        (ms, Some e, r) \<Rightarrow> (ms, Some e, r)
      | (ms, None, r) \<Rightarrow> (case feed rd r cs of (ms', e, r') \<Rightarrow> (ms @ ms', e, r')))"

locale frame_reader =
  fixes rd :: "'m reader"
  assumes incomplete: "rd buf = (Inr None, b) \<Longrightarrow> b = buf"
    and failed: "rd buf = (Inl e, b) \<Longrightarrow> b = buf"
    and progress: "rd buf = (Inr (Some m), b) \<Longrightarrow> length b < length buf"
    and stable: "rd buf = (Inr (Some m), b) \<Longrightarrow> rd (buf @ more) = (Inr (Some m), b @ more)"
    and stable_error: "rd buf = (Inl e, b) \<Longrightarrow> rd (buf @ more) = (Inl e, buf @ more)"
begin

lemma drain_step: "rd buf = (Inr (Some m), b) \<Longrightarrow>
  drain rd buf = (case drain rd b of (ms, e, r) \<Rightarrow> (m # ms, e, r))"
  by (simp add: drain.simps [of rd buf] progress)

lemma drain_stop: "rd buf = (Inr None, b) \<Longrightarrow> drain rd buf = ([], None, buf)"
  by (simp add: drain.simps [of rd buf] incomplete)

lemma drain_error: "rd buf = (Inl e, b) \<Longrightarrow> drain rd buf = ([], Some e, buf)"
  by (simp add: drain.simps [of rd buf] failed)

lemma reader_cases:
  obtains (stop) "rd buf = (Inr None, buf)" | (error) e where "rd buf = (Inl e, buf)"
  | (message) m b where "rd buf = (Inr (Some m), b)" "length b < length buf"
proof (cases "rd buf")
  case (Pair r b)
  show ?thesis
  proof (cases r)
    case (Inl e)
    then show ?thesis using Pair failed [of buf e b] error by simp
  next
    case (Inr o')
    show ?thesis
    proof (cases o')
      case None
      then show ?thesis using Pair Inr incomplete [of buf b] stop by simp
    next
      case (Some m)
      then show ?thesis using Pair Inr progress [of buf m b] message by simp
    qed
  qed
qed

lemma prefix_incomplete:
  assumes "rd (b @ y) = (Inr (Some m), r)" "length r < length y"
  shows "rd b = (Inr None, b)"
proof (cases b rule: reader_cases)
  case (error e)
  then show ?thesis using stable_error [OF error, of y] assms(1) by simp
next
  case (message m' b')
  then show ?thesis using stable [OF message(1), of y] assms by simp
qed

lemma drain_rest_incomplete:
  "drain rd buf = (ms, None, r) \<Longrightarrow> rd r = (Inr None, r)"
proof (induction buf arbitrary: ms rule: length_induct)
  case (1 buf)
  show ?case
  proof (cases buf rule: reader_cases)
    case (message m b)
    then show ?thesis using 1 drain_step [OF message(1)] by (auto split: prod.splits)
  qed (use 1 in \<open>auto simp: drain_stop drain_error\<close>)
qed

lemma drain_append:
  "drain rd buf = (ms, None, r) \<Longrightarrow> drain rd (r @ more) = (ms', e, r') \<Longrightarrow>
   drain rd (buf @ more) = (ms @ ms', e, r')"
proof (induction buf arbitrary: ms rule: length_induct)
  case (1 buf)
  show ?case
  proof (cases buf rule: reader_cases)
    case (message m b)
    then obtain ms1 where ms1: "drain rd b = (ms1, None, r)" "ms = m # ms1"
      using 1(2) drain_step [OF message(1)] by (auto split: prod.splits)
    then have "drain rd (b @ more) = (ms1 @ ms', e, r')" using 1 message by blast
    then show ?thesis using drain_step [OF stable [OF message(1)]] ms1 by simp
  qed (use 1 in \<open>auto simp: drain_stop drain_error\<close>)
qed

lemma drain_append_error:
  "drain rd buf = (ms, Some e, r) \<Longrightarrow> drain rd (buf @ more) = (ms, Some e, r @ more)"
proof (induction buf arbitrary: ms rule: length_induct)
  case (1 buf)
  show ?case
  proof (cases buf rule: reader_cases)
    case (message m b)
    then obtain ms1 where ms1: "drain rd b = (ms1, Some e, r)" "ms = m # ms1"
      using 1(2) drain_step [OF message(1)] by (auto split: prod.splits)
    then have "drain rd (b @ more) = (ms1, Some e, r @ more)" using 1 message by blast
    then show ?thesis using drain_step [OF stable [OF message(1)]] ms1 by simp
  next
    case (error e')
    then show ?thesis using 1(2) drain_error [OF error] drain_error [OF stable_error [OF error]] by simp
  qed (use 1 in \<open>auto simp: drain_stop\<close>)
qed

theorem feed_segmentation:
  assumes "rd buf = (Inr None, buf)"
  shows "(case feed rd buf cs of (ms, e, r) \<Rightarrow> (ms, e)) =
         (case drain rd (buf @ concat cs) of (ms, e, r) \<Rightarrow> (ms, e))"
  using assms
proof (induction cs arbitrary: buf)
  case Nil
  then show ?case by (simp add: drain_stop)
next
  case (Cons c cs)
  obtain ms e r where d: "drain rd (buf @ c) = (ms, e, r)" by (cases "drain rd (buf @ c)") auto
  show ?case
  proof (cases e)
    case None
    with d have "drain rd (buf @ c) = (ms, None, r)" by simp
    note IH = Cons.IH [OF drain_rest_incomplete [OF this]]
    obtain ms' e' r' where d': "drain rd (r @ concat cs) = (ms', e', r')"
      by (cases "drain rd (r @ concat cs)") auto
    have "drain rd ((buf @ c) @ concat cs) = (ms @ ms', e', r')"
      using d d' None by (intro drain_append) simp_all
    then show ?thesis using IH d d' None by (auto split: prod.splits)
  next
    case (Some e0)
    then have "drain rd ((buf @ c) @ concat cs) = (ms, Some e0, r @ concat cs)"
      using d by (intro drain_append_error) simp
    then show ?thesis using d Some by simp
  qed
qed

end

end
