(* ===== verification/Wire.thy ===== *)
theory Wire
  imports Rust_Str Framing "HOL-Library.AList"
begin

text \<open>
  The wire format of \<^verbatim>\<open>src/protocol/messages.rs\<close>: \<^verbatim>\<open>PgMessage\<close> with its encoder, the two
  incremental readers, the startup-packet parser, the message builders and the query
  inspection helpers. A \<^verbatim>\<open>&mut BytesMut\<close> argument is the buffer before the call and a
  component of the result after it.
\<close>

section \<open>Messages\<close>

definition MAX_MESSAGE_SIZE :: nat where
  "MAX_MESSAGE_SIZE = 64 * 1024 * 1024"

record pg_message =
  msg_type :: u8
  payload :: bytes

definition new_message :: "u8 \<Rightarrow> bytes \<Rightarrow> pg_message" where
  "new_message t p = \<lparr>msg_type = t, payload = p\<rparr>"

definition encode :: "pg_message \<Rightarrow> bytes \<Rightarrow> bytes" where
  "encode m buf =
     (let buf = (if msg_type m \<noteq> 0 then buf @ [msg_type m] else buf);
          buf = buf @ put_i32 (usize_as_i32 (length (payload m) + 4))
      in buf @ payload m)"

text \<open>
  \<^verbatim>\<open>try_read_message\<close>: \<open>Inl\<close> is the error, \<open>Inr None\<close> "not enough data yet"; the second
  component is the buffer afterwards. \<^verbatim>\<open>(&buf[0..4]).get_i32()\<close> cannot fail after the length
  check, so the \<open>None\<close> case of \<open>get_i32\<close> is never taken.
\<close>

definition valid_len :: "nat \<Rightarrow> bool" where
  "valid_len len \<longleftrightarrow> 4 \<le> len \<and> len \<le> MAX_MESSAGE_SIZE"

definition try_read_message :: "bytes \<Rightarrow> bool \<Rightarrow> (pg_error + pg_message option) \<times> bytes" where
  "try_read_message buf is_startup =
     (if is_startup then
        (if length buf < 4 then (Inr None, buf)
         else case get_i32 buf of
           None \<Rightarrow> (Inr None, buf)
         | Some w \<Rightarrow>
           (let len = i32_as_usize w in
            if \<not> valid_len len then (Inl (InvalidStartupLength len), buf)
            else if length buf < len then (Inr None, buf)
            else let buf = drop 4 buf
                 in (Inr (Some \<lparr>msg_type = 0, payload = take (len - 4) buf\<rparr>), drop (len - 4) buf)))
      else
        (if length buf < 5 then (Inr None, buf)
         else case get_i32 (tl buf) of
           None \<Rightarrow> (Inr None, buf)
         | Some w \<Rightarrow>
           (let t = hd buf; len = i32_as_usize w in
            if \<not> valid_len len then (Inl (InvalidMessageLength len t), buf)
            else let total_len = 1 + len in
              if length buf < total_len then (Inr None, buf)
              else let buf = drop 5 buf
                   in (Inr (Some \<lparr>msg_type = t, payload = take (len - 4) buf\<rparr>), drop (len - 4) buf))))"

definition try_read_message_with_raw ::
    "bytes \<Rightarrow> (pg_error + (pg_message \<times> bytes) option) \<times> bytes" where
  "try_read_message_with_raw buf =
     (if length buf < 5 then (Inr None, buf)
      else case get_i32 (tl buf) of
        None \<Rightarrow> (Inr None, buf)
      | Some w \<Rightarrow>
        (let t = hd buf; len = i32_as_usize w in
         if \<not> valid_len len then (Inl (InvalidMessageLength len t), buf)
         else let total_len = 1 + len in
           if length buf < total_len then (Inr None, buf)
           else let raw = take total_len buf
                in (Inr (Some (\<lparr>msg_type = t, payload = drop 5 raw\<rparr>, raw)), drop total_len buf)))"

section \<open>The startup packet\<close>

text \<open>
  The parameter table is a \<^verbatim>\<open>HashMap<String, String>\<close>, here an association list with one entry
  per key; the iteration order of a \<^verbatim>\<open>HashMap\<close> is unspecified and the list fixes one.
  A key that runs to the end of the payload without its null byte leaves \<^verbatim>\<open>val_start\<close> one past
  the end, and slicing there panics.
\<close>

type_synonym params = "(string \<times> string) list"

function parse_pairs :: "bytes \<Rightarrow> params \<Rightarrow> params outcome" where
  "parse_pairs bs acc =
     (if bs = [] \<or> hd bs = 0 then Ok acc
      else case from_utf8 (takeWhile (\<lambda>b. b \<noteq> 0) bs) of
        None \<Rightarrow> Err Utf8Error
      | Some key \<Rightarrow>
        (case dropWhile (\<lambda>b. b \<noteq> 0) bs of
           [] \<Rightarrow> Panic
         | _ # bs' \<Rightarrow>
           (case from_utf8 (takeWhile (\<lambda>b. b \<noteq> 0) bs') of
              None \<Rightarrow> Err Utf8Error
            | Some val \<Rightarrow> parse_pairs (drop 1 (dropWhile (\<lambda>b. b \<noteq> 0) bs')) (AList.update key val acc))))"
  by pat_completeness auto
termination
proof (relation "measure (\<lambda>(bs, _). length bs)", goal_cases)
  case (2 bs acc key x bs' val)
  have "length (x # bs') \<le> length bs" unfolding 2(3) [symmetric] by (rule length_dropWhile_le)
  moreover have "length (dropWhile (\<lambda>b. b \<noteq> 0) bs') \<le> length bs'" by (rule length_dropWhile_le)
  ultimately show ?case by simp
qed simp

declare parse_pairs.simps [simp del]

definition parse_startup_params :: "bytes \<Rightarrow> (i32 \<times> params) outcome" where
  "parse_startup_params p =
     (if length p < 4 then Err StartupPayloadTooShort
      else case get_i32 p of
        None \<Rightarrow> Err StartupPayloadTooShort
      | Some version \<Rightarrow>
        (case parse_pairs (drop 4 p) [] of
           Ok params \<Rightarrow> Ok (version, params)
         | Err e \<Rightarrow> Err e
         | Panic \<Rightarrow> Panic
         | Pending \<Rightarrow> Pending))"

definition cstr :: "string \<Rightarrow> bytes" where
  "cstr s = as_bytes s @ [0]"

definition build_startup_message :: "string \<Rightarrow> string \<Rightarrow> (string \<times> string) list \<Rightarrow> bytes" where
  "build_startup_message user database extra_params =
     (let p = put_i32 196608 @ as_bytes ''user'' @ [0] @ cstr user
            @ as_bytes ''database'' @ [0] @ cstr database
            @ concat (map (\<lambda>(k, v). cstr k @ cstr v) extra_params) @ [0]
      in put_i32 (usize_as_i32 (length p + 4)) @ p)"

section \<open>Message builders\<close>

definition response_payload :: "string \<Rightarrow> string \<Rightarrow> string \<Rightarrow> bytes" where
  "response_payload severity code message =
     [byte_of CHR ''S''] @ cstr severity @ [byte_of CHR ''V''] @ cstr severity
     @ [byte_of CHR ''C''] @ cstr code @ [byte_of CHR ''M''] @ cstr message @ [0]"

definition build_error_response :: "string \<Rightarrow> string \<Rightarrow> string \<Rightarrow> bytes" where
  "build_error_response severity code message =
     (let p = response_payload severity code message
      in byte_of CHR ''E'' # put_i32 (usize_as_i32 (length p + 4)) @ p)"

definition build_notice_response :: "string \<Rightarrow> string \<Rightarrow> string \<Rightarrow> bytes" where
  "build_notice_response severity code message =
     (let p = response_payload severity code message
      in byte_of CHR ''N'' # put_i32 (usize_as_i32 (length p + 4)) @ p)"

definition build_auth_ok :: bytes where
  "build_auth_ok = byte_of CHR ''R'' # put_i32 8 @ put_i32 0"

definition build_auth_cleartext_request :: bytes where
  "build_auth_cleartext_request = byte_of CHR ''R'' # put_i32 8 @ put_i32 3"

definition build_ready_for_query :: "u8 \<Rightarrow> bytes" where
  "build_ready_for_query status = byte_of CHR ''Z'' # put_i32 5 @ [status]"

definition build_parameter_status :: "string \<Rightarrow> string \<Rightarrow> bytes" where
  "build_parameter_status name value =
     (let p = cstr name @ cstr value
      in byte_of CHR ''S'' # put_i32 (usize_as_i32 (length p + 4)) @ p)"

definition build_backend_key_data :: "i32 \<Rightarrow> i32 \<Rightarrow> bytes" where
  "build_backend_key_data pid secret = byte_of CHR ''K'' # put_i32 12 @ put_i32 pid @ put_i32 secret"

section \<open>Query inspection\<close>

definition is_shrink_operation :: "(nat \<Rightarrow> nat list) \<Rightarrow> string \<Rightarrow> bool" where
  "is_shrink_operation u query =
     (let upper = to_uppercase u (trim query)
      in starts_with upper ''DELETE'' \<or> starts_with upper ''TRUNCATE''
         \<or> starts_with upper ''DROP'' \<or> starts_with upper ''VACUUM'')"

definition extract_query_text :: "pg_message \<Rightarrow> string option" where
  "extract_query_text m =
     (if msg_type m = byte_of CHR ''Q'' then
        (if 0 \<in> set (payload m) then from_utf8 (takeWhile (\<lambda>b. b \<noteq> 0) (payload m)) else None)
      else None)"

definition SSL_REQUEST_CODE :: i32 where
  "SSL_REQUEST_CODE = 80877103"

definition CANCEL_REQUEST_CODE :: i32 where
  "CANCEL_REQUEST_CODE = 80877102"

section \<open>Reference notions\<close>

text \<open>
  A string that survives the null-terminated encoding, the table a list of parameters
  denotes (later entries win), and the keywords that make a statement a shrink operation.
\<close>

definition wire_str :: "string \<Rightarrow> bool" where
  "wire_str s \<longleftrightarrow> valid_str s \<and> 0 \<notin> set (as_bytes s)"

definition param_table :: "params \<Rightarrow> (string \<times> string) list \<Rightarrow> params" where
  "param_table = foldl (\<lambda>acc (k, v). AList.update k v acc)"

definition shrink_keywords :: "string list" where
  "shrink_keywords = [''DELETE'', ''TRUNCATE'', ''DROP'', ''VACUUM'']"

section \<open>The readers\<close>

lemma i32_as_usize_inverse:
  assumes "i32_as_usize w < 2147483648"
  shows "usize_as_i32 (i32_as_usize w) = w"
proof -
  have lo: "- 2147483648 \<le> sint w" and hi: "sint w < 2147483648"
    using sint_greater_eq [of w] sint_less [of w] by simp_all
  have "0 \<le> sint w"
  proof (rule ccontr)
    assume "\<not> 0 \<le> sint w"
    then have "(sint w + 18446744073709551616) mod 18446744073709551616 = sint w + 18446744073709551616"
      using lo by (intro mod_pos_pos_trivial) simp_all
    then have "sint w mod 18446744073709551616 = sint w + 18446744073709551616"
      by (simp only: mod_add_self2)
    with lo assms show False by (simp add: i32_as_usize_def)
  qed
  then have "i32_as_usize w = nat (sint w)" using hi by (simp add: i32_as_usize_def)
  then show ?thesis using \<open>0 \<le> sint w\<close> by (simp add: usize_as_i32_def)
qed

lemma valid_len_less: "valid_len len \<Longrightarrow> len < 2147483648"
  by (simp add: valid_len_def MAX_MESSAGE_SIZE_def)

lemma try_read_message_eq_raw:
  "try_read_message buf False =
     (case try_read_message_with_raw buf of (r, rest) \<Rightarrow> (map_sum id (map_option fst) r, rest))"
proof (cases "length buf < 5 \<or> get_i32 (tl buf) = None")
  case True
  then show ?thesis by (auto simp: try_read_message_def try_read_message_with_raw_def)
next
  case False
  then obtain w where w: "get_i32 (tl buf) = Some w" "5 \<le> length buf" by auto
  show ?thesis
  proof (cases "valid_len (i32_as_usize w)")
    case True
    then have "4 \<le> i32_as_usize w" by (simp add: valid_len_def)
    then show ?thesis using w
      by (auto simp: try_read_message_def try_read_message_with_raw_def Let_def drop_take)
  next
    case False
    then show ?thesis using w by (auto simp: try_read_message_def try_read_message_with_raw_def)
  qed
qed

lemma with_raw_SomeE:
  assumes "try_read_message_with_raw buf = (Inr (Some (m, raw)), rest)"
  obtains len where "buf = raw @ rest" and "valid_len len"
    and "raw = msg_type m # put_i32 (usize_as_i32 len) @ payload m"
    and "length (payload m) + 4 = len"
proof -
  from assms obtain w where w: "5 \<le> length buf" "get_i32 (tl buf) = Some w"
      "valid_len (i32_as_usize w)" "1 + i32_as_usize w \<le> length buf"
      "raw = take (1 + i32_as_usize w) buf" "rest = drop (1 + i32_as_usize w) buf"
      "m = \<lparr>msg_type = hd buf, payload = drop 5 raw\<rparr>"
    by (auto simp: try_read_message_with_raw_def Let_def split: if_splits option.splits)
  have b: "buf = hd buf # tl buf" using w(1) by (cases buf) auto
  have p: "put_i32 w = take 4 (tl buf)" using w(2) by (rule put_get_i32)
  have l: "4 \<le> i32_as_usize w" using w(3) by (simp add: valid_len_def)
  have "raw = hd buf # take (i32_as_usize w) (tl buf)"
    using w(5) b by (metis plus_1_eq_Suc take_Suc_Cons)
  also have "take (i32_as_usize w) (tl buf) = take 4 (tl buf) @ take (i32_as_usize w - 4) (drop 4 (tl buf))"
    using l by (metis take_add le_add_diff_inverse)
  finally have raw: "raw = hd buf # put_i32 w @ take (i32_as_usize w - 4) (drop 4 (tl buf))"
    by (simp add: p)
  have pay: "payload m = take (i32_as_usize w - 4) (drop 4 (tl buf))"
    using w(7) raw by simp
  have w': "usize_as_i32 (i32_as_usize w) = w"
    by (intro i32_as_usize_inverse valid_len_less w(3))
  show thesis
  proof
    show "buf = raw @ rest" using w by simp
    show "valid_len (i32_as_usize w)" by (rule w(3))
    show "raw = msg_type m # put_i32 (usize_as_i32 (i32_as_usize w)) @ payload m"
      using raw pay w(7) by (simp add: w')
    show "length (payload m) + 4 = i32_as_usize w"
      using w l by simp
  qed
qed

lemma with_raw_frame:
  assumes "length p + 4 \<le> MAX_MESSAGE_SIZE"
  shows "try_read_message_with_raw (t # put_i32 (usize_as_i32 (length p + 4)) @ p @ rest) =
    (Inr (Some (\<lparr>msg_type = t, payload = p\<rparr>, t # put_i32 (usize_as_i32 (length p + 4)) @ p)), rest)"
proof -
  have v: "valid_len (length p + 4)" using assms by (simp add: valid_len_def)
  from valid_len_less [OF v] have u: "i32_as_usize (usize_as_i32 (length p + 4)) = length p + 4" by simp
  define h where "h = t # put_i32 (usize_as_i32 (length p + 4)) @ p"
  have h: "t # put_i32 (usize_as_i32 (length p + 4)) @ p @ rest = h @ rest" by (simp add: h_def)
  have g: "get_i32 (tl (h @ rest)) = Some (usize_as_i32 (length p + 4))" "hd (h @ rest) = t"
    by (simp_all add: h_def)
  have l: "length h = 1 + (length p + 4)" "drop 5 h = p" by (simp_all add: h_def)
  show ?thesis
    unfolding h h_def [symmetric] try_read_message_with_raw_def g option.case u Let_def
    using v l by simp
qed

lemma get_i32_tl_append: "5 \<le> length buf \<Longrightarrow> get_i32 (tl (buf @ suf)) = get_i32 (tl buf)"
  by (cases buf) (simp_all add: get_i32_append)

lemma with_raw_stable:
  assumes "try_read_message_with_raw buf = (Inr (Some m), b)"
  shows "try_read_message_with_raw (buf @ suf) = (Inr (Some m), b @ suf)"
proof -
  obtain pm raw where m: "m = (pm, raw)" by (cases m)
  from with_raw_SomeE [OF assms [unfolded m]] obtain len
    where len: "buf = raw @ b" "valid_len len" "raw = msg_type pm # put_i32 (usize_as_i32 len) @ payload pm"
      "length (payload pm) + 4 = len" by blast
  have "length (payload pm) + 4 \<le> MAX_MESSAGE_SIZE" using len by (simp add: valid_len_def)
  from with_raw_frame [OF this, of "msg_type pm" "b @ suf"] show ?thesis
    using len by (simp add: m)
qed

lemma with_raw_error_stable:
  assumes "try_read_message_with_raw buf = (Inl e, b)"
  shows "try_read_message_with_raw (buf @ suf) = (Inl e, buf @ suf)"
  using assms
  by (auto simp: try_read_message_with_raw_def Let_def get_i32_tl_append hd_append split: if_splits option.splits)

interpretation raw_reader: frame_reader try_read_message_with_raw
proof (unfold_locales, goal_cases)
  case (1 buf b)
  then show ?case by (auto simp: try_read_message_with_raw_def Let_def split: if_splits option.splits)
next
  case (2 buf e b)
  then show ?case by (auto simp: try_read_message_with_raw_def Let_def split: if_splits option.splits)
next
  case (3 buf m b)
  then obtain pm raw where "try_read_message_with_raw buf = (Inr (Some (pm, raw)), b)" by (cases m) auto
  then show ?case by (rule with_raw_SomeE) auto
next
  case (4 buf m b suf)
  then show ?case by (rule with_raw_stable)
next
  case (5 buf e b suf)
  then show ?case by (rule with_raw_error_stable)
qed

lemma map_sum_Inr_Some: "map_sum id (map_option f) r = Inr (Some m) \<longleftrightarrow> (\<exists>x. r = Inr (Some x) \<and> m = f x)"
  by (cases r) auto

lemma map_sum_Inr_None: "map_sum id (map_option f) r = Inr None \<longleftrightarrow> r = Inr None"
  by (cases r) auto

lemma map_sum_Inl: "map_sum id (map_option f) r = Inl e \<longleftrightarrow> r = Inl e"
  by (cases r) auto

lemmas map_sum_conv = map_sum_Inr_Some map_sum_Inr_None map_sum_Inl

interpretation message_reader: frame_reader "\<lambda>buf. try_read_message buf False"
  unfolding try_read_message_eq_raw
proof (unfold_locales, goal_cases)
  case (1 buf b)
  then show ?case by (auto simp: map_sum_conv split: prod.splits dest: raw_reader.incomplete)
next
  case (2 buf e b)
  then show ?case by (auto simp: map_sum_conv split: prod.splits dest: raw_reader.failed)
next
  case (3 buf m b)
  then show ?case by (auto simp: map_sum_conv split: prod.splits dest: raw_reader.progress)
next
  case (4 buf m b suf)
  then obtain x where x: "try_read_message_with_raw buf = (Inr (Some x), b)" "m = fst x"
    by (auto simp: map_sum_conv split: prod.splits)
  show ?case by (simp add: raw_reader.stable [OF x(1)] x(2))
next
  case (5 buf e b suf)
  then have e: "try_read_message_with_raw buf = (Inl e, b)" by (auto simp: map_sum_conv split: prod.splits)
  show ?case by (simp add: raw_reader.stable_error [OF e])
qed

lemma startup_SomeE:
  assumes "try_read_message buf True = (Inr (Some m), rest)"
  obtains len where "buf = put_i32 (usize_as_i32 len) @ payload m @ rest" and "valid_len len"
    and "msg_type m = 0" and "length (payload m) + 4 = len"
proof -
  from assms obtain w where w: "4 \<le> length buf" "get_i32 buf = Some w"
      "valid_len (i32_as_usize w)" "i32_as_usize w \<le> length buf"
      "m = \<lparr>msg_type = 0, payload = take (i32_as_usize w - 4) (drop 4 buf)\<rparr>"
      "rest = drop (i32_as_usize w - 4) (drop 4 buf)"
    by (auto simp: try_read_message_def Let_def split: if_splits option.splits)
  have w': "usize_as_i32 (i32_as_usize w) = w"
    by (intro i32_as_usize_inverse valid_len_less w(3))
  have l: "4 \<le> i32_as_usize w" using w(3) by (simp add: valid_len_def)
  show thesis
  proof
    have "buf = take 4 buf @ drop 4 buf" by simp
    then show "buf = put_i32 (usize_as_i32 (i32_as_usize w)) @ payload m @ rest"
      unfolding w' put_get_i32 [OF w(2)] using w(5,6) by (metis append_take_drop_id pg_message.select_convs(2))
    show "valid_len (i32_as_usize w)" by (rule w(3))
    show "msg_type m = 0" by (simp add: w(5))
    show "length (payload m) + 4 = i32_as_usize w" using w l by simp
  qed
qed

lemma startup_frame:
  assumes "length p + 4 \<le> MAX_MESSAGE_SIZE"
  shows "try_read_message (put_i32 (usize_as_i32 (length p + 4)) @ p @ rest) True =
    (Inr (Some \<lparr>msg_type = 0, payload = p\<rparr>), rest)"
proof -
  have v: "valid_len (length p + 4)" using assms by (simp add: valid_len_def)
  from valid_len_less [OF v] have u: "i32_as_usize (usize_as_i32 (length p + 4)) = length p + 4" by simp
  show ?thesis
    unfolding try_read_message_def using v
    by (simp add: u Let_def)
qed

interpretation startup_reader: frame_reader "\<lambda>buf. try_read_message buf True"
proof (unfold_locales, goal_cases)
  case (1 buf b)
  then show ?case by (auto simp: try_read_message_def Let_def split: if_splits option.splits)
next
  case (2 buf e b)
  then show ?case by (auto simp: try_read_message_def Let_def split: if_splits option.splits)
next
  case (3 buf m b)
  then show ?case by (rule startup_SomeE) auto
next
  case (4 buf m b suf)
  from startup_SomeE [OF 4] obtain len where len: "buf = put_i32 (usize_as_i32 len) @ payload m @ b"
    "valid_len len" "msg_type m = 0" "length (payload m) + 4 = len" by blast
  have "length (payload m) + 4 \<le> MAX_MESSAGE_SIZE" using len by (simp add: valid_len_def)
  from startup_frame [OF this, of "b @ suf"] show ?case using len by simp
next
  case (5 buf e b suf)
  then show ?case
    by (auto simp: try_read_message_def Let_def get_i32_append split: if_splits option.splits)
qed


section \<open>Properties of the readers\<close>

lemma message_roundtrip:
  assumes "length (payload m) + 4 \<le> MAX_MESSAGE_SIZE"
  shows "try_read_message (encode m [] @ rest) (msg_type m = 0) = (Inr (Some m), rest)"
proof (cases "msg_type m = 0")
  case True
  then have "m = \<lparr>msg_type = 0, payload = payload m\<rparr>" by simp
  then show ?thesis using startup_frame [OF assms, of rest] True by (simp add: encode_def)
next
  case False
  then show ?thesis
    using with_raw_frame [OF assms, of "msg_type m" rest]
    by (simp add: encode_def try_read_message_eq_raw)
qed

lemma message_roundtrip_witness:
  "try_read_message (encode \<lparr>msg_type = 81, payload = [65, 0]\<rparr> [] @ [90]) False
     = (Inr (Some \<lparr>msg_type = 81, payload = [65, 0]\<rparr>), [90])"
  using message_roundtrip [of "\<lparr>msg_type = 81, payload = [65, 0]\<rparr>" "[90]"]
  by (simp add: MAX_MESSAGE_SIZE_def)

lemma raw_reader_faithful:
  assumes "try_read_message_with_raw buf = (Inr (Some (m, raw)), rest)"
  shows "buf = raw @ rest \<and> (msg_type m \<noteq> 0 \<longrightarrow> encode m [] = raw) \<and> length raw = 5 + length (payload m)
    \<and> try_read_message buf False = (Inr (Some m), rest)"
proof -
  from with_raw_SomeE [OF assms] obtain len
    where len: "buf = raw @ rest" "raw = msg_type m # put_i32 (usize_as_i32 len) @ payload m"
      "length (payload m) + 4 = len" by blast
  have "encode m [] = raw" if "msg_type m \<noteq> 0" using that len by (simp add: encode_def)
  then show ?thesis using len assms by (simp add: try_read_message_eq_raw)
qed

lemma raw_reader_faithful_witness:
  "try_read_message [81, 0, 0, 0, 6, 65, 0, 90] False = (Inr (Some \<lparr>msg_type = 81, payload = [65, 0]\<rparr>), [90])"
proof -
  have "try_read_message_with_raw [81, 0, 0, 0, 6, 65, 0, 90] =
      (Inr (Some (\<lparr>msg_type = 81, payload = [65, 0]\<rparr>, [81, 0, 0, 0, 6, 65, 0])), [90])"
    by (simp add: try_read_message_with_raw_def from_be_bytes_def i32_as_usize_def valid_len_def MAX_MESSAGE_SIZE_def)
  from raw_reader_faithful [OF this] show ?thesis by simp
qed

lemma reassembly_segmentation:
  "(case feed try_read_message_with_raw [] cs of (ms, e, _) \<Rightarrow> (ms, e)) =
   (case drain try_read_message_with_raw (concat cs) of (ms, e, _) \<Rightarrow> (ms, e))"
proof -
  have "try_read_message_with_raw [] = (Inr None, [])" by (simp add: try_read_message_with_raw_def)
  from raw_reader.feed_segmentation [OF this, of cs] show ?thesis by simp
qed

lemma reader_decision:
  "try_read_message (t # put_i32 w @ rest) False =
     (if \<not> (4 \<le> sint w \<and> sint w \<le> 67108864)
      then (Inl (InvalidMessageLength (i32_as_usize w) t), t # put_i32 w @ rest)
      else if int (length rest) < sint w - 4 then (Inr None, t # put_i32 w @ rest)
      else (Inr (Some \<lparr>msg_type = t, payload = take (nat (sint w - 4)) rest\<rparr>), drop (nat (sint w - 4)) rest))"
proof -
  have lo: "- 2147483648 \<le> sint w" and hi: "sint w < 2147483648"
    using sint_greater_eq [of w] sint_less [of w] by simp_all
  have "int (i32_as_usize w) = sint w mod 18446744073709551616" by (simp add: i32_as_usize_def)
  moreover have "sint w mod 18446744073709551616 = (if sint w < 0 then sint w + 18446744073709551616 else sint w)"
    using lo hi mod_pos_pos_trivial [of "sint w + 18446744073709551616" 18446744073709551616]
    by (auto simp only: mod_add_self2 split: if_split) simp
  ultimately have i: "int (i32_as_usize w) = (if sint w < 0 then sint w + 18446744073709551616 else sint w)"
    by simp
  then have v: "valid_len (i32_as_usize w) \<longleftrightarrow> 4 \<le> sint w \<and> sint w \<le> 67108864"
    using lo by (auto simp: valid_len_def MAX_MESSAGE_SIZE_def split: if_splits)
  show ?thesis
  proof (cases "valid_len (i32_as_usize w)")
    case True
    then have n: "i32_as_usize w = nat (sint w)" "4 \<le> sint w" using i v by (auto split: if_splits)
    then have k: "nat (sint w) - 4 = nat (sint w - 4)" by simp
    show ?thesis using True v n k
      by (auto simp: try_read_message_def Let_def nat_less_iff)
  next
    case False
    then show ?thesis using v by (simp add: try_read_message_def Let_def)
  qed
qed

section \<open>Startup packets\<close>

lemma takeWhile_cstr: "0 \<notin> set bs \<Longrightarrow> takeWhile (\<lambda>b. b \<noteq> 0) (bs @ 0 # rest) = bs"
  by (induction bs) auto

lemma dropWhile_cstr: "0 \<notin> set bs \<Longrightarrow> dropWhile (\<lambda>b. b \<noteq> 0) (bs @ 0 # rest) = 0 # rest"
  by (induction bs) auto

lemma parse_pairs_stop [simp]: "parse_pairs [] acc = Ok acc" "parse_pairs (0 # bs) acc = Ok acc"
  by (simp_all add: parse_pairs.simps)

lemma parse_pairs_pair:
  assumes "wire_str k" "k \<noteq> []" "wire_str v"
  shows "parse_pairs (cstr k @ cstr v @ rest) acc = parse_pairs rest (AList.update k v acc)"
proof -
  obtain c k' where "k = c # k'" using assms(2) by (cases k) auto
  then have h: "as_bytes k @ 0 # as_bytes v @ 0 # rest \<noteq> []" "hd (as_bytes k @ 0 # as_bytes v @ 0 # rest) \<noteq> 0"
    using assms(1) by (auto simp: wire_str_def)
  show ?thesis
    using assms h
    by (simp add: parse_pairs.simps [of "as_bytes k @ 0 # as_bytes v @ 0 # rest"] cstr_def
        takeWhile_cstr dropWhile_cstr wire_str_def from_utf8_as_bytes)
qed

lemma parse_pairs_roundtrip:
  assumes "\<forall>(k, v) \<in> set kvs. wire_str k \<and> k \<noteq> [] \<and> wire_str v"
  shows "parse_pairs (concat (map (\<lambda>(k, v). cstr k @ cstr v) kvs) @ 0 # rest) acc = Ok (param_table acc kvs)"
  using assms
proof (induction kvs arbitrary: acc)
  case Nil
  then show ?case by (simp add: param_table_def)
next
  case (Cons kv kvs)
  obtain k v where kv: "kv = (k, v)" by (cases kv)
  then show ?case using Cons parse_pairs_pair [of k v] by (simp add: param_table_def)
qed

lemma wire_str_ascii_lits [simp]: "wire_str ''user''" "wire_str ''database''"
  by (simp_all add: wire_str_def ascii_str_def byte_of_def)

lemma startup_message_roundtrip:
  assumes "wire_str user" "wire_str database"
    and "\<forall>(k, v) \<in> set extra. wire_str k \<and> k \<noteq> [] \<and> wire_str v"
    and "length (build_startup_message user database extra) \<le> MAX_MESSAGE_SIZE"
  shows "\<exists>p. try_read_message (build_startup_message user database extra) True
               = (Inr (Some \<lparr>msg_type = 0, payload = p\<rparr>), [])
           \<and> parse_startup_params p
               = Ok (196608, param_table [] ((''user'', user) # (''database'', database) # extra))"
proof -
  let ?kvs = "(''user'', user) # (''database'', database) # extra"
  let ?p = "put_i32 196608 @ concat (map (\<lambda>(k, v). cstr k @ cstr v) ?kvs) @ [0]"
  have b: "build_startup_message user database extra = put_i32 (usize_as_i32 (length ?p + 4)) @ ?p @ []"
    by (simp add: build_startup_message_def cstr_def)
  have "length ?p + 4 \<le> MAX_MESSAGE_SIZE" using assms(4) unfolding b by simp
  from startup_frame [OF this, of "[]"] have r: "try_read_message (build_startup_message user database extra) True
      = (Inr (Some \<lparr>msg_type = 0, payload = ?p\<rparr>), [])" unfolding b .
  have "parse_pairs (concat (map (\<lambda>(k, v). cstr k @ cstr v) ?kvs) @ 0 # []) [] = Ok (param_table [] ?kvs)"
    using assms(1-3) by (intro parse_pairs_roundtrip) simp
  then have "parse_startup_params ?p = Ok (196608, param_table [] ?kvs)"
    by (simp add: parse_startup_params_def del: concat.simps list.map)
  with r show ?thesis by blast
qed

lemma map_of_param_table: "map_of (param_table acc kvs) = map_of acc ++ map_of (rev kvs)"
  by (induction kvs arbitrary: acc) (auto simp: param_table_def update_conv' map_add_def fun_eq_iff split: option.splits)

lemma unterminated_key_panics:
  assumes "wire_str k" "k \<noteq> []"
  shows "parse_startup_params (put_i32 v @ as_bytes k) = Panic"
proof -
  have nz: "\<forall>b \<in> set (as_bytes k). b \<noteq> 0" using assms(1) by (auto simp: wire_str_def)
  have h: "as_bytes k \<noteq> []" "hd (as_bytes k) \<noteq> 0" using assms nz by (cases k; auto)+
  have t: "takeWhile (\<lambda>b. b \<noteq> 0) (as_bytes k) = as_bytes k" "dropWhile (\<lambda>b. b \<noteq> 0) (as_bytes k) = []"
    using nz by (simp_all add: takeWhile_eq_all_conv)
  have "parse_pairs (as_bytes k) [] = Panic"
    using h assms(1) by (simp add: parse_pairs.simps [of "as_bytes k"] t from_utf8_as_bytes wire_str_def)
  then show ?thesis by (simp add: parse_startup_params_def)
qed

section \<open>Builders\<close>

lemma read_frame:
  assumes "length p + 4 \<le> MAX_MESSAGE_SIZE"
  shows "try_read_message (t # put_i32 (usize_as_i32 (length p + 4)) @ p @ rest) False =
    (Inr (Some \<lparr>msg_type = t, payload = p\<rparr>), rest)"
  using with_raw_frame [OF assms] by (simp add: try_read_message_eq_raw)

lemma read_fixed_frame:
  assumes "length p = n" "n + 4 \<le> MAX_MESSAGE_SIZE" "w = usize_as_i32 (n + 4)"
  shows "try_read_message (t # put_i32 w @ p @ rest) False = (Inr (Some \<lparr>msg_type = t, payload = p\<rparr>), rest)"
  using read_frame [of p t rest] assms by simp

lemma fixed_builders_read_back:
  "try_read_message (build_auth_ok @ rest) False
     = (Inr (Some \<lparr>msg_type = byte_of CHR ''R'', payload = put_i32 0\<rparr>), rest)"
  "try_read_message (build_auth_cleartext_request @ rest) False
     = (Inr (Some \<lparr>msg_type = byte_of CHR ''R'', payload = put_i32 3\<rparr>), rest)"
  "try_read_message (build_ready_for_query st @ rest) False
     = (Inr (Some \<lparr>msg_type = byte_of CHR ''Z'', payload = [st]\<rparr>), rest)"
  "try_read_message (build_backend_key_data pid secret @ rest) False
     = (Inr (Some \<lparr>msg_type = byte_of CHR ''K'', payload = put_i32 pid @ put_i32 secret\<rparr>), rest)"
  using read_fixed_frame [of "put_i32 0" 4 8] read_fixed_frame [of "put_i32 3" 4 8]
    read_fixed_frame [of "[st]" 1 5] read_fixed_frame [of "put_i32 pid @ put_i32 secret" 8 12]
  by (simp_all add: build_auth_ok_def build_auth_cleartext_request_def build_ready_for_query_def
      build_backend_key_data_def usize_as_i32_def MAX_MESSAGE_SIZE_def)

lemma length_response_payload:
  "length (response_payload sev code msg) = 2 * length sev + length code + length msg + 9"
  by (simp add: response_payload_def cstr_def)

lemma builders_read_back:
  assumes "2 * length sev + length code + length msg + 13 \<le> MAX_MESSAGE_SIZE"
    and "length name + length val + 6 \<le> MAX_MESSAGE_SIZE"
  shows
   "try_read_message (build_error_response sev code msg @ rest) False
      = (Inr (Some \<lparr>msg_type = byte_of CHR ''E'', payload = response_payload sev code msg\<rparr>), rest)
    \<and> try_read_message (build_notice_response sev code msg @ rest) False
      = (Inr (Some \<lparr>msg_type = byte_of CHR ''N'', payload = response_payload sev code msg\<rparr>), rest)
    \<and> try_read_message (build_parameter_status name val @ rest) False
      = (Inr (Some \<lparr>msg_type = byte_of CHR ''S'', payload = cstr name @ cstr val\<rparr>), rest)"
proof (intro conjI)
  let ?p = "response_payload sev code msg"
  have "length ?p + 4 \<le> MAX_MESSAGE_SIZE" using assms(1) by (simp add: length_response_payload)
  note rf = read_frame [OF this]
  show "try_read_message (build_error_response sev code msg @ rest) False
      = (Inr (Some \<lparr>msg_type = byte_of CHR ''E'', payload = ?p\<rparr>), rest)"
    using rf by (simp add: build_error_response_def Let_def)
  show "try_read_message (build_notice_response sev code msg @ rest) False
      = (Inr (Some \<lparr>msg_type = byte_of CHR ''N'', payload = ?p\<rparr>), rest)"
    using rf by (simp add: build_notice_response_def Let_def)
  have "length (cstr name @ cstr val) + 4 \<le> MAX_MESSAGE_SIZE" using assms(2) by (simp add: cstr_def)
  from read_frame [OF this] show "try_read_message (build_parameter_status name val @ rest) False
      = (Inr (Some \<lparr>msg_type = byte_of CHR ''S'', payload = cstr name @ cstr val\<rparr>), rest)"
    by (simp add: build_parameter_status_def Let_def)
qed

section \<open>Shrink operations\<close>

lemma scalar_trim_chars: "list_all scalar cs \<Longrightarrow> list_all scalar (trim_chars cs)"
  by (auto simp: trim_chars_def list_all_iff dest!: set_dropWhileD)

lemma chars_trim [simp]: "chars (trim s) = trim_chars (chars s)"
  by (simp add: trim_def scalar_trim_chars)

lemma keyword_shrink: "kw \<in> set shrink_keywords \<Longrightarrow> keyword (map of_char kw)"
  by (auto simp: shrink_keywords_def keyword_def)

lemma shrink_prefix_iff:
  assumes "upper_table u"
  shows "is_shrink_operation u q \<longleftrightarrow>
    (\<exists>kw \<in> set shrink_keywords. map ascii_up (take (length kw) (trim_chars (chars q))) = map of_char kw)"
proof -
  have "is_shrink_operation u q \<longleftrightarrow> (\<exists>kw \<in> set shrink_keywords. starts_with (to_uppercase u (trim q)) kw)"
    by (auto simp: is_shrink_operation_def shrink_keywords_def)
  then show ?thesis
    using starts_with_to_uppercase [OF assms keyword_shrink, of _ "trim q"] by simp
qed

lemma dropWhile_append_stop: "B \<noteq> [] \<Longrightarrow> \<not> P (hd B) \<Longrightarrow> dropWhile P (A @ B) = dropWhile P A @ B"
  by (induction A) (auto simp: neq_Nil_conv)

lemma trim_chars_prefix:
  assumes "xs \<noteq> []" "\<not> white_space (hd xs)" "\<not> white_space (last xs)"
  shows "trim_chars (xs @ cs) = xs @ rev (dropWhile white_space (rev cs))"
proof -
  have "dropWhile white_space (xs @ cs) = xs @ cs" using assms(1,2) by (cases xs) auto
  then show ?thesis
    using assms dropWhile_append_stop [of "rev xs" white_space "rev cs"]
    by (simp add: trim_chars_def hd_rev)
qed

lemma chars_append: "valid_str s \<Longrightarrow> valid_str t \<Longrightarrow> chars (s @ t) = chars s @ chars t"
proof -
  assume st: "valid_str s" "valid_str t"
  then have "s @ t = of_chars (chars s @ chars t)"
    by (metis of_chars_chars of_chars_def utf8_encode_def map_append concat_append)
  then show ?thesis by (simp only: chars_of_chars list_all_append scalar_chars)
qed

lemma shrink_prefix_suffices:
  assumes "upper_table u" "kw \<in> set shrink_keywords" "valid_str tail"
  shows "is_shrink_operation u (kw @ tail)"
proof -
  have kw: "ascii_str kw" "kw \<noteq> []" "\<not> white_space (of_char (hd kw))" "\<not> white_space (of_char (last kw))"
    "map ascii_up (map of_char kw) = map of_char kw"
    using assms(2) by (auto simp: shrink_keywords_def ascii_str_def white_space_def ascii_up_def)
  then have "trim_chars (chars (kw @ tail)) = map of_char kw @ rev (dropWhile white_space (rev (chars tail)))"
    using assms(3) by (simp add: chars_append trim_chars_prefix hd_map last_map)
  then show ?thesis
    unfolding shrink_prefix_iff [OF assms(1)] using assms(2) kw(5) by (intro bexI [of _ kw]) simp_all
qed

text \<open>
  C29. A query counts as a shrink operation exactly when its trimmed text starts with DELETE,
  TRUNCATE, DROP or VACUUM in any ASCII letter case.
\<close>

theorem shrink_detection:
  assumes "upper_table u"
  shows "is_shrink_operation u q \<longleftrightarrow>
    (\<exists>kw \<in> set shrink_keywords. map ascii_up (take (length kw) (trim_chars (chars q))) = map of_char kw)"
  by (rule shrink_prefix_iff [OF assms])

section \<open>Instances\<close>

lemma upper_table_identity: "upper_table (\<lambda>c. [c])"
  by (simp add: upper_table_def)

lemma shrink_detection_witness:
  "is_shrink_operation (\<lambda>c. [c]) ''delete from t'' \<longleftrightarrow>
    (\<exists>kw \<in> set shrink_keywords. map ascii_up (take (length kw) (trim_chars (chars ''delete from t''))) = map of_char kw)"
  by (rule shrink_detection [OF upper_table_identity])

lemma shrink_prefix_suffices_witness:
  "is_shrink_operation (\<lambda>c. [c]) (''DELETE'' @ '' FROM t; INSERT INTO u VALUES (1)'')"
  by (rule shrink_prefix_suffices [OF upper_table_identity]) (simp_all add: shrink_keywords_def ascii_str_def)

lemma startup_message_roundtrip_witness:
  "\<exists>p. try_read_message (build_startup_message ''bob'' ''app'' [(''application_name'', ''psql'')]) True
               = (Inr (Some \<lparr>msg_type = 0, payload = p\<rparr>), [])
     \<and> parse_startup_params p
         = Ok (196608, param_table [] [(''user'', ''bob''), (''database'', ''app''), (''application_name'', ''psql'')])"
  by (rule startup_message_roundtrip)
    (simp_all add: wire_str_def ascii_str_def byte_of_def build_startup_message_def cstr_def MAX_MESSAGE_SIZE_def)

lemma unterminated_key_panics_witness: "parse_startup_params (put_i32 196608 @ as_bytes ''user'') = Panic"
  by (rule unterminated_key_panics) simp_all

lemma builders_read_back_witness:
  "try_read_message (build_error_response ''FATAL'' ''08004'' ''no'' @ []) False
      = (Inr (Some \<lparr>msg_type = byte_of CHR ''E'', payload = response_payload ''FATAL'' ''08004'' ''no''\<rparr>), [])"
  using builders_read_back [of "''FATAL''" "''08004''" "''no''" "''TimeZone''" "''UTC''" "[]"]
  by (simp add: MAX_MESSAGE_SIZE_def)

end
