(* ===== verification/Scanner.thy ===== *)
theory Scanner
  imports Wire
begin

text \<open>
  \<^verbatim>\<open>MessageBoundaryScanner\<close> of \<^verbatim>\<open>src/protocol/messages.rs\<close>, the fast path's tracker of message
  boundaries and transaction status. \<open>scan\<close> is the source's loop over one read. The reference is
  a byte-at-a-time automaton, \<open>track_step\<close>; \<open>scan\<close> refines it within a read, and across reads
  whenever no read ends between the header and the status byte of a ReadyForQuery message.
\<close>

section \<open>The scanner\<close>

record scanner =
  remaining_skip :: nat
  header_buf :: bytes
  header_len :: nat
  transaction_status :: u8

definition scanner_new :: scanner where
  "scanner_new = \<lparr>remaining_skip = 0, header_buf = [0, 0, 0, 0, 0], header_len = 0,
                  transaction_status = byte_of CHR ''I''\<rparr>"

definition scanner_default :: scanner where
  "scanner_default = scanner_new"

text \<open>\<^verbatim>\<open>dst[k..k + src.len()].copy_from_slice(src)\<close>.\<close>

definition copy_at :: "bytes \<Rightarrow> nat \<Rightarrow> bytes \<Rightarrow> bytes" where
  "copy_at dst k src = take k dst @ src @ drop (k + length src) dst"

definition header_payload_len :: "bytes \<Rightarrow> nat" where
  "header_payload_len h = i32_as_usize (from_be_bytes (h ! 1) (h ! 2) (h ! 3) (h ! 4)) - 4"

text \<open>One pass of phase 2: copy what is available into the header buffer.\<close>

definition take_header :: "scanner \<Rightarrow> bytes \<Rightarrow> scanner \<times> bytes" where
  "take_header s d =
     (if header_len s < 5 then
        let need = 5 - header_len s; avail = min need (length d)
        in (s\<lparr>header_buf := copy_at (header_buf s) (header_len s) (take avail d),
              header_len := header_len s + avail\<rparr>, drop avail d)
      else (s, d))"

text \<open>Phase 3: a complete header, \<open>d\<close> being the bytes after it. \<open>header_len\<close> is reset.\<close>

definition open_message :: "scanner \<Rightarrow> bytes \<Rightarrow> bool \<Rightarrow> scanner \<times> bytes \<times> bool" where
  "open_message s d saw_idle =
     (let payload_len = header_payload_len (header_buf s) in
      if header_buf s ! 0 = byte_of CHR ''Z'' \<and> payload_len = 1 then
        (case d of
           st # d' \<Rightarrow> (s\<lparr>transaction_status := st, remaining_skip := 0, header_len := 0\<rparr>, d',
                      st = byte_of CHR ''I'')
         | [] \<Rightarrow> (s\<lparr>remaining_skip := 1, header_len := 0\<rparr>, d, saw_idle))
      else (s\<lparr>remaining_skip := payload_len, header_len := 0\<rparr>, d, saw_idle))"

lemma take_header_length: "take_header s d = (s', d') \<Longrightarrow> length d' \<le> length d"
  by (auto simp: take_header_def Let_def split: if_splits)

lemma open_message_length:
  "open_message s d i = (s', d', i') \<Longrightarrow> length d' \<le> length d \<and> header_len s' = 0"
  by (auto simp: open_message_def Let_def split: if_splits list.splits)

lemma take_header_progress:
  "take_header s d = (s', d') \<Longrightarrow> d \<noteq> [] \<Longrightarrow> length d' < length d \<or> d' = d \<and> s' = s \<and> 5 \<le> header_len s"
  by (auto simp: take_header_def Let_def split: if_splits)

function scan_loop :: "scanner \<Rightarrow> bytes \<Rightarrow> bool \<Rightarrow> scanner \<times> bool" where
  "scan_loop s d saw_idle =
     (if d = [] then (s, saw_idle)
      else if 0 < remaining_skip s then
        let skip = min (remaining_skip s) (length d)
        in scan_loop (s\<lparr>remaining_skip := remaining_skip s - skip\<rparr>) (drop skip d) saw_idle
      else case take_header s d of (s1, d1) \<Rightarrow>
        if header_len s1 < 5 then (s1, saw_idle)
        else case open_message s1 d1 saw_idle of (s2, d2, saw_idle2) \<Rightarrow> scan_loop s2 d2 saw_idle2)"
  by pat_completeness auto
termination
proof (relation "measures [\<lambda>(s, d, _). length d, \<lambda>(s, d, _). header_len s]", goal_cases)
  case (2 s d i x)
  then show ?case by (auto simp: Let_def)
next
  case (3 s d i s1 d1 s2 r d2 i2)
  then have th: "take_header s d = (s1, d1)" and om: "open_message s1 d1 i = (s2, d2, i2)" by auto
  from open_message_length [OF om] take_header_progress [OF th 3(1)] 3(5)
  show ?case by auto
qed simp

declare scan_loop.simps [simp del]

definition scan :: "scanner \<Rightarrow> bytes \<Rightarrow> scanner \<times> bool" where
  "scan s d = scan_loop s d False"

section \<open>The reference automaton\<close>

datatype boundary = Header bytes | Skip nat | Status

definition open_frame :: "bytes \<Rightarrow> boundary" where
  "open_frame h =
     (let n = header_payload_len h in
      if h ! 0 = byte_of CHR ''Z'' \<and> n = 1 then Status else if n = 0 then Header [] else Skip n)"

fun track_step :: "boundary \<times> u8 \<times> bool \<Rightarrow> u8 \<Rightarrow> boundary \<times> u8 \<times> bool" where
  "track_step (Header hs, st, idle) b =
     ((if length hs < 4 then Header (hs @ [b]) else open_frame (hs @ [b])), st, idle)"
| "track_step (Skip n, st, idle) b = ((if n \<le> 1 then Header [] else Skip (n - 1)), st, idle)"
| "track_step (Status, st, idle) b = (Header [], b, b = byte_of CHR ''I'')"

definition track :: "boundary \<times> u8 \<times> bool \<Rightarrow> bytes \<Rightarrow> boundary \<times> u8 \<times> bool" where
  "track = foldl track_step"

text \<open>What the scanner remembers of a boundary: a pending status byte is one byte to skip.\<close>

fun forget :: "boundary \<Rightarrow> boundary" where
  "forget Status = Skip 1"
| "forget b = b"

definition boundary_of :: "scanner \<Rightarrow> boundary" where
  "boundary_of s =
     (if 0 < remaining_skip s then Skip (remaining_skip s) else Header (take (header_len s) (header_buf s)))"

definition scanner_wf :: "scanner \<Rightarrow> bool" where
  "scanner_wf s \<longleftrightarrow> header_len s < 5 \<and> length (header_buf s) = 5 \<and> (0 < remaining_skip s \<longrightarrow> header_len s = 0)"

text \<open>The scanner over a sequence of reads, and the status a message stream announces.\<close>

definition scan_reads :: "scanner \<Rightarrow> bytes list \<Rightarrow> scanner" where
  "scan_reads = foldl (\<lambda>s d. fst (scan s d))"

definition is_rfq :: "pg_message \<Rightarrow> bool" where
  "is_rfq m \<longleftrightarrow> msg_type m = byte_of CHR ''Z'' \<and> length (payload m) = 1"

definition rfq_statuses :: "pg_message list \<Rightarrow> u8 list" where
  "rfq_statuses ms = map (\<lambda>m. hd (payload m)) (filter is_rfq ms)"

text \<open>No read ends between the header and the status byte of a ReadyForQuery message.\<close>

fun status_unsplit :: "boundary \<times> u8 \<times> bool \<Rightarrow> bytes list \<Rightarrow> bool" where
  "status_unsplit t [] = True"
| "status_unsplit t (d # ds) = (fst (track t d) \<noteq> Status \<and> status_unsplit (track t d) ds)"

section \<open>Refinement within a read\<close>

lemma track_simps [simp]: "track t [] = t" "track t (b # bs) = track (track_step t b) bs"
  by (simp_all add: track_def)

lemma track_append: "track t (xs @ ys) = track (track t xs) ys"
  by (simp add: track_def)

lemma track_skip:
  "0 < n \<Longrightarrow> length xs \<le> n \<Longrightarrow>
   track (Skip n, st, i) xs = ((if length xs = n then Header [] else Skip (n - length xs)), st, i)"
proof (induction xs arbitrary: n)
  case (Cons x xs)
  show ?case
  proof (cases "n = 1")
    case False
    then show ?thesis using Cons.prems Cons.IH [of "n - 1"] by auto
  qed (use Cons.prems in simp)
qed simp

lemma track_header:
  "length hs + length xs < 5 \<Longrightarrow> track (Header hs, st, i) xs = (Header (hs @ xs), st, i)"
  by (induction xs arbitrary: hs) auto

lemma track_header_full:
  assumes "length hs < 5" "length hs + length xs = 5"
  shows "track (Header hs, st, i) xs = (open_frame (hs @ xs), st, i)"
proof -
  obtain ys x where xs: "xs = ys @ [x]" using assms by (cases xs rule: rev_cases) auto
  then show ?thesis using assms track_header [of hs ys] by (simp add: track_append)
qed

lemma take_header_fields:
  assumes "take_header s d = (s1, d1)" "scanner_wf s" "remaining_skip s = 0"
  shows "length (header_buf s1) = 5 \<and> remaining_skip s1 = 0 \<and> header_len s1 \<le> 5
    \<and> transaction_status s1 = transaction_status s
    \<and> (\<exists>xs. d = xs @ d1 \<and> header_len s1 = header_len s + length xs \<and> (header_len s1 < 5 \<longrightarrow> d1 = [])
        \<and> take (header_len s1) (header_buf s1) = take (header_len s) (header_buf s) @ xs)"
proof -
  let ?a = "min (5 - header_len s) (length d)"
  have s1: "s1 = s\<lparr>header_buf := copy_at (header_buf s) (header_len s) (take ?a d), header_len := header_len s + ?a\<rparr>"
    "d1 = drop ?a d" using assms(1,2) by (auto simp: take_header_def scanner_wf_def Let_def)
  have "d = take ?a d @ d1" by (simp add: s1)
  moreover have "header_len s1 = header_len s + length (take ?a d)" by (simp add: s1)
  moreover have "take (header_len s1) (header_buf s1) = take (header_len s) (header_buf s) @ take ?a d"
    using assms(2) by (simp add: s1 copy_at_def scanner_wf_def)
  moreover have "header_len s1 < 5 \<longrightarrow> d1 = []" using assms(2) by (auto simp: s1 scanner_wf_def min_def)
  ultimately show ?thesis using assms(2,3) by (auto simp: s1 copy_at_def scanner_wf_def)
qed

lemma open_message_refines:
  assumes "open_message s d i = (s', d', i')" "length (header_buf s) = 5" "remaining_skip s = 0"
  shows "scanner_wf s' \<and>
    (if open_frame (header_buf s) = Status \<and> d = []
     then d' = [] \<and> i' = i \<and> boundary_of s' = Skip 1 \<and> transaction_status s' = transaction_status s
     else track (open_frame (header_buf s), transaction_status s, i) d = track (boundary_of s', transaction_status s', i') d')"
  using assms
  by (auto simp: open_message_def open_frame_def scanner_wf_def boundary_of_def Let_def split: if_splits list.splits)

lemma scan_loop_Nil [simp]: "scan_loop s [] i = (s, i)"
  by (simp add: scan_loop.simps)

lemma forget_forget [simp]: "forget (forget b) = forget b"
  by (cases b) simp_all

lemma forget_boundary_of [simp]: "forget (boundary_of s) = boundary_of s"
  by (simp add: boundary_of_def)

lemma scan_loop_refines:
  assumes "scanner_wf s" and "track (boundary_of s, transaction_status s, i) d = (b, st, i')"
  shows "\<exists>s'. scan_loop s d i = (s', i') \<and> scanner_wf s' \<and> boundary_of s' = forget b \<and> transaction_status s' = st"
  using assms
proof (induction s d i rule: scan_loop.induct)
  case (1 s d i)
  consider (fin) "d = []" | (skip) "d \<noteq> []" "0 < remaining_skip s" | (head) "d \<noteq> []" "remaining_skip s = 0"
    by auto
  then show ?case
  proof cases
    case fin
    then have "b = boundary_of s" "st = transaction_status s" "i' = i" using 1(4) by simp_all
    then show ?thesis using fin 1(3) by simp
  next
    case skip
    let ?k = "min (remaining_skip s) (length d)"
    let ?s = "s\<lparr>remaining_skip := remaining_skip s - ?k\<rparr>"
    have wf: "scanner_wf ?s" using 1(3) by (auto simp: scanner_wf_def)
    have "track (boundary_of s, transaction_status s, i) (take ?k d) = (boundary_of ?s, transaction_status ?s, i)"
      using skip 1(3) track_skip [of "remaining_skip s" "take ?k d"]
      by (auto simp: boundary_of_def scanner_wf_def)
    then have "track (boundary_of ?s, transaction_status ?s, i) (drop ?k d) = (b, st, i')"
      using 1(4) by (metis track_append append_take_drop_id)
    from 1(1) [OF _ _ refl wf this] skip show ?thesis
      by (simp add: scan_loop.simps [of s d] Let_def)
  next
    case head
    obtain s1 d1 where th: "take_header s d = (s1, d1)" by (cases "take_header s d")
    from take_header_fields [OF th 1(3) head(2)] obtain xs
      where f: "length (header_buf s1) = 5" "remaining_skip s1 = 0" "header_len s1 \<le> 5"
        "transaction_status s1 = transaction_status s" "d = xs @ d1" "header_len s1 = header_len s + length xs"
        "header_len s1 < 5 \<longrightarrow> d1 = []"
        "take (header_len s1) (header_buf s1) = take (header_len s) (header_buf s) @ xs" by blast
    have bs: "boundary_of s = Header (take (header_len s) (header_buf s))" using head by (simp add: boundary_of_def)
    have bs1: "boundary_of s1 = Header (take (header_len s1) (header_buf s1))" using f(2) by (simp add: boundary_of_def)
    have hl: "length (take (header_len s) (header_buf s)) = header_len s" "header_len s < 5"
      using 1(3) by (auto simp: scanner_wf_def)
    show ?thesis
    proof (cases "header_len s1 < 5")
      case True
      then have "track (boundary_of s, transaction_status s, i) d = (boundary_of s1, transaction_status s1, i)"
        using f hl by (simp add: bs bs1 track_header)
      moreover have "scan_loop s d i = (s1, i)" using True head th by (simp add: scan_loop.simps [of s d])
      ultimately show ?thesis
        using 1(4) True f(1,2) by (auto simp: scanner_wf_def bs1)
    next
      case False
      then have h5: "header_len s1 = 5" using f(3) by simp
      obtain s2 d2 i2 where om: "open_message s1 d1 i = (s2, d2, i2)" by (metis prod_cases3)
      have tr: "track (boundary_of s, transaction_status s, i) d =
          track (open_frame (header_buf s1), transaction_status s1, i) d1"
        using f h5 hl track_header_full [of "take (header_len s) (header_buf s)" xs]
        by (simp add: bs track_append)
      have sl: "scan_loop s d i = scan_loop s2 d2 i2"
        using head th om h5 by (simp add: scan_loop.simps [of s d])
      note om' = open_message_refines [OF om f(1,2)]
      note IH = 1(2) [OF head(1) _ th [symmetric] _ om [symmetric] refl conjunct1 [OF om']]
      show ?thesis
      proof (cases "open_frame (header_buf s1) = Status \<and> d1 = []")
        case True
        then have "scan_loop s2 d2 i2 = (s2, i)" using om' by simp
        then show ?thesis using 1(4) True om' tr sl f(4) by auto
      next
        case False
        then have "track (open_frame (header_buf s1), transaction_status s1, i) d1 =
            track (boundary_of s2, transaction_status s2, i2) d2" using om' by (simp only: if_False)
        then have "track (boundary_of s2, transaction_status s2, i2) d2 = (b, st, i')"
          using tr 1(4) by simp
        from IH [OF _ _ this] head h5 sl show ?thesis by simp
      qed
    qed
  qed
qed


theorem scan_refines:
  assumes "scanner_wf s"
  shows "case track (boundary_of s, transaction_status s, False) d of (b, st, idle) \<Rightarrow>
    (case scan s d of (s', saw_idle) \<Rightarrow>
       scanner_wf s' \<and> boundary_of s' = forget b \<and> transaction_status s' = st \<and> saw_idle = idle)"
  using scan_loop_refines [OF assms] by (fastforce simp: scan_def split: prod.splits)

section \<open>Across reads\<close>

lemma forget_track_step:
  "forget (fst (track_step (b, st, i) x)) = forget (fst (track_step (forget b, st', i') x))"
  by (cases b) (auto simp: open_frame_def Let_def)

lemma forget_track: "forget (fst (track t d)) = forget (fst (track (forget (fst t), st', i') d))"
proof (induction d arbitrary: t st' i')
  case (Cons x d)
  obtain b st i where t: "t = (b, st, i)" by (cases t)
  obtain b2 st2 i2 where t2: "track_step (forget b, st', i') x = (b2, st2, i2)" by (metis prod_cases3)
  have "forget (fst (track_step t x)) = forget b2"
    using forget_track_step [of b st i x st' i'] by (simp add: t t2)
  then show ?case using Cons.IH [of "track_step t x" st2 i2] Cons.IH [of "(b2, st2, i2)" st2 i2]
    by (simp add: t2 t)
qed simp

lemma scanner_wf_new [simp]: "scanner_wf scanner_new"
  by (simp add: scanner_wf_def scanner_new_def)

lemma boundary_of_new [simp]: "boundary_of scanner_new = Header []" "transaction_status scanner_new = byte_of CHR ''I''"
  by (simp_all add: boundary_of_def scanner_new_def)

lemma scan_wf: "scanner_wf s \<Longrightarrow> scanner_wf (fst (scan s d))"
  using scan_refines [of s d] by (auto split: prod.splits)

lemma scan_boundary: "scanner_wf s \<Longrightarrow>
    boundary_of (fst (scan s d)) = forget (fst (track (boundary_of s, st, i) d))"
proof -
  assume wf: "scanner_wf s"
  have "boundary_of (fst (scan s d)) = forget (fst (track (boundary_of s, transaction_status s, False) d))"
    using scan_refines [OF wf, of d] by (auto split: prod.splits)
  also have "\<dots> = forget (fst (track (boundary_of s, st, i) d))"
    using forget_track [of "(boundary_of s, transaction_status s, False)" d st i] by simp
  finally show ?thesis .
qed

text \<open>Message boundaries are tracked correctly however the stream is cut into reads.\<close>

theorem boundaries_segmentation:
  assumes "scanner_wf s"
  shows "scanner_wf (scan_reads s ds) \<and>
    boundary_of (scan_reads s ds) = forget (fst (track (boundary_of s, st, i) (concat ds)))"
  using assms
proof (induction ds arbitrary: s st i)
  case Nil
  then show ?case by (simp add: scan_reads_def)
next
  case (Cons d ds)
  let ?s = "fst (scan s d)"
  have wf: "scanner_wf ?s" by (rule scan_wf [OF Cons.prems])
  obtain b st1 i1 where t: "track (boundary_of s, st, i) d = (b, st1, i1)" by (metis prod_cases3)
  have b: "boundary_of ?s = forget b" using scan_boundary [OF Cons.prems, of d st i] t by simp
  have "forget (fst (track (boundary_of ?s, st1, i1) (concat ds))) =
        forget (fst (track (b, st1, i1) (concat ds)))"
    using forget_track [of "(b, st1, i1)" "concat ds" st1 i1] b by simp
  then show ?case
    using Cons.IH [OF wf, of st1 i1] t by (simp add: scan_reads_def track_append)
qed


lemma track_idle_indep:
  "fst (track (b, st, i) d) = fst (track (b, st, i') d) \<and> fst (snd (track (b, st, i) d)) = fst (snd (track (b, st, i') d))"
proof (induction d arbitrary: b st i i')
  case (Cons x d)
  then show ?case by (cases b) auto
qed simp

lemma status_unsplit_idle_indep: "status_unsplit (b, st, i) ds = status_unsplit (b, st, i') ds"
proof (induction ds arbitrary: b st i i')
  case (Cons d ds)
  obtain b1 st1 i1 where "track (b, st, i) d = (b1, st1, i1)" by (metis prod_cases3)
  moreover obtain b2 st2 i2 where "track (b, st, i') d = (b2, st2, i2)" by (metis prod_cases3)
  ultimately show ?case using track_idle_indep [of b st i d i'] Cons.IH [of b1 st1 i1 i2] by simp
qed simp

text \<open>
  C26. Over any sequence of reads in which no read ends between the header and the status byte of
  a ReadyForQuery message, the scanner's transaction status is that of the byte-at-a-time
  reference automaton on the whole stream.
\<close>

theorem status_across_reads:
  assumes "scanner_wf s" "status_unsplit (boundary_of s, transaction_status s, i) ds"
  shows "transaction_status (scan_reads s ds) =
         fst (snd (track (boundary_of s, transaction_status s, i) (concat ds)))"
  using assms
proof (induction ds arbitrary: s i)
  case Nil
  then show ?case by (simp add: scan_reads_def)
next
  case (Cons d ds)
  let ?s = "fst (scan s d)"
  obtain b st i1 where t: "track (boundary_of s, transaction_status s, i) d = (b, st, i1)" by (metis prod_cases3)
  with Cons.prems(2) have b: "b \<noteq> Status" "status_unsplit (b, st, i1) ds" by simp_all
  have "boundary_of ?s = b"
    using scan_boundary [OF Cons.prems(1), of d "transaction_status s" i] t b(1) by (cases b) simp_all
  moreover have "transaction_status ?s = st"
    using scan_refines [OF Cons.prems(1), of d] t track_idle_indep [of "boundary_of s" "transaction_status s" i d False]
    by (auto split: prod.splits)
  ultimately show ?case
    using Cons.IH [OF scan_wf [OF Cons.prems(1)], of d i1] b t by (simp add: scan_reads_def track_append)
qed

text \<open>
  C27. When a read ends exactly after the five header bytes of a ReadyForQuery message, the status
  byte that follows is skipped: the scanner keeps its old transaction status and reports no idle
  boundary, although the same bytes in one read update it.
\<close>

theorem split_status_lost:
  assumes "scanner_wf s" "boundary_of s = Header []"
  shows "transaction_status (scan_reads s [byte_of CHR ''Z'' # put_i32 5, [x]]) = transaction_status s
    \<and> snd (scan (fst (scan s (byte_of CHR ''Z'' # put_i32 5))) [x]) = False
    \<and> transaction_status (scan_reads s [byte_of CHR ''Z'' # put_i32 5 @ [x]]) = x"
proof -
  let ?h = "byte_of CHR ''Z'' # put_i32 5"
  have h: "?h = [90, 0, 0, 0, 5]" by (simp add: byte_of_def put_i32_def)
  have o: "open_frame [90, 0, 0, 0, 5] = Status"
    by (simp add: open_frame_def header_payload_len_def from_be_bytes_def i32_as_usize_def byte_of_def)
  let ?s = "fst (scan s ?h)"
  have t: "track (Header [], st, i) ?h = (Status, st, i)" for st i unfolding h by (simp add: o)
  have s: "scanner_wf ?s" "boundary_of ?s = Skip 1" "transaction_status ?s = transaction_status s"
    using scan_refines [OF assms(1), of ?h] unfolding assms(2) t by (auto split: prod.splits)
  have 1: "transaction_status (fst (scan ?s [x])) = transaction_status s" "snd (scan ?s [x]) = False"
    using scan_refines [OF s(1), of "[x]"] s by (auto split: prod.splits)
  have "track (Header [], transaction_status s, False) (?h @ [x]) = (Header [], x, x = byte_of CHR ''I'')"
    by (simp only: track_append t) simp
  then have 2: "transaction_status (fst (scan s (?h @ [x]))) = x"
    using scan_refines [OF assms(1), of "?h @ [x]"] unfolding assms(2) by (auto split: prod.splits)
  from 1 2 show ?thesis by (simp add: scan_reads_def)
qed

section \<open>Whole messages\<close>

lemma header_payload_len_frame:
  assumes "n + 4 \<le> MAX_MESSAGE_SIZE"
  shows "header_payload_len (t # put_i32 (usize_as_i32 (n + 4))) = n"
proof -
  have "get_i32 (put_i32 (usize_as_i32 (n + 4)) @ []) = Some (usize_as_i32 (n + 4))" by (rule get_put_i32)
  then have f: "from_be_bytes ((t # put_i32 (usize_as_i32 (n + 4))) ! 1) ((t # put_i32 (usize_as_i32 (n + 4))) ! 2)
      ((t # put_i32 (usize_as_i32 (n + 4))) ! 3) ((t # put_i32 (usize_as_i32 (n + 4))) ! 4) = usize_as_i32 (n + 4)"
    by (simp add: put_i32_def)
  have "i32_as_usize (usize_as_i32 (n + 4)) = n + 4"
    using assms by (intro i32_as_usize_small) (simp add: MAX_MESSAGE_SIZE_def)
  then show ?thesis by (simp only: header_payload_len_def f)
qed

lemma track_message:
  assumes "msg_type m \<noteq> 0" "length (payload m) + 4 \<le> MAX_MESSAGE_SIZE"
  shows "track (Header [], st, i) (encode m []) =
    (Header [], (if is_rfq m then hd (payload m) else st), (if is_rfq m then hd (payload m) = byte_of CHR ''I'' else i))"
proof -
  let ?h = "msg_type m # put_i32 (usize_as_i32 (length (payload m) + 4))"
  have e: "encode m [] = ?h @ payload m" using assms(1) by (simp add: encode_def)
  have t: "track (Header [], st, i) ?h = (open_frame ?h, st, i)"
    using track_header_full [of "[]" ?h] by simp
  have o: "open_frame ?h = (if is_rfq m then Status else if payload m = [] then Header [] else Skip (length (payload m)))"
    using header_payload_len_frame [OF assms(2), of "msg_type m"] by (simp add: open_frame_def is_rfq_def Let_def)
  have tr: "track (Header [], st, i) (encode m []) = track (open_frame ?h, st, i) (payload m)"
    by (simp only: e track_append t)
  show ?thesis
  proof (cases "is_rfq m")
    case True
    then obtain x where "payload m = [x]" by (auto simp: is_rfq_def length_Suc_conv)
    then show ?thesis unfolding tr o using True by simp
  next
    case False
    then show ?thesis unfolding tr o using track_skip [of "length (payload m)" "payload m"] by simp
  qed
qed

lemma track_messages:
  assumes "\<forall>m \<in> set ms. msg_type m \<noteq> 0 \<and> length (payload m) + 4 \<le> MAX_MESSAGE_SIZE"
  shows "track (Header [], st, i) (concat (map (\<lambda>m. encode m []) ms)) =
    (Header [], last (st # rfq_statuses ms),
     if rfq_statuses ms = [] then i else last (rfq_statuses ms) = byte_of CHR ''I'')"
  using assms
proof (induction ms arbitrary: st i)
  case Nil
  then show ?case by (simp add: rfq_statuses_def)
next
  case (Cons m ms)
  then show ?case by (auto simp: track_append track_message rfq_statuses_def)
qed

theorem scan_message_stream:
  assumes "scanner_wf s" "boundary_of s = Header []"
    and "\<forall>m \<in> set ms. msg_type m \<noteq> 0 \<and> length (payload m) + 4 \<le> MAX_MESSAGE_SIZE"
  shows "case scan s (concat (map (\<lambda>m. encode m []) ms)) of (s', saw_idle) \<Rightarrow>
      boundary_of s' = Header [] \<and> transaction_status s' = last (transaction_status s # rfq_statuses ms)
      \<and> (saw_idle \<longleftrightarrow> rfq_statuses ms \<noteq> [] \<and> last (rfq_statuses ms) = byte_of CHR ''I'')"
  using scan_refines [OF assms(1), of "concat (map (\<lambda>m. encode m []) ms)"]
  by (auto simp: assms(2) track_messages [OF assms(3)] split: prod.splits)

section \<open>Instances\<close>

lemma boundaries_segmentation_witness:
  "boundary_of (scan_reads scanner_new [[90, 0], [0, 0, 5]]) =
     forget (fst (track (boundary_of scanner_new, 0, False) (concat [[90, 0], [0, 0, 5]])))"
  using boundaries_segmentation [of scanner_new "[[90, 0], [0, 0, 5]]" 0 False] by simp

lemma status_across_reads_witness:
  "transaction_status (scan_reads scanner_new [[90, 0, 0], [0, 5, 84]]) =
     fst (snd (track (boundary_of scanner_new, transaction_status scanner_new, False) (concat [[90, 0, 0], [0, 5, 84]])))"
  by (rule status_across_reads)
    (simp_all add: open_frame_def header_payload_len_def from_be_bytes_def i32_as_usize_def byte_of_def Let_def)

lemma split_status_lost_witness:
  "transaction_status (scan_reads scanner_new [byte_of CHR ''Z'' # put_i32 5, [84]]) = byte_of CHR ''I''
   \<and> transaction_status (scan_reads scanner_new [byte_of CHR ''Z'' # put_i32 5 @ [84]]) = 84"
  using split_status_lost [of scanner_new 84] by simp

lemma scan_message_stream_witness:
  "transaction_status (fst (scan scanner_new (concat (map (\<lambda>m. encode m []) [\<lparr>msg_type = 90, payload = [84]\<rparr>])))) = 84"
  using scan_message_stream [of scanner_new "[\<lparr>msg_type = 90, payload = [84]\<rparr>]"]
  by (simp add: MAX_MESSAGE_SIZE_def rfq_statuses_def is_rfq_def byte_of_def split: prod.splits)

end
