(* ===== verification/Indexing.thy ===== *)
theory Indexing
  imports Scanner
begin

text \<open>
  Indexing and slicing as the sources write them (\<^verbatim>\<open>src/protocol/messages.rs\<close>). \<^verbatim>\<open>xs[i]\<close>, \<^verbatim>\<open>xs[i..j]\<close>,
  \<^verbatim>\<open>copy_from_slice\<close> and \<^verbatim>\<open>split_to\<close> panic outside their range: here they are \<open>None\<close>. \<open>scan_checked\<close> is \<^verbatim>\<open>scan\<close> with its
  position in the data and these operations; on every scanner the program can build it returns what
  \<open>scan\<close> of \<open>Scanner\<close> returns. \<open>read_raw_checked\<close> is \<^verbatim>\<open>try_read_message_with_raw\<close> in the same style.
\<close>

section \<open>Checked operations\<close>

definition byte_at :: "bytes \<Rightarrow> nat \<Rightarrow> u8 option" where
  "byte_at xs i = (if i < length xs then Some (xs ! i) else None)"

definition slice :: "bytes \<Rightarrow> nat \<Rightarrow> nat \<Rightarrow> bytes option" where
  "slice xs i j = (if i \<le> j \<and> j \<le> length xs then Some (take (j - i) (drop i xs)) else None)"

definition copy_slice :: "bytes \<Rightarrow> nat \<Rightarrow> nat \<Rightarrow> bytes \<Rightarrow> bytes option" where
  "copy_slice dst i j src =
     (if i \<le> j \<and> j \<le> length dst \<and> length src = j - i then Some (copy_at dst i src) else None)"

lemma byte_at_Some [simp]: "i < length xs \<Longrightarrow> byte_at xs i = Some (xs ! i)"
  by (simp add: byte_at_def)

lemma slice_Some [simp]: "i \<le> j \<Longrightarrow> j \<le> length xs \<Longrightarrow> slice xs i j = Some (take (j - i) (drop i xs))"
  by (simp add: slice_def)

section \<open>The scanner\<close>

definition fill_header :: "scanner \<Rightarrow> bytes \<Rightarrow> nat \<Rightarrow> (scanner \<times> nat) option" where
  "fill_header s data pos =
     (if header_len s < 5 then
        let need = 5 - header_len s; avail = min need (length data - pos)
        in case slice data pos (pos + avail) of
             None \<Rightarrow> None
           | Some src \<Rightarrow>
             (case copy_slice (header_buf s) (header_len s) (header_len s + avail) src of
                None \<Rightarrow> None
              | Some buf \<Rightarrow> Some (s\<lparr>header_buf := buf, header_len := header_len s + avail\<rparr>, pos + avail))
      else Some (s, pos))"

definition read_header :: "bytes \<Rightarrow> (u8 \<times> nat) option" where
  "read_header h =
     (case (byte_at h 0, byte_at h 1, byte_at h 2, byte_at h 3, byte_at h 4) of
        (Some t, Some a, Some b, Some c, Some d) \<Rightarrow> Some (t, i32_as_usize (from_be_bytes a b c d) - 4)
      | _ \<Rightarrow> None)"

lemma fill_header_pos:
  "fill_header s data pos = Some (s', pos') \<Longrightarrow> pos < length data \<Longrightarrow>
     pos < pos' \<or> pos' = pos \<and> s' = s \<and> 5 \<le> header_len s"
  by (auto simp: fill_header_def Let_def split: if_splits option.splits)

function scan_pos :: "scanner \<Rightarrow> bytes \<Rightarrow> nat \<Rightarrow> bool \<Rightarrow> (scanner \<times> bool) option" where
  "scan_pos s data pos saw_idle =
     (if pos < length data then
        if 0 < remaining_skip s then
          let skip = min (remaining_skip s) (length data - pos)
          in scan_pos (s\<lparr>remaining_skip := remaining_skip s - skip\<rparr>) data (pos + skip) saw_idle
        else
          (case fill_header s data pos of
             None \<Rightarrow> None
           | Some (s1, pos1) \<Rightarrow>
             if header_len s1 < 5 then Some (s1, saw_idle)
             else
               (case read_header (header_buf s1) of
                  None \<Rightarrow> None
                | Some (ty, payload_len) \<Rightarrow>
                  if ty = byte_of CHR ''Z'' \<and> payload_len = 1 then
                    if pos1 < length data then
                      (case byte_at data pos1 of
                         None \<Rightarrow> None
                       | Some st \<Rightarrow>
                         scan_pos (s1\<lparr>transaction_status := st, remaining_skip := 0, header_len := 0\<rparr>) data (pos1 + 1)
                           (st = byte_of CHR ''I''))
                    else scan_pos (s1\<lparr>remaining_skip := 1, header_len := 0\<rparr>) data pos1 saw_idle
                  else scan_pos (s1\<lparr>remaining_skip := payload_len, header_len := 0\<rparr>) data pos1 saw_idle))
      else Some (s, saw_idle))"
  by pat_completeness auto
termination
  by (relation "measures [\<lambda>(s, data, pos, _). length data - pos, \<lambda>(s, data, pos, _). header_len s]")
    (auto simp: Let_def dest!: fill_header_pos)

declare scan_pos.simps [simp del]

definition scan_checked :: "scanner \<Rightarrow> bytes \<Rightarrow> (scanner \<times> bool) option" where
  "scan_checked s data = scan_pos s data 0 False"

lemma fill_header_take:
  assumes "scanner_wf s" "pos < length data" "take_header s (drop pos data) = (s', d')"
  shows "\<exists>pos'. fill_header s data pos = Some (s', pos') \<and> pos' \<le> length data \<and> d' = drop pos' data
    \<and> length (header_buf s') = 5 \<and> remaining_skip s' = remaining_skip s \<and> header_len s' \<le> 5"
proof -
  let ?a = "min (5 - header_len s) (length data - pos)"
  have w: "header_len s < 5" "length (header_buf s) = 5" using assms(1) by (simp_all add: scanner_wf_def)
  have "fill_header s data pos = Some (s', pos + ?a)"
    using w assms(2,3) by (auto simp: fill_header_def take_header_def copy_slice_def Let_def)
  then show ?thesis using w assms(2,3)
    by (intro exI [of _ "pos + ?a"]) (auto simp: take_header_def copy_at_def Let_def add.commute)
qed

lemma read_header_total: "length h = 5 \<Longrightarrow> read_header h = Some (h ! 0, header_payload_len h)"
  by (simp add: read_header_def header_payload_len_def)

lemma scan_pos_total:
  "scanner_wf s \<Longrightarrow> pos \<le> length data \<Longrightarrow> scan_pos s data pos saw = Some (scan_loop s (drop pos data) saw)"
proof (induction s data pos saw rule: scan_pos.induct)
  case (1 s data pos saw)
  consider (stop) "pos = length data" | (skip) "pos < length data" "0 < remaining_skip s"
    | (head) "pos < length data" "remaining_skip s = 0" using 1(6) by linarith
  then show ?case
  proof cases
    case stop
    then show ?thesis by (simp add: scan_pos.simps [of s] scan_loop.simps [of s])
  next
    case skip
    let ?k = "min (remaining_skip s) (length data - pos)"
    have wf: "scanner_wf (s\<lparr>remaining_skip := remaining_skip s - ?k\<rparr>)" using 1(5) by (auto simp: scanner_wf_def)
    have "scan_loop s (drop pos data) saw = scan_loop (s\<lparr>remaining_skip := remaining_skip s - ?k\<rparr>) (drop (pos + ?k) data) saw"
      using skip by (simp add: scan_loop.simps [of s "drop pos data"] Let_def add.commute)
    then show ?thesis using 1(1) [OF skip refl wf] skip by (simp add: scan_pos.simps [of s] Let_def)
  next
    case head
    obtain s1 d1 where th: "take_header s (drop pos data) = (s1, d1)" by fastforce
    obtain pos1 where f: "fill_header s data pos = Some (s1, pos1)" "pos1 \<le> length data" "d1 = drop pos1 data"
      "length (header_buf s1) = 5" "remaining_skip s1 = 0" "header_len s1 \<le> 5"
      using fill_header_take [OF 1(5) head(1) th] head(2) by auto
    note l = scan_loop.simps [of s "drop pos data" saw] and p = scan_pos.simps [of s data pos saw]
    show ?thesis
    proof (cases "header_len s1 < 5")
      case True
      then show ?thesis using head th f(1) by (simp add: l p)
    next
      case False
      note ih = 1(2-4) [OF head(1) _ f(1) refl False read_header_total [OF f(4)] refl]
      have wf: "scanner_wf (s1\<lparr>remaining_skip := n, header_len := 0\<rparr>)"
        "scanner_wf (s1\<lparr>transaction_status := st, remaining_skip := n, header_len := 0\<rparr>)" for n st
        using f(4) by (simp_all add: scanner_wf_def)
      show ?thesis
      proof (cases "header_buf s1 ! 0 = byte_of CHR ''Z'' \<and> header_payload_len (header_buf s1) = 1")
        case rfq: True
        show ?thesis
        proof (cases "pos1 < length data")
          case True
          then have "drop pos1 data = data ! pos1 # drop (Suc pos1) data" by (simp add: Cons_nth_drop_Suc)
          then show ?thesis
            using ih(1) [OF _ rfq True byte_at_Some [OF True] wf(2)] True rfq head th f False
            by (simp add: l p read_header_total open_message_def Let_def)
        next
          case at_end: False
          then show ?thesis using ih(2) [OF _ rfq at_end wf(1)] rfq head th f False
            by (simp add: l p read_header_total open_message_def Let_def)
        qed
      next
        case other: False
        then show ?thesis using ih(3) [OF _ other wf(1)] head th f False
          by (auto simp: l p read_header_total open_message_def Let_def)
      qed
    qed
  qed
qed

theorem scan_in_range: "scanner_wf s \<Longrightarrow> scan_checked s data = Some (scan s data)"
  by (simp add: scan_checked_def scan_def scan_pos_total)

lemma scan_checked_None_or: "scan_checked s d = None \<or> (\<exists>sc saw. scan_checked s d = Some (sc, saw))"
  by (cases "scan_checked s d") auto

section \<open>The reader\<close>

definition read_raw_checked :: "bytes \<Rightarrow> ((pg_error + (pg_message \<times> bytes) option) \<times> bytes) option" where
  "read_raw_checked buf =
     (if length buf < 5 then Some (Inr None, buf)
      else case (byte_at buf 0, slice buf 1 5) of
        (Some t, Some l) \<Rightarrow>
          (case get_i32 l of
             None \<Rightarrow> None
           | Some w \<Rightarrow>
             (let len = i32_as_usize w in
              if \<not> valid_len len then Some (Inl (InvalidMessageLength len t), buf)
              else let total_len = 1 + len in
                if length buf < total_len then Some (Inr None, buf)
                else case (slice buf 0 total_len, slice buf total_len (length buf)) of
                       (Some raw, Some rest) \<Rightarrow>
                         (case slice raw 5 (length raw) of
                            None \<Rightarrow> None
                          | Some p \<Rightarrow> Some (Inr (Some (\<lparr>msg_type = t, payload = p\<rparr>, raw)), rest))
                     | _ \<Rightarrow> None))
      | _ \<Rightarrow> None)"

theorem read_raw_in_range: "read_raw_checked buf = Some (try_read_message_with_raw buf)"
proof (cases "length buf < 5")
  case False
  then obtain b b1 b2 b3 b4 r where b: "buf = b # b1 # b2 # b3 # b4 # r"
    by (auto simp: not_less Suc_le_length_iff numeral_eq_Suc)
  have g: "get_i32 [b1, b2, b3, b4] = get_i32 (tl buf)" "\<exists>w. get_i32 (tl buf) = Some w"
    by (simp_all add: b)
  show ?thesis using False g
    by (auto simp: read_raw_checked_def try_read_message_with_raw_def b Let_def valid_len_def numeral_eq_Suc)
qed (simp add: read_raw_checked_def try_read_message_with_raw_def)

end
