(* ===== verification/Config.thy ===== *)
theory Config
  imports Rust_Str
begin

text \<open>
  \<^verbatim>\<open>src/config.rs\<close>: the configuration structs with their defaults, \<^verbatim>\<open>Config::load\<close> and
  \<^verbatim>\<open>parse_size_limit\<close>. The file system, the process environment and the TOML parser are
  parameters of \<open>load\<close>. The product \<^verbatim>\<open>n * multiplier\<close> is the release build's: \<^verbatim>\<open>Cargo.toml\<close> does
  not turn overflow checks on, so it wraps around at 64 bits.
\<close>

section \<open>Configuration\<close>

record pool_config =
  max_connections_per_pool :: u32
  max_total_connections :: u32
  acquire_timeout_ms :: u64
  idle_timeout_secs :: u64
  health_check_interval_secs :: u64
  max_queue_size :: u32
  max_connection_lifetime_secs :: u64

record tls_config =
  tls_enabled :: bool
  cert_path :: string
  key_path :: string
  require_tls :: bool
  upstream_tls :: bool
  upstream_tls_accept_invalid :: bool

record monitor_config =
  check_interval_secs :: u64
  default_max_db_size_bytes :: u64
  allow_shrink_operations_when_overlimit :: bool

record config =
  listen_addr :: string
  admin_listen_addr :: string
  upstream_host :: string
  upstream_port :: u16
  pool_cfg :: pool_config
  tls_cfg :: tls_config
  monitor_cfg :: monitor_config

definition default_pool_config :: pool_config where
  "default_pool_config =
     \<lparr>max_connections_per_pool = 20, max_total_connections = 500, acquire_timeout_ms = 5000,
      idle_timeout_secs = 300, health_check_interval_secs = 30, max_queue_size = 1000,
      max_connection_lifetime_secs = 3600\<rparr>"

definition default_tls_config :: tls_config where
  "default_tls_config =
     \<lparr>tls_enabled = False, cert_path = [], key_path = [], require_tls = False, upstream_tls = True,
      upstream_tls_accept_invalid = False\<rparr>"

definition default_monitor_config :: monitor_config where
  "default_monitor_config =
     \<lparr>check_interval_secs = 60, default_max_db_size_bytes = 0,
      allow_shrink_operations_when_overlimit = True\<rparr>"

definition default_config :: config where
  "default_config =
     \<lparr>listen_addr = ''0.0.0.0:5433'', admin_listen_addr = ''0.0.0.0:9090'',
      upstream_host = ''localhost'', upstream_port = 5432, pool_cfg = default_pool_config,
      tls_cfg = default_tls_config, monitor_cfg = default_monitor_config\<rparr>"

section \<open>Loading\<close>

text \<open>\<^verbatim>\<open>str::parse::<bool>\<close> and \<^verbatim>\<open>eq_ignore_ascii_case\<close>.\<close>

definition parse_bool :: "string \<Rightarrow> bool option" where
  "parse_bool s = (if s = ''true'' then Some True else if s = ''false'' then Some False else None)"

definition ascii_lower :: "char \<Rightarrow> char" where
  "ascii_lower c = (if 65 \<le> (of_char c :: nat) \<and> (of_char c :: nat) \<le> 90 then char_of ((of_char c :: nat) + 32) else c)"

definition eq_ignore_ascii_case :: "string \<Rightarrow> string \<Rightarrow> bool" where
  "eq_ignore_ascii_case s t \<longleftrightarrow> map ascii_lower s = map ascii_lower t"

text \<open>
  \<open>fs path\<close> is \<open>None\<close> when the path does not exist, an error when it cannot be read, and its
  contents otherwise; \<open>env\<close> is \<^verbatim>\<open>std::env::var(..).ok()\<close>; \<open>toml\<close> is \<^verbatim>\<open>toml::from_str\<close>.
\<close>

definition read_config ::
    "(string \<Rightarrow> pg_error + config) \<Rightarrow> (string \<Rightarrow> (pg_error + string) option) \<Rightarrow> string \<Rightarrow> pg_error + config" where
  "read_config toml fs path =
     (case fs path of
        None \<Rightarrow> Inr default_config
      | Some (Inl e) \<Rightarrow> Inl (WithContext (''Reading config '' @ path) e)
      | Some (Inr contents) \<Rightarrow>
          (case toml contents of
             Inl e \<Rightarrow> Inl (WithContext (''Parsing config '' @ path) e)
           | Inr cfg \<Rightarrow> Inr cfg))"

text \<open>\<open>override o f cfg\<close> is \<^verbatim>\<open>if let Some(v) = o { f(v, &mut cfg) }\<close>.\<close>

definition override :: "'a option \<Rightarrow> ('a \<Rightarrow> config \<Rightarrow> config) \<Rightarrow> config \<Rightarrow> config" where
  "override v f cfg = (case v of Some x \<Rightarrow> f x cfg | None \<Rightarrow> cfg)"

definition cli_overrides :: "string option \<Rightarrow> string option \<Rightarrow> config \<Rightarrow> config" where
  "cli_overrides listen admin cfg =
     (let cfg = override listen (\<lambda>l cfg. cfg\<lparr>listen_addr := l\<rparr>) cfg
      in override admin (\<lambda>a cfg. cfg\<lparr>admin_listen_addr := a\<rparr>) cfg)"

definition env_overrides :: "(string \<Rightarrow> string option) \<Rightarrow> config \<Rightarrow> config" where
  "env_overrides env cfg =
     (let cfg = override (env ''PG_MUX_LISTEN'') (\<lambda>v cfg. cfg\<lparr>listen_addr := v\<rparr>) cfg;
          cfg = override (env ''PG_MUX_ADMIN_LISTEN'') (\<lambda>v cfg. cfg\<lparr>admin_listen_addr := v\<rparr>) cfg;
          cfg = override (env ''PG_MUX_UPSTREAM_HOST'') (\<lambda>v cfg. cfg\<lparr>upstream_host := v\<rparr>) cfg;
          cfg = override (env ''PG_MUX_UPSTREAM_PORT'')
                  (\<lambda>v cfg. override (parse_unsigned 65536 v) (\<lambda>p cfg. cfg\<lparr>upstream_port := word_of_nat p\<rparr>) cfg) cfg;
          cfg = override (env ''PG_MUX_TLS_CERT'')
                  (\<lambda>v cfg. cfg\<lparr>tls_cfg := (tls_cfg cfg)\<lparr>cert_path := v, tls_enabled := True\<rparr>\<rparr>) cfg;
          cfg = override (env ''PG_MUX_TLS_KEY'')
                  (\<lambda>v cfg. cfg\<lparr>tls_cfg := (tls_cfg cfg)\<lparr>key_path := v\<rparr>\<rparr>) cfg
      in override (env ''PG_MUX_UPSTREAM_TLS'')
           (\<lambda>v cfg. cfg\<lparr>tls_cfg := (tls_cfg cfg)\<lparr>upstream_tls :=
              (case parse_bool v of Some b \<Rightarrow> b | None \<Rightarrow> v = ''1'' \<or> eq_ignore_ascii_case v ''true'')\<rparr>\<rparr>) cfg)"

definition load ::
    "(string \<Rightarrow> pg_error + config) \<Rightarrow> (string \<Rightarrow> (pg_error + string) option) \<Rightarrow> (string \<Rightarrow> string option)
     \<Rightarrow> string \<Rightarrow> string option \<Rightarrow> string option \<Rightarrow> pg_error + config" where
  "load toml fs env path listen_override admin_override =
     (case read_config toml fs path of
        Inl e \<Rightarrow> Inl e
      | Inr cfg \<Rightarrow> Inr (env_overrides env (cli_overrides listen_override admin_override cfg)))"

section \<open>Size limits\<close>

text \<open>The suffix length to cut off and the multiplier.\<close>

definition size_unit :: "string \<Rightarrow> nat \<times> u64" where
  "size_unit s_upper =
     (if ends_with s_upper ''TB'' then (2, 1024 * 1024 * 1024 * 1024)
      else if ends_with s_upper ''GB'' then (2, 1024 * 1024 * 1024)
      else if ends_with s_upper ''MB'' then (2, 1024 * 1024)
      else if ends_with s_upper ''KB'' then (2, 1024)
      else (0, 1))"

definition parse_size_limit :: "(nat \<Rightarrow> nat list) \<Rightarrow> string \<Rightarrow> u64 option outcome" where
  "parse_size_limit u s0 =
     (let s = trim s0 in
      if s = [] \<or> s = ''0'' then Ok None
      else case size_unit (to_uppercase u s) of (k, multiplier) \<Rightarrow>
        if length s < k then Panic
        else case slice_to s (length s - k) of
          None \<Rightarrow> Panic
        | Some num_str \<Rightarrow>
            Ok (map_option (\<lambda>n. word_of_nat n * multiplier) (parse_unsigned (2 ^ 64) (trim num_str))))"

section \<open>Size limits: values, wrap-around, panics\<close>

definition up_c :: "char \<Rightarrow> char" where
  "up_c c = char_of (ascii_up (of_char c))"

definition size_units :: "(string \<times> nat) list" where
  "size_units = [(''KB'', 1024), (''MB'', 1048576), (''GB'', 1073741824), (''TB'', 1099511627776)]"

lemma ascii_str_append [simp]: "ascii_str (s @ t) \<longleftrightarrow> ascii_str s \<and> ascii_str t"
  by (simp add: ascii_str_def)

lemma to_uppercase_ascii:
  assumes "ascii_str s"
  shows "to_uppercase u s = map up_c s"
proof -
  have "concat (map (upper_char u) (chars s)) = map (\<lambda>c. ascii_up (of_char c)) s"
    using assms by (induction s) (auto simp: ascii_str_def upper_char_ascii)
  moreover have "list_all (\<lambda>b. b < 128) (map (\<lambda>c. ascii_up (of_char c)) s)"
    using assms by (auto simp: ascii_str_def list_all_iff ascii_up_less)
  ultimately show ?thesis
    by (simp add: to_uppercase_def of_chars_def utf8_encode_ascii up_c_def comp_def)
qed

lemma ends_with_append: "length p = length t \<Longrightarrow> ends_with (s @ t) p \<longleftrightarrow> t = p"
  by (auto simp: ends_with_def)

lemma slice_to_ascii: "ascii_str s \<Longrightarrow> k \<le> length s \<Longrightarrow> slice_to s k = Some (take k s)"
proof -
  assume "ascii_str s" "k \<le> length s"
  then have "k = length s \<or> k < length s \<and> of_char (s ! k) < (128::nat)"
    by (auto simp: ascii_str_def list_all_length)
  then show ?thesis by (auto simp: slice_to_def is_char_boundary_def cont_def)
qed

lemma hd_show_nat_digit: "is_digit (hd (show_nat n))" "is_digit (last (show_nat n))"
  using show_nat_digits [of n] show_nat_nonempty [of n]
  by (auto simp: list_all_iff)

lemma trim_show_nat [simp]: "trim (show_nat n) = show_nat n"
  by (simp add: trim_id digit_not_ws hd_show_nat_digit)

lemma size_unit_suffix:
  assumes "(unit, mult) \<in> set size_units" "map up_c sfx = unit"
  shows "size_unit (map up_c (p @ sfx)) = (2, word_of_nat mult)"
proof -
  have len: "length (map up_c sfx) = 2" using assms by (auto simp: size_units_def)
  have "ends_with (map up_c (p @ sfx)) q \<longleftrightarrow> unit = q" if "length q = 2" for q
    using ends_with_append [of q "map up_c sfx" "map up_c p"] that len assms(2) by simp
  then show ?thesis using assms(1) by (auto simp: size_unit_def size_units_def)
qed

lemma sfx_ascii:
  assumes "(unit, mult) \<in> set size_units" "map up_c sfx = unit" "ascii_str sfx"
  shows "length sfx = 2 \<and> \<not> white_space (of_char (last sfx))"
proof -
  have l: "length sfx = 2" using assms(1) arg_cong [OF assms(2), of length] by (auto simp: size_units_def)
  then obtain a b where s: "sfx = [a, b]" by (metis One_nat_def Suc_1 length_0_conv length_Suc_conv)
  have "up_c b = CHR ''B''" using assms(1,2) by (auto simp: size_units_def s)
  then have "of_char (up_c b) = (66::nat)" by simp
  then have "of_char b = (66::nat) \<or> of_char b = (98::nat)"
    using assms(3) by (auto simp: up_c_def ascii_up_def s ascii_str_def split: if_splits)
  then show ?thesis using l by (auto simp: s white_space_def)
qed

theorem parse_size_limit_unit:
  assumes "(unit, mult) \<in> set size_units" "map up_c sfx = unit" "ascii_str sfx" "n < 2 ^ 64"
  shows "parse_size_limit u (show_nat n @ sfx) = Ok (Some (word_of_nat (n * mult)))"
proof -
  let ?s = "show_nat n @ sfx"
  from sfx_ascii [OF assms(1-3)] have sfx: "length sfx = 2" "\<not> white_space (of_char (last sfx))" by blast+
  then have ne: "sfx \<noteq> []" by auto
  have as: "ascii_str ?s" using assms(3) by simp
  have tr: "trim ?s = ?s"
    using as ne sfx(2) by (intro trim_id) (simp_all add: digit_not_ws hd_show_nat_digit)
  have "2 < length ?s" using sfx(1) show_nat_nonempty [of n] by (cases "show_nat n") auto
  then have nz: "?s \<noteq> []" "?s \<noteq> ''0''"
    by (auto dest!: arg_cong [where f = length])
  have "size_unit (to_uppercase u ?s) = (2, word_of_nat mult)"
    using size_unit_suffix [OF assms(1,2)] as by (simp add: to_uppercase_ascii)
  moreover have "slice_to ?s (length ?s - 2) = Some (show_nat n)"
    using as sfx(1) by (simp add: slice_to_ascii)
  ultimately show ?thesis
    using nz sfx(1) assms(4) by (simp add: parse_size_limit_def tr Let_def)
qed

text \<open>
  C39. A decimal number followed by KB, MB, GB or TB in any letter case is parsed to the number
  times the unit whenever that fits in 64 bits.
\<close>

corollary parse_size_limit_exact:
  assumes "(unit, mult) \<in> set size_units" "map up_c sfx = unit" "ascii_str sfx" "n * mult < 2 ^ 64"
  shows "\<exists>w. parse_size_limit u (show_nat n @ sfx) = Ok (Some w) \<and> unat w = n * mult"
proof -
  have "n \<le> n * mult" using assms(1) by (auto simp: size_units_def)
  then have "n < 2 ^ 64" using assms(4) by (rule le_less_trans)
  with parse_size_limit_unit [OF assms(1-3), of n u] assms(4) show ?thesis
    by (auto simp: unat_of_nat simp del: of_nat_mult)
qed

theorem parse_size_limit_wraps:
  "parse_size_limit u (show_nat 16777216 @ ''TB'') = Ok (Some 0)"
proof -
  have "map up_c ''TB'' = ''TB''" by code_simp
  from parse_size_limit_unit [OF _ this, of 1099511627776 16777216 u] show ?thesis
    by (simp add: size_units_def ascii_str_def)
qed

lemma ascii_trim: "ascii_str s \<Longrightarrow> ascii_str (trim s)"
proof -
  assume "ascii_str s"
  then have "\<forall>c \<in> set (chars s). c < 128" by (auto simp: ascii_str_def list_all_iff)
  moreover have "set (trim_chars cs) \<subseteq> set cs" for cs
    unfolding trim_chars_def by (metis set_dropWhileD set_rev subsetI)
  ultimately have all: "list_all (\<lambda>b. b < 128) (trim_chars (chars s))" unfolding list_all_iff by blast
  then have eq: "trim s = map char_of (trim_chars (chars s))"
    by (simp add: trim_def of_chars_def utf8_encode_ascii)
  have "of_char (char_of b :: char) < (128::nat)" if "b < 128" for b :: nat using that by simp
  with all have "list_all (\<lambda>b. of_char (char_of b :: char) < (128::nat)) (trim_chars (chars s))"
    by (rule list.pred_mono_strong)
  then show ?thesis unfolding eq ascii_str_def list.pred_map comp_def .
qed

lemma size_unit_le: "size_unit s = (k, m) \<Longrightarrow> k \<le> length s"
  by (auto simp: size_unit_def ends_with_def split: if_splits)

theorem parse_size_limit_ascii_total:
  assumes "ascii_str s"
  shows "\<exists>r. parse_size_limit u s = Ok r"
proof -
  have as: "ascii_str (trim s)" by (rule ascii_trim [OF assms])
  obtain k m where km: "size_unit (map up_c (trim s)) = (k, m)" by (metis surj_pair)
  then have "k \<le> length (trim s)" using size_unit_le by fastforce
  then show ?thesis
    using as km slice_to_ascii [OF as, of "length (trim s) - k"]
    by (auto simp: parse_size_limit_def Let_def to_uppercase_ascii)
qed


text \<open>
  U+FB05 (the st ligature, three bytes) upper-cases to the two letters ST, so a value such as
  \<open>5\<close>, U+FB05, \<open>b\<close> passes the TB test on its upper case while the cut two bytes before its end
  falls inside the ligature.
\<close>

theorem parse_size_limit_ligature_panics:
  "parse_size_limit u (show_nat n @ of_chars [64261] @ ''b'') = Panic"
proof -
  let ?ds = "map of_char (show_nat n) :: nat list"
  let ?s = "show_nat n @ of_chars [64261] @ ''b''"
  have lig: "of_chars [64261] = map char_of [239, 172, 133 :: nat]"
    by (simp add: of_chars_def utf8_encode_def utf8_encode_char_def)
  have asc: "char_of (98::nat) = CHR ''b''" "char_of (83::nat) = CHR ''S''" "char_of (84::nat) = CHR ''T''"
    "char_of (66::nat) = CHR ''B''" by (simp_all add: char_of_eq_iff)
  have ws98: "\<not> white_space 98" by (simp add: white_space_def)
  have ds: "list_all (\<lambda>b. b < 128) ?ds" using ascii_show_nat [of n] by (simp add: ascii_str_def list.pred_map comp_def)
  have sc: "list_all scalar (?ds @ [64261, 98])" using ds by (auto simp: scalar_def list_all_iff)
  have s: "?s = of_chars (?ds @ [64261, 98])"
  proof -
    have "of_chars (?ds @ [64261, 98]) = map char_of ?ds @ of_chars [64261, 98]"
      using utf8_encode_ascii [OF ds] by (simp add: of_chars_def utf8_encode_def)
    moreover have "of_chars [64261, 98] = of_chars [64261] @ ''b''"
      by (simp add: of_chars_def utf8_encode_def utf8_encode_char_def asc)
    ultimately show ?thesis by (simp add: comp_def)
  qed
  have ch: "chars ?s = ?ds @ [64261, 98]" unfolding s using sc by (rule chars_of_chars)
  have "trim_chars (?ds @ [64261, 98]) = ?ds @ [64261, 98]"
    using digit_not_ws [OF hd_show_nat_digit(1), of n] by (intro trim_chars_id) (simp add: hd_map ws98)
  then have tr: "trim ?s = ?s" unfolding trim_def ch using s by simp
  have "concat (map (upper_char u) (chars ?s)) = map ascii_up ?ds @ [83, 84, 66]"
  proof -
    have "concat (map (upper_char u) ?ds) = map ascii_up ?ds" using ds
      by (induction ?ds rule: list.induct) (auto simp: upper_char_ascii list_all_iff concat_map_singleton cong: map_cong)
    moreover have "upper_char u 64261 = [83, 84]" "upper_char u 98 = [66]"
      by (simp_all add: upper_char_def ascii_upper_specials_def)
    ultimately show ?thesis by (simp add: ch)
  qed
  moreover have "list_all (\<lambda>b. b < 128) (map ascii_up ?ds @ [83, 84, 66])"
    using ds by (auto simp: list_all_iff ascii_up_less)
  ultimately have "to_uppercase u ?s = (map char_of (map ascii_up ?ds) @ ''S'') @ ''TB''"
    by (simp add: to_uppercase_def of_chars_def utf8_encode_ascii asc)
  moreover have "ends_with (p @ ''TB'') ''TB''" for p by (simp add: ends_with_append)
  ultimately have unit: "size_unit (to_uppercase u ?s) = (2, 1024 * 1024 * 1024 * 1024)"
    by (simp only: size_unit_def if_True)
  have l: "length ?s = length (show_nat n) + 4" by (simp add: lig)
  have "?s ! (length ?s - 2) = char_of (133::nat)" unfolding l by (simp add: lig nth_append)
  then have "\<not> is_char_boundary ?s (length ?s - 2)" by (simp add: is_char_boundary_def l cont_def)
  moreover have "?s \<noteq> []" "?s \<noteq> ''0''" using l by (auto dest!: arg_cong [where f = length])
  ultimately show ?thesis
    unfolding parse_size_limit_def tr Let_def by (simp add: unit slice_to_def l)
qed

section \<open>Precedence of the configuration sources\<close>

lemma override_frame: "(\<And>v c. g (f v c) = g c) \<Longrightarrow> g (override x f c) = g c"
  by (cases x) (simp_all add: override_def)

lemma override_field: "(\<And>v c. g (f v c) = h v) \<Longrightarrow> g (override x f c) = (case x of Some v \<Rightarrow> h v | None \<Rightarrow> g c)"
  by (cases x) (simp_all add: override_def)

lemma override_bind: "(\<And>v c. f v c = override (k v) j c) \<Longrightarrow> override x f c = override (Option.bind x k) j c"
  by (cases x) (simp_all add: override_def)

lemmas override_frames =
  override_frame [where g = listen_addr] override_frame [where g = admin_listen_addr]
  override_frame [where g = upstream_host] override_frame [where g = upstream_port]
  override_frame [where g = pool_cfg] override_frame [where g = monitor_cfg]
  override_frame [where g = "\<lambda>c. tls_enabled (tls_cfg c)"]

lemmas override_fields =
  override_field [where g = listen_addr and h = "\<lambda>v. v"]
  override_field [where g = admin_listen_addr and h = "\<lambda>v. v"]
  override_field [where g = upstream_host and h = "\<lambda>v. v"]
  override_field [where g = upstream_port and h = word_of_nat]
  override_field [where g = "\<lambda>c. tls_enabled (tls_cfg c)" and h = "\<lambda>_. True"]

theorem load_precedence:
  assumes "load toml fs env path listen admin = Inr cfg" "read_config toml fs path = Inr base"
  shows "listen_addr cfg = (case env ''PG_MUX_LISTEN'' of Some v \<Rightarrow> v | None \<Rightarrow> (case listen of Some l \<Rightarrow> l | None \<Rightarrow> listen_addr base))
    \<and> admin_listen_addr cfg = (case env ''PG_MUX_ADMIN_LISTEN'' of Some v \<Rightarrow> v | None \<Rightarrow> (case admin of Some a \<Rightarrow> a | None \<Rightarrow> admin_listen_addr base))
    \<and> upstream_host cfg = (case env ''PG_MUX_UPSTREAM_HOST'' of Some v \<Rightarrow> v | None \<Rightarrow> upstream_host base)
    \<and> upstream_port cfg = (case Option.bind (env ''PG_MUX_UPSTREAM_PORT'') (parse_unsigned 65536) of
          Some p \<Rightarrow> word_of_nat p | None \<Rightarrow> upstream_port base)
    \<and> (tls_enabled (tls_cfg cfg) \<longleftrightarrow> env ''PG_MUX_TLS_CERT'' \<noteq> None \<or> tls_enabled (tls_cfg base))
    \<and> pool_cfg cfg = pool_cfg base \<and> monitor_cfg cfg = monitor_cfg base"
proof -
  have cfg: "cfg = env_overrides env (cli_overrides listen admin base)" using assms by (simp add: load_def)
  have port: "override x (\<lambda>v. override (parse_unsigned 65536 v) j) c = override (Option.bind x (parse_unsigned 65536)) j c"
    for x c and j :: "nat \<Rightarrow> config \<Rightarrow> config" by (rule override_bind) simp
  show ?thesis
    unfolding cfg env_overrides_def cli_overrides_def Let_def port
    by (simp add: override_frames override_fields split: option.split)
qed

section \<open>Instances\<close>

lemma parse_size_limit_exact_witness:
  "\<exists>w. parse_size_limit (\<lambda>c. [c]) (show_nat 5 @ ''gB'') = Ok (Some w) \<and> unat w = 5 * 1073741824"
proof -
  have "map up_c ''gB'' = ''GB''" by code_simp
  from parse_size_limit_exact [OF _ this, of 1073741824 5 "\<lambda>c. [c]"] show ?thesis
    by (simp add: size_units_def ascii_str_def)
qed

lemma parse_size_limit_ascii_total_witness: "\<exists>r. parse_size_limit (\<lambda>c. [c]) ''12xB'' = Ok r"
  by (rule parse_size_limit_ascii_total) (simp add: ascii_str_def)

lemma load_precedence_witness:
  "\<exists>cfg. load (\<lambda>_. Inl (LibError ''toml'')) (\<lambda>_. None) (\<lambda>v. if v = ''PG_MUX_LISTEN'' then Some ''a:1'' else None)
      ''pg.toml'' (Some ''b:2'') (Some ''c:3'') = Inr cfg \<and> listen_addr cfg = ''a:1'' \<and> admin_listen_addr cfg = ''c:3''"
proof -
  let ?env = "\<lambda>v. if v = ''PG_MUX_LISTEN'' then Some ''a:1'' else None"
  have r: "read_config (\<lambda>_. Inl (LibError ''toml'')) (\<lambda>_. None) ''pg.toml'' = Inr default_config"
    by (simp add: read_config_def)
  then obtain cfg where l: "load (\<lambda>_. Inl (LibError ''toml'')) (\<lambda>_. None) ?env ''pg.toml'' (Some ''b:2'') (Some ''c:3'') = Inr cfg"
    by (simp add: load_def)
  from load_precedence [OF l r] show ?thesis using l by simp
qed

end
