(* ===== verification/Metrics.thy ===== *)
theory Metrics
  imports Config "HOL-Library.Log_Nat"
begin

text \<open>
  \<^verbatim>\<open>src/admin/metrics.rs\<close>: the counters and gauges the other components update, and the names
  under which they are registered. Counters are unsigned and gauges signed 64-bit values that
  wrap around. A gauge family of \<^verbatim>\<open>f64\<close> values is a map from the database label to the value
  stored; every value stored is \<^verbatim>\<open>u64 as f64\<close> or 0.0 or 1.0, hence a natural number, and
  \<open>u64_as_f64\<close> is the rounding of that conversion (nearest, ties to even, 53-bit mantissa).

  \<^verbatim>\<open>PoolKey\<close> and \<^verbatim>\<open>ClientStartupInfo\<close> of \<^verbatim>\<open>src/protocol/mod.rs\<close> are here too.
\<close>

section \<open>Pool keys and startup information\<close>

record pool_key =
  pk_host :: string
  pk_port :: u16
  pk_database :: string
  pk_user :: string

definition display_key :: "pool_key \<Rightarrow> string" where
  "display_key k = pk_host k @ '':'' @ show_nat (unat (pk_port k)) @ ''/'' @ pk_database k @ ''@'' @ pk_user k"

record startup_info =
  si_user :: string
  si_database :: string
  si_password :: string
  si_max_db_size :: "u64 option"
  si_extra_params :: "(string \<times> string) list"

section \<open>Metrics\<close>

record metrics =
  client_connections_total :: u64
  client_connections_active :: i64
  server_connections_total :: u64
  server_connections_active :: i64
  server_connection_errors_total :: u64
  pool_hits_total :: u64
  pool_misses_total :: u64
  pool_timeouts_total :: u64
  db_size_bytes :: "string \<rightharpoonup> nat"
  db_size_limit_bytes :: "string \<rightharpoonup> nat"
  db_over_limit :: "string \<rightharpoonup> nat"
  registry :: "(string \<times> string) list"

definition metrics_new :: metrics where
  "metrics_new =
     \<lparr>client_connections_total = 0, client_connections_active = 0, server_connections_total = 0,
      server_connections_active = 0, server_connection_errors_total = 0, pool_hits_total = 0,
      pool_misses_total = 0, pool_timeouts_total = 0, db_size_bytes = Map.empty,
      db_size_limit_bytes = Map.empty, db_over_limit = Map.empty,
      registry =
        [(''pgmux_client_connections_total'', ''Total client connections accepted''),
         (''pgmux_client_connections_active'', ''Currently active client connections''),
         (''pgmux_server_connections_total'', ''Total server connections created''),
         (''pgmux_server_connections_active'', ''Currently active server connections''),
         (''pgmux_server_connection_errors_total'', ''Total server connection errors''),
         (''pgmux_pool_hits_total'', ''Connections served from pool''),
         (''pgmux_pool_misses_total'', ''Connections that required new backend connection''),
         (''pgmux_pool_timeouts_total'', ''Connection acquire timeouts''),
         (''pgmux_db_size_bytes'', ''Current database size in bytes''),
         (''pgmux_db_size_limit_bytes'', ''Configured database size limit in bytes''),
         (''pgmux_db_over_limit'', ''Whether database is over its size limit (1=over, 0=ok)'')]\<rparr>"

definition metrics_default :: metrics where
  "metrics_default = metrics_new"

definition u64_as_f64 :: "u64 \<Rightarrow> nat" where
  "u64_as_f64 w =
     (let n = unat w; k = floorlog 2 n - 53; q = n div 2 ^ k; r = n mod 2 ^ k
      in if 2 ^ k < 2 * r \<or> 2 * r = 2 ^ k \<and> odd q then (q + 1) * 2 ^ k else q * 2 ^ k)"

lemma u64_as_f64_small: "unat w < 2 ^ 53 \<Longrightarrow> u64_as_f64 w = unat w"
proof -
  assume "unat w < 2 ^ 53"
  then have "floorlog 2 (unat w) \<le> 53" by (simp add: floorlog_le_iff)
  then show ?thesis by (simp add: u64_as_f64_def)
qed

end
