(* ===== verification/Lease.thy ===== *)
theory Lease
  imports Prelude
begin

text \<open>
  The contract between a provider that lends resources and the clients that take one, use it
  and give it back: what a sequence of client sessions does to the number of resources lent,
  whatever the provider is. \<open>Pool\<close> interprets it on \<^verbatim>\<open>PoolManager::acquire\<close> and \<^verbatim>\<open>release\<close>.

  A session is a request and what becomes of the resource: given back with the given argument,
  or abandoned (the holder returns early and drops it).
\<close>

fun run_sessions :: "('q \<Rightarrow> 'p \<Rightarrow> 's outcome \<times> 'p) \<Rightarrow> ('q \<Rightarrow> 'g \<Rightarrow> 's \<Rightarrow> 'p \<Rightarrow> 'p)
    \<Rightarrow> ('q \<times> 'g option) list \<Rightarrow> 'p \<Rightarrow> nat \<times> 'p" where
  "run_sessions borrow give [] p = (0, p)"
| "run_sessions borrow give ((q, g) # ss) p =
     (case borrow q p of
        (Ok s, p') \<Rightarrow>
          (case g of
             Some a \<Rightarrow> run_sessions borrow give ss (give q a s p')
           | None \<Rightarrow> (case run_sessions borrow give ss p' of (n, p'') \<Rightarrow> (Suc n, p'')))
      | (_, p') \<Rightarrow> run_sessions borrow give ss p')"

locale lease =
  fixes lent :: "'p \<Rightarrow> u64"
    and borrow :: "'q \<Rightarrow> 'p \<Rightarrow> 's outcome \<times> 'p"
    and give :: "'q \<Rightarrow> 'g \<Rightarrow> 's \<Rightarrow> 'p \<Rightarrow> 'p"
  assumes lent_taken: "borrow q p = (Ok s, p') \<Longrightarrow> lent p' = lent p + 1"
    and lent_refused: "borrow q p = (r, p') \<Longrightarrow> (\<And>s. r \<noteq> Ok s) \<Longrightarrow> lent p' = lent p"
    and lent_given: "lent (give q a s p) = lent p - 1"
begin

lemma lent_sessions:
  "run_sessions borrow give ss p = (n, p') \<Longrightarrow> lent p' = lent p + of_nat n"
proof (induction ss arbitrary: p n p')
  case (Cons x ss)
  obtain q g where x: "x = (q, g)" by fastforce
  obtain r p1 where t: "borrow q p = (r, p1)" by fastforce
  show ?case
  proof (cases r)
    case (Ok s)
    then have 1: "lent p1 = lent p + 1" using t lent_taken by blast
    show ?thesis
    proof (cases g)
      case None
      then obtain m where "run_sessions borrow give ss p1 = (m, p')" "n = Suc m"
        using Cons.prems x t Ok by (auto split: prod.splits)
      then show ?thesis using Cons.IH 1 by (simp add: algebra_simps)
    next
      case (Some a)
      then have "run_sessions borrow give ss (give q a s p1) = (n, p')"
        using Cons.prems x t Ok by simp
      then show ?thesis using Cons.IH 1 by (simp add: lent_given)
    qed
  qed (use Cons x t in \<open>auto dest: lent_refused\<close>)
qed simp

lemma balanced_sessions:
  "list_all (\<lambda>(q, g). g \<noteq> None) ss \<Longrightarrow> run_sessions borrow give ss p = (n, p') \<Longrightarrow> n = 0"
proof (induction ss arbitrary: p)
  case (Cons x ss)
  then show ?case by (auto split: prod.splits outcome.splits option.splits)
qed simp

end

end
