(* ===== verification/Pool.thy ===== *)
theory Pool
  imports Lease Metrics "HOL-Library.AList" "HOL-Library.Multiset"
begin

text \<open>
  \<^verbatim>\<open>src/pool/mod.rs\<close>: the per-key pools of idle backend connections and the manager's counters.
  A \<^verbatim>\<open>TcpStream\<close> is its socket number. \<^verbatim>\<open>Instant\<close>s are nanoseconds; \<^verbatim>\<open>x.elapsed()\<close> is the truncating
  difference with the clock reading of the pass. The \<^verbatim>\<open>DashMap\<close> of pools is an association list
  with one entry per key.

  \<open>acquire\<close> is one call run without interruption: its loop consumes a list of \<open>round\<close>s, each
  giving the clock, how the wait ends and the outcome of \<^verbatim>\<open>connect_backend\<close> in that round, which may
  also panic or never return; when the list ends the call is still pending. The interleaving of several calls is in \<open>Pool_Tasks\<close>.
\<close>

section \<open>State\<close>

type_synonym stream = nat

record pooled_connection =
  pc_stream :: stream
  created_at :: nat
  last_used :: nat

record pool =
  idle :: "pooled_connection list"
  active_count :: u64
  total_acquired :: u64
  total_errors :: u64

definition pool_new :: pool where
  "pool_new = \<lparr>idle = [], active_count = 0, total_acquired = 0, total_errors = 0\<rparr>"

record pool_manager =
  pools :: "(pool_key \<times> pool) list"
  total_server_connections :: u64
  pm_metrics :: metrics

definition pool_manager_new :: "metrics \<Rightarrow> pool_manager" where
  "pool_manager_new m = \<lparr>pools = [], total_server_connections = 0, pm_metrics = m\<rparr>"

definition get_pool :: "pool_manager \<Rightarrow> pool_key \<Rightarrow> pool option" where
  "get_pool pm k = map_of (pools pm) k"

definition put_pool :: "pool_key \<Rightarrow> pool \<Rightarrow> pool_manager \<Rightarrow> pool_manager" where
  "put_pool k p pm = pm\<lparr>pools := AList.update k p (pools pm)\<rparr>"

text \<open>\<^verbatim>\<open>self.pools.entry(key).or_insert_with(Pool::new)\<close>.\<close>

definition ensure_pool :: "pool_key \<Rightarrow> pool_manager \<Rightarrow> pool_manager" where
  "ensure_pool k pm = (case get_pool pm k of None \<Rightarrow> put_pool k pool_new pm | Some _ \<Rightarrow> pm)"

definition upd_pool :: "pool_key \<Rightarrow> (pool \<Rightarrow> pool) \<Rightarrow> pool_manager \<Rightarrow> pool_manager" where
  "upd_pool k f pm = (case get_pool pm k of None \<Rightarrow> pm | Some p \<Rightarrow> put_pool k (f p) pm)"

definition upd_metrics :: "(metrics \<Rightarrow> metrics) \<Rightarrow> pool_manager \<Rightarrow> pool_manager" where
  "upd_metrics f pm = pm\<lparr>pm_metrics := f (pm_metrics pm)\<rparr>"

text \<open>Dropping a server connection: the global counter and the gauge go down by one.\<close>

definition drop_connection :: "pool_manager \<Rightarrow> pool_manager" where
  "drop_connection pm =
     upd_metrics (\<lambda>m. m\<lparr>server_connections_active := server_connections_active m - 1\<rparr>)
       (pm\<lparr>total_server_connections := total_server_connections pm - 1\<rparr>)"

section \<open>Acquiring\<close>

definition secs :: "u64 \<Rightarrow> nat" where
  "secs w = unat w * 1000000000"

definition millis :: "u64 \<Rightarrow> nat" where
  "millis w = unat w * 1000000"

definition expired :: "pool_config \<Rightarrow> nat \<Rightarrow> pooled_connection \<Rightarrow> bool" where
  "expired pc now c \<longleftrightarrow> secs (max_connection_lifetime_secs pc) < now - created_at c"

definition idle_too_long :: "pool_config \<Rightarrow> nat \<Rightarrow> pooled_connection \<Rightarrow> bool" where
  "idle_too_long pc now c \<longleftrightarrow> secs (idle_timeout_secs pc) < now - last_used c"

text \<open>The \<^verbatim>\<open>while let Some(conn) = idle.pop_front()\<close> loop under the pool's lock.\<close>

fun pop_idle :: "pool_config \<Rightarrow> nat \<Rightarrow> pool_key \<Rightarrow> pooled_connection list \<Rightarrow> pool_manager
    \<Rightarrow> stream option \<times> pool_manager" where
  "pop_idle pc now k [] pm = (None, upd_pool k (\<lambda>p. p\<lparr>idle := []\<rparr>) pm)"
| "pop_idle pc now k (c # cs) pm =
     (if expired pc now c then pop_idle pc now k cs (drop_connection pm)
      else if idle_too_long pc now c then pop_idle pc now k cs (drop_connection pm)
      else (Some (pc_stream c),
            upd_metrics (\<lambda>m. m\<lparr>pool_hits_total := pool_hits_total m + 1\<rparr>)
              (upd_pool k (\<lambda>p. p\<lparr>idle := cs, active_count := active_count p + 1,
                               total_acquired := total_acquired p + 1\<rparr>) pm)))"

definition take_idle :: "pool_config \<Rightarrow> nat \<Rightarrow> pool_key \<Rightarrow> pool_manager \<Rightarrow> stream option \<times> pool_manager" where
  "take_idle pc now k pm =
     (case get_pool pm k of None \<Rightarrow> (None, pm) | Some p \<Rightarrow> pop_idle pc now k (idle p) pm)"

definition count_timeout :: "pool_key \<Rightarrow> pool_manager \<Rightarrow> pool_manager" where
  "count_timeout k pm =
     upd_metrics (\<lambda>m. m\<lparr>pool_timeouts_total := pool_timeouts_total m + 1\<rparr>)
       (upd_pool k (\<lambda>p. p\<lparr>total_errors := total_errors p + 1\<rparr>) pm)"

datatype decision = Bail pg_error | Wait | Create

text \<open>The capacity checks after the idle queue was found empty.\<close>

definition check_capacity :: "pool_config \<Rightarrow> nat \<Rightarrow> nat \<Rightarrow> pool_key \<Rightarrow> pool_manager \<Rightarrow> decision \<times> pool_manager" where
  "check_capacity pc now deadline k pm =
     (let total = total_server_connections pm;
          per_pool = (case get_pool pm k of
                        None \<Rightarrow> 0
                      | Some p \<Rightarrow> active_count p + word_of_nat (length (idle p)))
      in if ucast (max_total_connections pc) \<le> total then
           (if deadline \<le> now then (Bail PoolTimeoutGlobal, count_timeout k pm) else (Wait, pm))
         else if ucast (max_connections_per_pool pc) \<le> per_pool then
           (if deadline \<le> now then (Bail PoolTimeoutPerPool, count_timeout k pm) else (Wait, pm))
         else (Create, upd_metrics (\<lambda>m. m\<lparr>pool_misses_total := pool_misses_total m + 1\<rparr>) pm))"

definition connected :: "pool_key \<Rightarrow> pool_manager \<Rightarrow> pool_manager" where
  "connected k pm =
     upd_pool k (\<lambda>p. p\<lparr>active_count := active_count p + 1, total_acquired := total_acquired p + 1\<rparr>)
       (upd_metrics (\<lambda>m. m\<lparr>server_connections_active := server_connections_active m + 1,
                          server_connections_total := server_connections_total m + 1\<rparr>)
         (pm\<lparr>total_server_connections := total_server_connections pm + 1\<rparr>))"

definition connect_failed :: "pool_key \<Rightarrow> pool_manager \<Rightarrow> pool_manager" where
  "connect_failed k pm =
     upd_metrics (\<lambda>m. m\<lparr>server_connection_errors_total := server_connection_errors_total m + 1\<rparr>)
       (upd_pool k (\<lambda>p. p\<lparr>total_errors := total_errors p + 1\<rparr>) pm)"

datatype wake = Notified | TimedOut

record round =
  r_now :: nat
  r_wake :: wake
  r_connect :: "pool_key \<Rightarrow> string \<Rightarrow> (string \<times> string) list \<Rightarrow> stream outcome"

fun acquire_loop :: "pool_config \<Rightarrow> pool_key \<Rightarrow> string \<Rightarrow> (string \<times> string) list \<Rightarrow> nat \<Rightarrow> round list
    \<Rightarrow> pool_manager \<Rightarrow> stream outcome \<times> pool_manager" where
  "acquire_loop pc k pw extra deadline [] pm = (Pending, pm)"
| "acquire_loop pc k pw extra deadline (r # rs) pm =
     (case take_idle pc (r_now r) k pm of
        (Some s, pm) \<Rightarrow> (Ok s, pm)
      | (None, pm) \<Rightarrow>
        (case check_capacity pc (r_now r) deadline k pm of
           (Bail e, pm) \<Rightarrow> (Err e, pm)
         | (Wait, pm) \<Rightarrow>
             (case r_wake r of
                Notified \<Rightarrow> acquire_loop pc k pw extra deadline rs pm
              | TimedOut \<Rightarrow> (Err PoolTimeout, count_timeout k pm))
         | (Create, pm) \<Rightarrow>
             (case r_connect r k pw extra of
                Ok s \<Rightarrow> (Ok s, connected k pm)
              | Err e \<Rightarrow> (Err (FailedToConnect (display_key k) e), connect_failed k pm)
              | Panic \<Rightarrow> (Panic, pm)
              | Pending \<Rightarrow> (Pending, pm))))"

definition acquire :: "config \<Rightarrow> nat \<Rightarrow> round list \<Rightarrow> pool_key \<Rightarrow> string \<Rightarrow> (string \<times> string) list
    \<Rightarrow> pool_manager \<Rightarrow> stream outcome \<times> pool_manager" where
  "acquire cfg start rounds k pw extra pm =
     acquire_loop (pool_cfg cfg) k pw extra (start + millis (acquire_timeout_ms (pool_cfg cfg))) rounds
       (ensure_pool k pm)"

section \<open>Releasing\<close>

text \<open>
  \<open>release\<close> up to and after its \<^verbatim>\<open>reset_connection(..).await\<close>: \<open>release_begin\<close> says whether the
  connection is still to be reset; \<open>release_end\<close> takes the result of the reset.
  The wake-up \<^verbatim>\<open>waiters.notify_one()\<close> is the second component.
\<close>

definition release_begin :: "pool_key \<Rightarrow> pool_manager \<Rightarrow> bool \<times> pool_manager" where
  "release_begin k pm =
     (case get_pool pm k of
        None \<Rightarrow> (False, drop_connection pm)
      | Some _ \<Rightarrow> (True, upd_pool k (\<lambda>p. p\<lparr>active_count := active_count p - 1\<rparr>) pm))"

definition release_end :: "pool_key \<Rightarrow> stream \<Rightarrow> nat \<Rightarrow> pg_error + unit \<Rightarrow> pool_manager \<Rightarrow> bool \<times> pool_manager" where
  "release_end k s now reset pm =
     (case reset of
        Inr _ \<Rightarrow> (True, upd_pool k (\<lambda>p. p\<lparr>idle := idle p @ [\<lparr>pc_stream = s, created_at = now, last_used = now\<rparr>]\<rparr>) pm)
      | Inl _ \<Rightarrow> (False, drop_connection pm))"

definition release :: "pool_key \<Rightarrow> stream \<Rightarrow> nat \<Rightarrow> pg_error + unit \<Rightarrow> pool_manager \<Rightarrow> pool_manager" where
  "release k s now reset pm =
     (case release_begin k pm of
        (False, pm) \<Rightarrow> pm
      | (True, pm) \<Rightarrow> snd (release_end k s now reset pm))"

section \<open>Statistics\<close>

record pool_stats =
  ps_key :: pool_key
  ps_idle_connections :: u64
  ps_active_connections :: u64
  ps_total_acquired :: u64
  ps_total_errors :: u64

definition get_stats :: "pool_manager \<Rightarrow> pool_stats list" where
  "get_stats pm =
     map (\<lambda>(k, p). \<lparr>ps_key = k, ps_idle_connections = word_of_nat (length (idle p)),
                    ps_active_connections = active_count p, ps_total_acquired = total_acquired p,
                    ps_total_errors = total_errors p\<rparr>) (pools pm)"

definition total_connections :: "pool_manager \<Rightarrow> u64" where
  "total_connections pm = total_server_connections pm"

section \<open>The association list of pools\<close>

lemma sum_update_Some:
  fixes f :: "'v \<Rightarrow> 'm :: comm_monoid_add"
  shows "map_of xs k = Some p \<Longrightarrow>
    sum_list (map (f \<circ> snd) (AList.update k q xs)) + f p = sum_list (map (f \<circ> snd) xs) + f q"
  by (induction xs) (auto split: if_splits simp: ac_simps)

lemma sum_update_None:
  fixes f :: "'v \<Rightarrow> 'm :: comm_monoid_add"
  shows "map_of xs k = None \<Longrightarrow>
    sum_list (map (f \<circ> snd) (AList.update k q xs)) = sum_list (map (f \<circ> snd) xs) + f q"
  by (induction xs) (auto split: if_splits simp: ac_simps)

lemma get_put_pool: "get_pool (put_pool k p pm) k' = (if k' = k then Some p else get_pool pm k')"
  by (simp add: get_pool_def put_pool_def update_conv' )

lemma put_pool_fields [simp]:
  "total_server_connections (put_pool k p pm) = total_server_connections pm"
  "pm_metrics (put_pool k p pm) = pm_metrics pm"
  by (simp_all add: put_pool_def)

lemma get_ensure_pool:
  "get_pool (ensure_pool k pm) k' = (if k' = k \<and> get_pool pm k = None then Some pool_new else get_pool pm k')"
  by (auto simp: ensure_pool_def get_put_pool split: option.splits)

lemma ensure_pool_fields [simp]:
  "total_server_connections (ensure_pool k pm) = total_server_connections pm"
  "pm_metrics (ensure_pool k pm) = pm_metrics pm"
  by (simp_all add: ensure_pool_def split: option.splits)

lemma get_upd_pool:
  "get_pool (upd_pool k f pm) k' = (if k' = k then map_option f (get_pool pm k) else get_pool pm k')"
  by (auto simp: upd_pool_def get_put_pool split: option.splits)

lemma upd_pool_fields [simp]:
  "total_server_connections (upd_pool k f pm) = total_server_connections pm"
  "pm_metrics (upd_pool k f pm) = pm_metrics pm"
  by (simp_all add: upd_pool_def split: option.splits)

lemma upd_metrics_fields [simp]:
  "total_server_connections (upd_metrics f pm) = total_server_connections pm"
  "pm_metrics (upd_metrics f pm) = f (pm_metrics pm)"
  "get_pool (upd_metrics f pm) k = get_pool pm k"
  by (simp_all add: upd_metrics_def get_pool_def)

lemma drop_connection_fields [simp]:
  "total_server_connections (drop_connection pm) = total_server_connections pm - 1"
  "server_connections_active (pm_metrics (drop_connection pm)) = server_connections_active (pm_metrics pm) - 1"
  "get_pool (drop_connection pm) k = get_pool pm k"
  by (simp_all add: drop_connection_def get_pool_def upd_metrics_def)

lemma drop_connections_fields [simp]:
  "total_server_connections ((drop_connection ^^ n) pm) = total_server_connections pm - of_nat n"
  "server_connections_active (pm_metrics ((drop_connection ^^ n) pm)) =
     server_connections_active (pm_metrics pm) - of_nat n"
  "get_pool ((drop_connection ^^ n) pm) k = get_pool pm k"
  by (induction n) (simp_all add: algebra_simps)

lemmas pool_lookup = get_put_pool get_ensure_pool get_upd_pool

section \<open>Connections in the idle queues\<close>

definition streams_of :: "pool \<Rightarrow> stream multiset" where
  "streams_of p = mset (map pc_stream (idle p))"

definition idle_streams :: "pool_manager \<Rightarrow> stream multiset" where
  "idle_streams pm = sum_list (map (streams_of \<circ> snd) (pools pm))"

lemma streams_of_new [simp]: "streams_of pool_new = {#}"
  by (simp add: streams_of_def pool_new_def)

lemma idle_streams_put:
  "get_pool pm k = Some p \<Longrightarrow> idle_streams (put_pool k q pm) + streams_of p = idle_streams pm + streams_of q"
  by (simp add: idle_streams_def put_pool_def get_pool_def sum_update_Some)

lemma idle_streams_upd_pool:
  "get_pool pm k = Some p \<Longrightarrow> idle_streams (upd_pool k f pm) + streams_of p = idle_streams pm + streams_of (f p)"
  by (simp add: upd_pool_def idle_streams_put)

lemma idle_streams_upd_same:
  "(\<And>p. idle (f p) = idle p) \<Longrightarrow> idle_streams (upd_pool k f pm) = idle_streams pm"
proof (cases "get_pool pm k")
  case (Some p)
  assume "\<And>p. idle (f p) = idle p"
  then show ?thesis using idle_streams_upd_pool [OF Some, of f] by (simp add: streams_of_def)
qed (simp add: upd_pool_def)

lemma idle_streams_simps [simp]:
  "idle_streams (ensure_pool k pm) = idle_streams pm"
  "idle_streams (upd_metrics f pm) = idle_streams pm"
  "idle_streams (drop_connection pm) = idle_streams pm"
  "idle_streams ((drop_connection ^^ n) pm) = idle_streams pm"
  "idle_streams (count_timeout k pm) = idle_streams pm"
  "idle_streams (connected k pm) = idle_streams pm"
  "idle_streams (connect_failed k pm) = idle_streams pm"
proof -
  show "idle_streams (ensure_pool k pm) = idle_streams pm"
    by (auto simp: ensure_pool_def idle_streams_def put_pool_def get_pool_def sum_update_None
        split: option.splits)
  show m: "idle_streams (upd_metrics f pm) = idle_streams pm" for f pm
    by (simp add: upd_metrics_def idle_streams_def)
  have t: "idle_streams (pm\<lparr>total_server_connections := w\<rparr>) = idle_streams pm" for w pm
    by (simp add: idle_streams_def)
  show d: "idle_streams (drop_connection pm) = idle_streams pm" for pm
    by (simp add: drop_connection_def m t)
  show "idle_streams ((drop_connection ^^ n) pm) = idle_streams pm"
    by (induction n) (simp_all add: d)
  show "idle_streams (count_timeout k pm) = idle_streams pm"
    by (simp add: count_timeout_def m idle_streams_upd_same)
  show "idle_streams (connected k pm) = idle_streams pm"
    by (simp add: connected_def m t idle_streams_upd_same)
  show "idle_streams (connect_failed k pm) = idle_streams pm"
    by (simp add: connect_failed_def m idle_streams_upd_same)
qed

section \<open>Taking from the idle queue\<close>

definition stale :: "pool_config \<Rightarrow> nat \<Rightarrow> pooled_connection \<Rightarrow> bool" where
  "stale pc now c \<longleftrightarrow> expired pc now c \<or> idle_too_long pc now c"

definition hit :: "pool_key \<Rightarrow> pooled_connection list \<Rightarrow> pool_manager \<Rightarrow> pool_manager" where
  "hit k cs pm =
     upd_metrics (\<lambda>m. m\<lparr>pool_hits_total := pool_hits_total m + 1\<rparr>)
       (upd_pool k (\<lambda>p. p\<lparr>idle := cs, active_count := active_count p + 1,
                        total_acquired := total_acquired p + 1\<rparr>) pm)"

text \<open>
  The loop evicts exactly the longest prefix of stale connections and hands out the first
  connection behind it.
\<close>

lemma pop_idle_closed_form:
  "pop_idle pc now k cs pm =
     (let pm' = (drop_connection ^^ length (takeWhile (stale pc now) cs)) pm
      in case dropWhile (stale pc now) cs of
           [] \<Rightarrow> (None, upd_pool k (\<lambda>p. p\<lparr>idle := []\<rparr>) pm')
         | c # cs' \<Rightarrow> (Some (pc_stream c), hit k cs' pm'))"
  by (induction cs arbitrary: pm)
    (auto simp: stale_def hit_def Let_def funpow_swap1 split: list.split
       simp del: dropWhile_eq_Nil_conv)

lemma take_idle_SomeE:
  assumes "take_idle pc now k pm = (Some s, pm')"
  obtains p evicted c cs where
    "get_pool pm k = Some p" "idle p = evicted @ c # cs" "list_all (stale pc now) evicted"
    "\<not> stale pc now c" "s = pc_stream c" "pm' = hit k cs ((drop_connection ^^ length evicted) pm)"
proof -
  obtain p where p: "get_pool pm k = Some p" and pop: "pop_idle pc now k (idle p) pm = (Some s, pm')"
    using assms by (auto simp: take_idle_def split: option.splits)
  let ?e = "takeWhile (stale pc now) (idle p)"
  obtain c cs where d: "dropWhile (stale pc now) (idle p) = c # cs"
    and r: "s = pc_stream c" "pm' = hit k cs ((drop_connection ^^ length ?e) pm)"
    using pop by (auto simp: pop_idle_closed_form Let_def split: list.splits)
  have "idle p = ?e @ c # cs" by (metis d takeWhile_dropWhile_id)
  moreover have "list_all (stale pc now) ?e" by (auto simp: list_all_iff dest: set_takeWhileD)
  moreover have "\<not> stale pc now c" using d by (simp add: dropWhile_eq_Cons_conv)
  ultimately show ?thesis using that p r by blast
qed

lemma take_idle_NoneE:
  assumes "take_idle pc now k pm = (None, pm')" and "get_pool pm k = Some p"
  shows "list_all (stale pc now) (idle p)"
    and "pm' = upd_pool k (\<lambda>p. p\<lparr>idle := []\<rparr>) ((drop_connection ^^ length (idle p)) pm)"
proof -
  have d: "dropWhile (stale pc now) (idle p) = []"
    and pm': "pm' = upd_pool k (\<lambda>p. p\<lparr>idle := []\<rparr>)
        ((drop_connection ^^ length (takeWhile (stale pc now) (idle p))) pm)"
    using assms by (auto simp: take_idle_def pop_idle_closed_form Let_def split: list.splits)
  show "list_all (stale pc now) (idle p)" using d by (simp add: list_all_iff)
  then have "takeWhile (stale pc now) (idle p) = idle p" by (simp add: takeWhile_eq_all_conv list_all_iff)
  with pm' show "pm' = upd_pool k (\<lambda>p. p\<lparr>idle := []\<rparr>) ((drop_connection ^^ length (idle p)) pm)"
    by metis
qed

text \<open>What a take does to the stock of idle connections and to the counters.\<close>

lemma take_idle_stock:
  assumes "take_idle pc now k pm = (r, pm')"
  shows "\<exists>evicted. idle_streams pm = evicted + (case r of None \<Rightarrow> {#} | Some s \<Rightarrow> {#s#}) + idle_streams pm'
           \<and> total_server_connections pm' = total_server_connections pm - of_nat (size evicted)
           \<and> server_connections_active (pm_metrics pm') =
               server_connections_active (pm_metrics pm) - of_nat (size evicted)"
proof (cases r)
  case None
  show ?thesis
  proof (cases "get_pool pm k")
    case None
    then have "r = None" "pm' = pm" using assms by (simp_all add: take_idle_def)
    then show ?thesis by (intro exI [of _ "{#}"]) simp
  next
    case (Some p)
    have "pm' = upd_pool k (\<lambda>p. p\<lparr>idle := []\<rparr>) ((drop_connection ^^ length (idle p)) pm)"
      using take_idle_NoneE [OF _ Some] assms None by blast
    then show ?thesis
      using idle_streams_upd_pool [of "(drop_connection ^^ length (idle p)) pm" k p "\<lambda>p. p\<lparr>idle := []\<rparr>"] Some None
      by (intro exI [of _ "streams_of p"]) (simp add: streams_of_def ac_simps)
  qed
next
  case (Some s)
  then obtain p evicted c cs where p: "get_pool pm k = Some p" "idle p = evicted @ c # cs"
      "s = pc_stream c" and pm': "pm' = hit k cs ((drop_connection ^^ length evicted) pm)"
    using assms by (auto elim!: take_idle_SomeE)
  let ?f = "\<lambda>p. p\<lparr>idle := cs, active_count := active_count p + 1, total_acquired := total_acquired p + 1\<rparr>"
  have "idle_streams (upd_pool k ?f ((drop_connection ^^ length evicted) pm)) + streams_of p =
        idle_streams pm + streams_of (?f p)"
    using idle_streams_upd_pool [of "(drop_connection ^^ length evicted) pm" k p ?f] p(1) by simp
  then have "idle_streams pm' + mset (map pc_stream evicted) + {#s#} = idle_streams pm"
    using p pm' by (simp add: hit_def streams_of_def ac_simps)
  then show ?thesis using Some pm'
    by (intro exI [of _ "mset (map pc_stream evicted)"]) (simp add: hit_def ac_simps)
qed

lemma take_idle_lookup_other:
  assumes "take_idle pc now k pm = (r, pm')" "k' \<noteq> k"
  shows "get_pool pm' k' = get_pool pm k'"
  using assms by (auto simp: take_idle_def pop_idle_closed_form Let_def hit_def pool_lookup
      split: option.splits list.splits)

lemma take_idle_lookup:
  assumes "take_idle pc now k pm = (r, pm')" "get_pool pm k = Some p"
  shows "\<exists>q. get_pool pm' k = Some q
    \<and> active_count q = active_count p + (case r of None \<Rightarrow> 0 | Some _ \<Rightarrow> 1)"
  using assms by (auto simp: take_idle_def pop_idle_closed_form Let_def hit_def pool_lookup
      split: option.splits list.splits)

section \<open>The capacity check\<close>

lemma check_capacity_stock:
  assumes "check_capacity pc now dl k pm = (d, pm')"
  shows "idle_streams pm' = idle_streams pm"
    and "total_server_connections pm' = total_server_connections pm"
    and "server_connections_active (pm_metrics pm') = server_connections_active (pm_metrics pm)"
    and "map_option active_count (get_pool pm' k') = map_option active_count (get_pool pm k')"
  using assms
  by (auto simp: check_capacity_def Let_def count_timeout_def pool_lookup idle_streams_upd_same
      option.map_comp comp_def split: if_splits)

lemma check_capacity_Create:
  assumes "check_capacity pc now dl k pm = (Create, pm')"
  shows "total_server_connections pm < ucast (max_total_connections pc)"
  using assms by (auto simp: check_capacity_def Let_def split: if_splits)

lemma check_capacity_late: "dl \<le> now \<Longrightarrow> fst (check_capacity pc now dl k pm) \<noteq> Wait"
  by (simp add: check_capacity_def Let_def)

section \<open>Connections lent to clients\<close>

definition outstanding :: "pool_manager \<Rightarrow> u64" where
  "outstanding pm = total_server_connections pm - of_nat (size (idle_streams pm))"

lemma outstanding_take:
  "take_idle pc now k pm = (r, pm') \<Longrightarrow>
     outstanding pm' = outstanding pm + (case r of None \<Rightarrow> 0 | Some _ \<Rightarrow> 1)"
  using take_idle_stock [of pc now k pm r pm']
  by (auto simp: outstanding_def algebra_simps split: option.splits)

lemma outstanding_simps [simp]:
  "outstanding (ensure_pool k pm) = outstanding pm"
  "outstanding (count_timeout k pm) = outstanding pm"
  "outstanding (connected k pm) = outstanding pm + 1"
  "outstanding (connect_failed k pm) = outstanding pm"
  "outstanding (drop_connection pm) = outstanding pm - 1"
  by (simp_all add: outstanding_def) (simp_all add: count_timeout_def connected_def connect_failed_def)

lemma outstanding_check:
  "check_capacity pc now dl k pm = (d, pm') \<Longrightarrow> outstanding pm' = outstanding pm"
  by (simp add: outstanding_def check_capacity_stock)

lemma outstanding_acquire_loop:
  "acquire_loop pc k pw extra dl rs pm = (r, pm') \<Longrightarrow>
     outstanding pm' = outstanding pm + (case r of Ok _ \<Rightarrow> 1 | _ \<Rightarrow> 0)"
proof (induction rs arbitrary: pm)
  case (Cons x rs)
  then show ?case
    by (auto split: prod.splits option.splits decision.splits wake.splits outcome.splits
        dest!: outstanding_take outstanding_check)
qed auto

lemma release_end_stock:
  assumes "get_pool pm k = Some p"
  shows "idle_streams (snd (release_end k s now (Inr u) pm)) = add_mset s (idle_streams pm)"
  using idle_streams_upd_pool [OF assms,
      of "\<lambda>p. p\<lparr>idle := idle p @ [\<lparr>pc_stream = s, created_at = now, last_used = now\<rparr>]\<rparr>"]
  by (simp add: release_end_def streams_of_def)

lemma outstanding_release: "outstanding (release k s now reset pm) = outstanding pm - 1"
proof (cases "get_pool pm k")
  case None
  then show ?thesis by (simp add: release_def release_begin_def)
next
  case (Some p)
  let ?pm = "upd_pool k (\<lambda>p. p\<lparr>active_count := active_count p - 1\<rparr>) pm"
  have *: "outstanding ?pm = outstanding pm" by (simp add: outstanding_def idle_streams_upd_same)
  show ?thesis
  proof (cases reset)
    case (Inl e)
    then show ?thesis using Some * by (simp add: release_def release_begin_def release_end_def)
  next
    case (Inr u)
    have "get_pool ?pm k \<noteq> None" using Some by (simp add: pool_lookup)
    then obtain q where "get_pool ?pm k = Some q" by auto
    then have "outstanding (snd (release_end k s now (Inr u) ?pm)) = outstanding ?pm - 1"
      by (simp add: outstanding_def release_end_stock) (simp add: release_end_def)
    then show ?thesis using Some * Inr by (simp add: release_def release_begin_def)
  qed
qed

record request =
  rq_start :: nat
  rq_rounds :: "round list"
  rq_key :: pool_key
  rq_password :: string
  rq_extra :: "(string \<times> string) list"

definition take_lease :: "config \<Rightarrow> request \<Rightarrow> pool_manager \<Rightarrow> stream outcome \<times> pool_manager" where
  "take_lease cfg q = acquire cfg (rq_start q) (rq_rounds q) (rq_key q) (rq_password q) (rq_extra q)"

definition give_lease :: "request \<Rightarrow> nat \<times> (pg_error + unit) \<Rightarrow> stream \<Rightarrow> pool_manager \<Rightarrow> pool_manager" where
  "give_lease q a s = release (rq_key q) s (fst a) (snd a)"

interpretation pool_lease: lease outstanding "take_lease cfg" give_lease for cfg
proof
  fix q pm s pm'
  assume "take_lease cfg q pm = (Ok s, pm')"
  then show "outstanding pm' = outstanding pm + 1"
    unfolding take_lease_def acquire_def by (drule_tac outstanding_acquire_loop) simp
next
  fix q pm r pm'
  assume "take_lease cfg q pm = (r, pm')" "\<And>s. r \<noteq> Ok s"
  then show "outstanding pm' = outstanding pm"
    unfolding take_lease_def acquire_def
    by (drule_tac outstanding_acquire_loop) (auto split: outcome.splits)
next
  fix q a s pm
  show "outstanding (give_lease q a s pm) = outstanding pm - 1"
    by (simp add: give_lease_def outstanding_release)
qed

theorem sessions_ledger:
  "run_sessions (take_lease cfg) give_lease ss (pool_manager_new m) = (abandoned, pm) \<Longrightarrow>
     total_server_connections pm = of_nat (size (idle_streams pm) + abandoned)
     \<and> (list_all (\<lambda>(q, g). g \<noteq> None) ss \<longrightarrow> abandoned = 0)"
proof
  assume run: "run_sessions (take_lease cfg) give_lease ss (pool_manager_new m) = (abandoned, pm)"
  have "outstanding (pool_manager_new m) = 0"
    by (simp add: outstanding_def pool_manager_new_def idle_streams_def)
  then have "outstanding pm = of_nat abandoned" using pool_lease.lent_sessions [OF run] by simp
  then show "total_server_connections pm = of_nat (size (idle_streams pm) + abandoned)"
    by (simp add: outstanding_def algebra_simps)
  show "list_all (\<lambda>(q, g). g \<noteq> None) ss \<longrightarrow> abandoned = 0"
    using pool_lease.balanced_sessions run by blast
qed

section \<open>What a call returns\<close>

lemma get_pool_hit:
  "get_pool (hit k cs pm) k =
     map_option (\<lambda>p. p\<lparr>idle := cs, active_count := active_count p + 1,
                      total_acquired := total_acquired p + 1\<rparr>) (get_pool pm k)"
  by (simp add: hit_def pool_lookup)

lemma take_idle_fresh:
  assumes "get_pool pm k = Some p" and "idle p = evicted @ c # cs"
    and "list_all (stale pc now) evicted" and "\<not> stale pc now c"
  shows "take_idle pc now k pm = (Some (pc_stream c), hit k cs ((drop_connection ^^ length evicted) pm))"
proof -
  have "takeWhile (stale pc now) (idle p) = evicted" "dropWhile (stale pc now) (idle p) = c # cs"
    using assms(2-4) by (simp_all add: takeWhile_append2 dropWhile_append2 list_all_iff)
  then show ?thesis using assms(1) by (simp add: take_idle_def pop_idle_closed_form)
qed

lemma take_idle_none:
  assumes "get_pool pm k = Some p" and "list_all (stale pc now) (idle p)"
  shows "take_idle pc now k pm =
    (None, upd_pool k (\<lambda>p. p\<lparr>idle := []\<rparr>) ((drop_connection ^^ length (idle p)) pm))"
proof -
  have "takeWhile (stale pc now) (idle p) = idle p" "dropWhile (stale pc now) (idle p) = []"
    using assms(2) by (simp_all add: takeWhile_eq_all_conv list_all_iff)
  then show ?thesis using assms(1)
    by (simp add: take_idle_def pop_idle_closed_form del: takeWhile_eq_all_conv dropWhile_eq_Nil_conv)
qed

lemma ensure_pool_present: "get_pool pm k = Some p \<Longrightarrow> ensure_pool k pm = pm"
  by (simp add: ensure_pool_def)

text \<open>
  C32. acquire evicts exactly the stale connections at the head of the idle queue and returns the
  first fresh one without connecting, whatever password the caller presents; counters move
  accordingly and other pools are untouched.
\<close>

theorem acquire_reuses_first_fresh:
  assumes "get_pool pm k = Some p" and "idle p = evicted @ c # cs"
    and "list_all (stale (pool_cfg cfg) (r_now r)) evicted"
    and "\<not> stale (pool_cfg cfg) (r_now r) c"
  shows "\<exists>pm'. acquire cfg start (r # rs) k pw extra pm = (Ok (pc_stream c), pm')
    \<and> get_pool pm' k = Some (p\<lparr>idle := cs, active_count := active_count p + 1,
                             total_acquired := total_acquired p + 1\<rparr>)
    \<and> total_server_connections pm' = total_server_connections pm - of_nat (length evicted)
    \<and> (\<forall>k'. k' \<noteq> k \<longrightarrow> get_pool pm' k' = get_pool pm k')"
  using take_idle_fresh [OF assms] assms(1)
  by (simp add: acquire_def ensure_pool_present get_pool_hit) (simp add: hit_def pool_lookup)

theorem acquire_creates:
  assumes "get_pool pm k = Some p" and "list_all (stale (pool_cfg cfg) (r_now r)) (idle p)"
    and "total_server_connections pm - of_nat (length (idle p)) < ucast (max_total_connections (pool_cfg cfg))"
    and "active_count p < ucast (max_connections_per_pool (pool_cfg cfg))"
  shows "case r_connect r k pw extra of
      Ok s \<Rightarrow> \<exists>pm'. acquire cfg start (r # rs) k pw extra pm = (Ok s, pm')
        \<and> total_server_connections pm' = total_server_connections pm - of_nat (length (idle p)) + 1
        \<and> get_pool pm' k = Some (p\<lparr>idle := [], active_count := active_count p + 1,
                                 total_acquired := total_acquired p + 1\<rparr>)
    | Err e \<Rightarrow> \<exists>pm'. acquire cfg start (r # rs) k pw extra pm = (Err (FailedToConnect (display_key k) e), pm')
        \<and> total_server_connections pm' = total_server_connections pm - of_nat (length (idle p))
        \<and> get_pool pm' k = Some (p\<lparr>idle := [], total_errors := total_errors p + 1\<rparr>)
    | out \<Rightarrow> \<exists>pm'. acquire cfg start (r # rs) k pw extra pm = (out, pm')
        \<and> total_server_connections pm' = total_server_connections pm - of_nat (length (idle p))
        \<and> get_pool pm' k = Some (p\<lparr>idle := []\<rparr>)"
  using take_idle_none [OF assms(1,2)] assms(1,3,4)
  by (auto simp: acquire_def ensure_pool_present check_capacity_def Let_def pool_lookup
      connected_def connect_failed_def not_le get_pool_def [of "_\<lparr>total_server_connections := _\<rparr>"]
      get_pool_def [symmetric] split: outcome.splits)

text \<open>
  When every attempt to connect returns, a call has returned by the first pass that starts at or
  after the deadline. The deadline does not bound the attempt itself: against a server that never
  answers, the call never returns.
\<close>

definition connects_return :: "pool_key \<Rightarrow> string \<Rightarrow> (string \<times> string) list \<Rightarrow> round list \<Rightarrow> bool" where
  "connects_return k pw extra rs \<longleftrightarrow> list_all (\<lambda>r. r_connect r k pw extra \<notin> {Panic, Pending}) rs"

lemma acquire_loop_returns:
  "connects_return k pw extra rs \<Longrightarrow> \<exists>r\<in>set rs. dl \<le> r_now r \<Longrightarrow>
     fst (acquire_loop pc k pw extra dl rs pm) \<notin> {Panic, Pending}"
proof (induction rs arbitrary: pm)
  case (Cons r rs)
  obtain h pm1 where t: "take_idle pc (r_now r) k pm = (h, pm1)" by fastforce
  obtain d pm2 where c: "check_capacity pc (r_now r) dl k pm1 = (d, pm2)" by fastforce
  have "d = Wait \<Longrightarrow> \<not> dl \<le> r_now r" using check_capacity_late [of dl "r_now r" pc k pm1] c by auto
  then show ?case
    using Cons t c by (auto simp: connects_return_def split: option.splits decision.splits wake.splits outcome.splits)
qed simp

text \<open>
  C33. If every attempt to connect returns, acquire has returned a connection or an error, without
  a panic, by the first pass of its loop at or after the deadline.
\<close>

theorem acquire_returns_by_deadline:
  assumes "r \<in> set rounds" "connects_return k pw extra rounds"
    and "start + millis (acquire_timeout_ms (pool_cfg cfg)) \<le> r_now r"
  shows "\<exists>s. fst (acquire cfg start rounds k pw extra pm) \<in> {Ok s} \<union> range Err"
proof -
  let ?o = "fst (acquire cfg start rounds k pw extra pm)"
  have "?o \<notin> {Panic, Pending}" using acquire_loop_returns [OF assms(2)] assms(1,3) by (auto simp: acquire_def)
  then show ?thesis by (cases ?o) auto
qed

text \<open>Pools are never removed.\<close>

lemma get_pool_total [simp]: "get_pool (pm\<lparr>total_server_connections := x\<rparr>) k = get_pool pm k"
  by (simp add: get_pool_def)

lemma pools_stay:
  "acquire_loop pc k pw ex dl rs pm = (r, pm') \<Longrightarrow> get_pool pm k' \<noteq> None \<Longrightarrow> get_pool pm' k' \<noteq> None"
proof (induction rs arbitrary: pm)
  case (Cons x rs)
  obtain h pm1 where t: "take_idle pc (r_now x) k pm = (h, pm1)" by fastforce
  have 1: "get_pool pm1 k' \<noteq> None"
    using take_idle_lookup_other [OF t, of k'] take_idle_lookup [OF t] Cons.prems(2) by (cases "k' = k") auto
  obtain d pm2 where c: "check_capacity pc (r_now x) dl k pm1 = (d, pm2)" by fastforce
  have 2: "get_pool pm2 k' \<noteq> None"
    using check_capacity_stock(4) [OF c, of k'] 1 by (metis option.map_disc_iff)
  then show ?case
    using Cons t c 1
    by (auto simp: connected_def connect_failed_def count_timeout_def pool_lookup
        split: option.splits decision.splits wake.splits outcome.splits)
qed simp

lemma acquire_keeps_pool: "acquire cfg st rs k pw ex pm = (r, pm') \<Longrightarrow> get_pool pm' k \<noteq> None"
  unfolding acquire_def by (drule pools_stay [of _ _ _ _ _ _ _ _ _ k]) (simp_all add: get_ensure_pool)

text \<open>No connection of the key is pooled and both limits leave room: the first pass connects.\<close>

definition vacant :: "pool_config \<Rightarrow> pool_key \<Rightarrow> pool_manager \<Rightarrow> bool" where
  "vacant pc k pm \<longleftrightarrow> total_server_connections pm < ucast (max_total_connections pc)
     \<and> (case get_pool pm k of
          None \<Rightarrow> 0 < max_connections_per_pool pc
        | Some p \<Rightarrow> idle p = [] \<and> active_count p < ucast (max_connections_per_pool pc))"

lemma ucast_u32_pos: "0 < x \<Longrightarrow> 0 < (ucast (x :: u32) :: u64)"
  using unat_less_pow [of x]
  by (simp add: word_less_nat_alt unsigned_ucast_eq take_bit_nat_eq_self)

lemma vacant_pass:
  assumes "vacant pc k pm"
  obtains p where "get_pool (ensure_pool k pm) k = Some p" "idle p = []"
    "\<And>now. take_idle pc now k (ensure_pool k pm) = (None, upd_pool k (\<lambda>p. p\<lparr>idle := []\<rparr>) (ensure_pool k pm))"
    "\<And>now dl. check_capacity pc now dl k (upd_pool k (\<lambda>p. p\<lparr>idle := []\<rparr>) (ensure_pool k pm)) =
       (Create, upd_metrics (\<lambda>m. m\<lparr>pool_misses_total := pool_misses_total m + 1\<rparr>)
         (upd_pool k (\<lambda>p. p\<lparr>idle := []\<rparr>) (ensure_pool k pm)))"
proof -
  obtain p where p: "get_pool (ensure_pool k pm) k = Some p" "idle p = []" "active_count p < ucast (max_connections_per_pool pc)"
    using assms by (auto simp: vacant_def get_ensure_pool pool_new_def ucast_u32_pos split: option.splits)
  then show thesis
    using that assms by (simp add: take_idle_def check_capacity_def Let_def pool_lookup vacant_def not_le)
qed

lemma acquire_vacant:
  assumes "vacant (pool_cfg cfg) k pm"
  shows "fst (acquire cfg st (r # rs) k pw ex pm) =
    (case r_connect r k pw ex of
       Ok s \<Rightarrow> Ok s | Err e \<Rightarrow> Err (FailedToConnect (display_key k) e) | Panic \<Rightarrow> Panic | Pending \<Rightarrow> Pending)"
  by (rule vacant_pass [OF assms]) (simp add: acquire_def split: outcome.split)

lemma acquire_vacant_queue:
  assumes "vacant (pool_cfg cfg) k pm"
  shows "\<exists>p. get_pool (snd (acquire cfg st (r # rs) k pw ex pm)) k = Some p \<and> idle p = []"
  by (rule vacant_pass [OF assms]) (auto simp: acquire_def connected_def connect_failed_def pool_lookup split: outcome.split)

section \<open>Returning and taking again\<close>

text \<open>
  A connection returned to an empty queue is the one the next call for its key gets, as long as
  it has not been idle for too long, however long ago it was opened: its age restarts when it is
  returned.
\<close>

lemma returned_connection_reused:
  assumes "get_pool pm k = Some p" and "idle p = []"
    and "now \<le> r_now r"
    and "r_now r - now \<le> secs (idle_timeout_secs (pool_cfg cfg))"
    and "r_now r - now \<le> secs (max_connection_lifetime_secs (pool_cfg cfg))"
  shows "\<exists>pm'. acquire cfg start (r # rs) k pw extra (release k s now (Inr ()) pm) = (Ok s, pm')
    \<and> total_server_connections pm' = total_server_connections pm
    \<and> map_option active_count (get_pool pm' k) = Some (active_count p)"
proof -
  let ?c = "\<lparr>pc_stream = s, created_at = now, last_used = now\<rparr>"
  let ?pm = "release k s now (Inr ()) pm"
  let ?p = "p\<lparr>active_count := active_count p - 1, idle := [?c]\<rparr>"
  have "get_pool ?pm k = Some ?p"
    using assms(1,2) by (simp add: release_def release_begin_def release_end_def pool_lookup)
  moreover have "\<not> stale (pool_cfg cfg) (r_now r) ?c"
    using assms(3-5) by (simp add: stale_def expired_def idle_too_long_def)
  ultimately obtain pm' where
    "acquire cfg start (r # rs) k pw extra ?pm = (Ok s, pm')"
    "get_pool pm' k = Some (?p\<lparr>idle := [], active_count := active_count ?p + 1,
                             total_acquired := total_acquired ?p + 1\<rparr>)"
    "total_server_connections pm' = total_server_connections ?pm"
    using take_idle_fresh [of ?pm k ?p "[]" ?c "[]" "pool_cfg cfg" "r_now r"]
    by (simp add: acquire_def ensure_pool_present get_pool_hit) (simp add: hit_def)
  moreover have "total_server_connections ?pm = total_server_connections pm"
    using assms(1) by (simp add: release_def release_begin_def release_end_def)
  ultimately show ?thesis by simp
qed

theorem release_then_acquire:
  assumes "get_pool pm k = Some p" and "idle p = []"
    and "now \<le> r_now r"
    and "r_now r - now \<le> secs (idle_timeout_secs (pool_cfg cfg))"
    and "r_now r - now \<le> secs (max_connection_lifetime_secs (pool_cfg cfg))"
  shows "\<exists>pm'. acquire cfg start (r # rs) k pw extra (release k s now (Inr ()) pm) = (Ok s, pm')
    \<and> total_server_connections pm' = total_server_connections pm
    \<and> map_option active_count (get_pool pm' k) = Some (active_count p)"
  by (rule returned_connection_reused [OF assms])

section \<open>Instances\<close>

definition key0 :: pool_key where
  "key0 = \<lparr>pk_host = ''db'', pk_port = 5432, pk_database = ''app'', pk_user = ''alice''\<rparr>"

definition sample_pool :: pool where
  "sample_pool = \<lparr>idle = [\<lparr>pc_stream = 4, created_at = 0, last_used = 0\<rparr>,
                         \<lparr>pc_stream = 5, created_at = 900000000000, last_used = 900000000000\<rparr>],
                  active_count = 0, total_acquired = 2, total_errors = 0\<rparr>"

definition sample_manager :: "pool \<Rightarrow> pool_manager" where
  "sample_manager p = \<lparr>pools = [(key0, p)], total_server_connections = 2, pm_metrics = metrics_new\<rparr>"

definition one_round :: "nat \<Rightarrow> round" where
  "one_round now = \<lparr>r_now = now, r_wake = TimedOut, r_connect = (\<lambda>_ _ _. Ok 9)\<rparr>"

lemma stale_default:
  "stale (pool_cfg default_config) now c \<longleftrightarrow> 3600000000000 < now - created_at c \<or> 300000000000 < now - last_used c"
  by (simp add: stale_def expired_def idle_too_long_def secs_def default_config_def default_pool_config_def)

lemma acquire_reuses_first_fresh_witness:
  "\<exists>pm'. acquire default_config 0 [one_round 1000000000000] key0 ''pw'' [] (sample_manager sample_pool) = (Ok 5, pm')
    \<and> total_server_connections pm' = 1"
proof -
  have "get_pool (sample_manager sample_pool) key0 = Some sample_pool"
    by (simp add: sample_manager_def get_pool_def)
  from acquire_reuses_first_fresh [OF this, where evicted = "[\<lparr>pc_stream = 4, created_at = 0, last_used = 0\<rparr>]"
      and c = "\<lparr>pc_stream = 5, created_at = 900000000000, last_used = 900000000000\<rparr>" and cs = "[]"
      and cfg = default_config and r = "one_round 1000000000000" and start = 0 and rs = "[]"
      and pw = "''pw''" and extra = "[]"]
  show ?thesis by (auto simp: stale_default sample_pool_def sample_manager_def one_round_def)
qed

lemma acquire_creates_witness:
  "\<exists>pm'. acquire default_config 0 [one_round 0] key0 ''pw'' [] (sample_manager pool_new) = (Ok 9, pm')
    \<and> total_server_connections pm' = 3"
proof -
  have "get_pool (sample_manager pool_new) key0 = Some pool_new"
    by (simp add: sample_manager_def get_pool_def)
  from acquire_creates [OF this, where cfg = default_config and r = "one_round 0" and pw = "''pw''" and extra = "[]"
      and start = 0 and rs = "[]"]
  show ?thesis
    by (auto simp: pool_new_def sample_manager_def one_round_def default_config_def default_pool_config_def
        word_less_nat_alt)
qed

lemma acquire_returns_by_deadline_witness:
  "\<exists>s. fst (acquire default_config 0 [one_round 6000000000] key0 ''pw'' [] (sample_manager sample_pool)) \<in> {Ok s} \<union> range Err"
  by (rule acquire_returns_by_deadline [of "one_round 6000000000"])
    (simp_all add: connects_return_def one_round_def millis_def default_config_def default_pool_config_def)

lemma release_then_acquire_witness:
  "\<exists>pm'. acquire default_config 0 [one_round 1000] key0 ''pw'' []
      (release key0 7 0 (Inr ()) (sample_manager (pool_new\<lparr>active_count := 1\<rparr>))) = (Ok 7, pm')"
proof -
  have "get_pool (sample_manager (pool_new\<lparr>active_count := 1\<rparr>)) key0 = Some (pool_new\<lparr>active_count := 1\<rparr>)"
    by (simp add: sample_manager_def get_pool_def)
  from release_then_acquire [OF this, where now = 0 and r = "one_round 1000" and cfg = default_config and start = 0
      and rs = "[]" and pw = "''pw''" and extra = "[]" and s = 7]
  show ?thesis
    by (auto simp: pool_new_def one_round_def secs_def default_config_def default_pool_config_def)
qed

lemma sessions_ledger_witness:
  "\<exists>abandoned pm. run_sessions (take_lease default_config) give_lease
      [(\<lparr>rq_start = 0, rq_rounds = [one_round 0], rq_key = key0, rq_password = ''pw'', rq_extra = []\<rparr>, None)]
      (pool_manager_new metrics_new) = (abandoned, pm)
    \<and> total_server_connections pm = of_nat (size (idle_streams pm) + abandoned)"
  using sessions_ledger by (metis surj_pair)

end
