(* ===== verification/Pool_Tasks.thy ===== *)
theory Pool_Tasks
  imports Pool
begin

text \<open>
  Concurrent callers of \<^verbatim>\<open>PoolManager\<close> (\<^verbatim>\<open>src/pool/mod.rs\<close>, called from
  \<^verbatim>\<open>src/protocol/frontend.rs\<close>): one task per client, interleaved at the points where \<^verbatim>\<open>acquire\<close> and
  \<^verbatim>\<open>release\<close> can be suspended or touch shared state. Each rule runs one of the operations of
  \<open>Pool\<close>: the idle scan is atomic (it holds the queue's lock), the capacity check is a separate
  step, the connect and the reset are awaited in between. Three simplifications of the interleaving: the
  loads of a capacity check are one snapshot, with one reading of the clock per pass; the counter updates
  that follow each other without an \<^verbatim>\<open>await\<close> (in \<open>take_idle\<close>, \<open>connected\<close>, \<open>release_begin\<close> and \<open>release_end\<close>) are one
  step; so states between two such updates, which other threads could observe, do not occur.

  A task that holds a connection releases it or abandons it (the \<^verbatim>\<open>?\<close> returns of \<^verbatim>\<open>handle_client\<close>
  drop the stream without \<^verbatim>\<open>release\<close>). A waiting task may be woken at any moment. A connect or a reset
  that never returns, or a connect that panics, leaves its task \<open>Connecting\<close> or \<open>Resetting\<close>: neither
  touches the shared state any more.
  The operating system never hands out a descriptor that is still open: a new stream is not among
  the live ones.
\<close>

datatype task =
    Starting pool_key
  | Looping pool_key nat
  | Checking pool_key nat
  | Waiting pool_key nat
  | Connecting pool_key
  | Holding pool_key stream
  | Resetting pool_key stream
  | Abandoned pool_key
  | Finished

record world =
  mgr :: pool_manager
  tasks :: "task list"

definition world_new :: "metrics \<Rightarrow> world" where
  "world_new m = \<lparr>mgr = pool_manager_new m, tasks = []\<rparr>"

fun task_streams :: "task \<Rightarrow> stream multiset" where
  "task_streams (Holding k s) = {#s#}"
| "task_streams (Resetting k s) = {#s#}"
| "task_streams _ = {#}"

fun abandoned_weight :: "task \<Rightarrow> nat" where
  "abandoned_weight (Abandoned k) = 1"
| "abandoned_weight _ = 0"

fun connecting_weight :: "task \<Rightarrow> nat" where
  "connecting_weight (Connecting k) = 1"
| "connecting_weight _ = 0"

fun active_weight :: "pool_key \<Rightarrow> task \<Rightarrow> nat" where
  "active_weight k (Holding k' s) = (if k' = k then 1 else 0)"
| "active_weight k (Abandoned k') = (if k' = k then 1 else 0)"
| "active_weight k _ = 0"

definition live_streams :: "world \<Rightarrow> stream multiset" where
  "live_streams w = idle_streams (mgr w) + sum_list (map task_streams (tasks w))"

definition abandoned :: "world \<Rightarrow> nat" where
  "abandoned w = sum_list (map abandoned_weight (tasks w))"

definition connecting :: "world \<Rightarrow> nat" where
  "connecting w = sum_list (map connecting_weight (tasks w))"

definition become :: "nat \<Rightarrow> task \<Rightarrow> pool_manager \<Rightarrow> world \<Rightarrow> world" where
  "become i t pm w = \<lparr>mgr = pm, tasks = (tasks w)[i := t]\<rparr>"

definition at_task :: "world \<Rightarrow> nat \<Rightarrow> task \<Rightarrow> bool" where
  "at_task w i t \<longleftrightarrow> i < length (tasks w) \<and> tasks w ! i = t"

inductive step :: "pool_config \<Rightarrow> world \<Rightarrow> world \<Rightarrow> bool" for pc where
  spawn: "step pc w (w\<lparr>tasks := tasks w @ [Starting k]\<rparr>)"
| start: "at_task w i (Starting k) \<Longrightarrow>
    step pc w (become i (Looping k (now + millis (acquire_timeout_ms pc))) (ensure_pool k (mgr w)) w)"
| hit: "at_task w i (Looping k dl) \<Longrightarrow> take_idle pc now k (mgr w) = (Some s, pm) \<Longrightarrow>
    step pc w (become i (Holding k s) pm w)"
| miss: "at_task w i (Looping k dl) \<Longrightarrow> take_idle pc now k (mgr w) = (None, pm) \<Longrightarrow>
    step pc w (become i (Checking k dl) pm w)"
| bail: "at_task w i (Checking k dl) \<Longrightarrow> check_capacity pc now dl k (mgr w) = (Bail e, pm) \<Longrightarrow>
    step pc w (become i Finished pm w)"
| wait: "at_task w i (Checking k dl) \<Longrightarrow> check_capacity pc now dl k (mgr w) = (Wait, pm) \<Longrightarrow>
    step pc w (become i (Waiting k dl) pm w)"
| create: "at_task w i (Checking k dl) \<Longrightarrow> check_capacity pc now dl k (mgr w) = (Create, pm) \<Longrightarrow>
    step pc w (become i (Connecting k) pm w)"
| notified: "at_task w i (Waiting k dl) \<Longrightarrow> step pc w (become i (Looping k dl) (mgr w) w)"
| timed_out: "at_task w i (Waiting k dl) \<Longrightarrow> step pc w (become i Finished (count_timeout k (mgr w)) w)"
| connect_ok: "at_task w i (Connecting k) \<Longrightarrow> s \<notin># live_streams w \<Longrightarrow>
    step pc w (become i (Holding k s) (connected k (mgr w)) w)"
| connect_err: "at_task w i (Connecting k) \<Longrightarrow>
    step pc w (become i Finished (connect_failed k (mgr w)) w)"
| abandon: "at_task w i (Holding k s) \<Longrightarrow> step pc w (become i (Abandoned k) (mgr w) w)"
| release_unknown: "at_task w i (Holding k s) \<Longrightarrow> release_begin k (mgr w) = (False, pm) \<Longrightarrow>
    step pc w (become i Finished pm w)"
| release_known: "at_task w i (Holding k s) \<Longrightarrow> release_begin k (mgr w) = (True, pm) \<Longrightarrow>
    step pc w (become i (Resetting k s) pm w)"
| reset: "at_task w i (Resetting k s) \<Longrightarrow> release_end k s now res (mgr w) = (b, pm) \<Longrightarrow>
    step pc w (become i Finished pm w)"

text \<open>Runs in which at most \<open>b\<close> tasks are connecting at the same time.\<close>

inductive run :: "pool_config \<Rightarrow> nat \<Rightarrow> world \<Rightarrow> world \<Rightarrow> bool" for pc b where
  here: "run pc b w w"
| further: "run pc b w w' \<Longrightarrow> step pc w' w'' \<Longrightarrow> connecting w'' \<le> b \<Longrightarrow> run pc b w w''"

inductive_cases stepE: "step pc w w'"

section \<open>Bookkeeping of one changed task\<close>

lemma sum_list_map_upd:
  fixes f :: "'t \<Rightarrow> 'm :: comm_monoid_add"
  shows "i < length ts \<Longrightarrow> sum_list (map f (ts[i := t])) + f (ts ! i) = sum_list (map f ts) + f t"
  by (induction ts arbitrary: i) (auto simp: ac_simps nth_Cons split: nat.splits)

lemma live_become:
  "at_task w i t \<Longrightarrow>
     live_streams (become i t' pm w) + task_streams t + idle_streams (mgr w) =
       live_streams w + task_streams t' + idle_streams pm"
  using sum_list_map_upd [of i "tasks w" task_streams t']
  by (auto simp: live_streams_def become_def at_task_def ac_simps)

lemma abandoned_become:
  "at_task w i t \<Longrightarrow> abandoned (become i t' pm w) + abandoned_weight t = abandoned w + abandoned_weight t'"
  using sum_list_map_upd [of i "tasks w" abandoned_weight t']
  by (auto simp: abandoned_def become_def at_task_def)

lemma connecting_become:
  "at_task w i t \<Longrightarrow> connecting (become i t' pm w) + connecting_weight t = connecting w + connecting_weight t'"
  using sum_list_map_upd [of i "tasks w" connecting_weight t']
  by (auto simp: connecting_def become_def at_task_def)

lemma mgr_become [simp]: "mgr (become i t pm w) = pm"
  by (simp add: become_def)

section \<open>Every step balances\<close>

text \<open>
  \<open>balance w w' new gone\<close>: the step opened the connections \<open>new\<close> and closed or lost track of the
  connections \<open>gone\<close>, and the counter and the gauge moved by exactly the difference, up to the
  connections that were abandoned.
\<close>

definition gauge :: "pool_manager \<Rightarrow> i64" where
  "gauge pm = server_connections_active (pm_metrics pm)"

definition balance :: "world \<Rightarrow> world \<Rightarrow> stream multiset \<Rightarrow> stream multiset \<Rightarrow> bool" where
  "balance w w' new gone \<longleftrightarrow>
     live_streams w' + gone = live_streams w + new
     \<and> total_server_connections (mgr w') + of_nat (size gone) + of_nat (abandoned w) =
         total_server_connections (mgr w) + of_nat (size new) + of_nat (abandoned w')
     \<and> gauge (mgr w') - total_server_connections (mgr w') = gauge (mgr w) - total_server_connections (mgr w)
     \<and> abandoned w' \<le> abandoned w + size gone"

lemma cancel_shared:
  fixes a :: "'m :: cancel_comm_monoid_add"
  assumes "a + t + i = l + t' + i'" and "i + t + n = i' + t' + g"
  shows "a + g = l + n"
proof -
  have "(a + g) + (i' + t') = a + (i + t + n)" using assms(2) by (simp add: ac_simps)
  also have "\<dots> = (a + t + i) + n" by (simp add: ac_simps)
  also have "\<dots> = (l + n) + (i' + t')" unfolding assms(1) by (simp add: ac_simps)
  finally show ?thesis by (rule add_right_imp_eq)
qed

lemma cancel_weights:
  fixes a :: "'m :: cancel_comm_monoid_add"
  assumes "a' + x = a + y" and "t' + x = t + y"
  shows "t' + a = t + a'"
proof -
  have "(t' + a) + y = t' + (a' + x)" using assms(1) by (simp add: ac_simps)
  also have "\<dots> = (t' + x) + a'" by (simp add: ac_simps)
  also have "\<dots> = (t + a') + y" unfolding assms(2) by (simp add: ac_simps)
  finally show ?thesis by (rule add_right_imp_eq)
qed

lemma become_balance:
  assumes "at_task w i t"
    and "idle_streams (mgr w) + task_streams t + new = idle_streams pm + task_streams t' + gone"
    and "total_server_connections pm + of_nat (size gone) + of_nat (abandoned_weight t) =
           total_server_connections (mgr w) + of_nat (size new) + of_nat (abandoned_weight t')"
    and "gauge pm - total_server_connections pm = gauge (mgr w) - total_server_connections (mgr w)"
    and "abandoned_weight t' \<le> abandoned_weight t + size gone"
  shows "balance w (become i t' pm w) new gone"
proof -
  have "live_streams (become i t' pm w) + gone = live_streams w + new"
    by (rule cancel_shared [OF live_become [OF assms(1), of t' pm] assms(2)])
  moreover have "of_nat (abandoned (become i t' pm w)) + of_nat (abandoned_weight t) =
      (of_nat (abandoned w) + of_nat (abandoned_weight t') :: u64)"
    using arg_cong [OF abandoned_become [OF assms(1), of t' pm], of "of_nat :: nat \<Rightarrow> u64"] by simp
  note cancel_weights [OF this assms(3)]
  moreover have "abandoned (become i t' pm w) \<le> abandoned w + size gone"
    using abandoned_become [OF assms(1), of t' pm] assms(5) by linarith
  ultimately show ?thesis using assms(4) by (simp add: balance_def)
qed

lemma pool_op_fields [simp]:
  "total_server_connections (count_timeout k pm) = total_server_connections pm"
  "total_server_connections (connected k pm) = total_server_connections pm + 1"
  "total_server_connections (connect_failed k pm) = total_server_connections pm"
  "gauge (count_timeout k pm) = gauge pm"
  "gauge (connected k pm) = gauge pm + 1"
  "gauge (connect_failed k pm) = gauge pm"
  "gauge (ensure_pool k pm) = gauge pm"
  "gauge (upd_pool k f pm) = gauge pm"
  "gauge (drop_connection pm) = gauge pm - 1"
  by (simp_all add: count_timeout_def connected_def connect_failed_def gauge_def)

fun task_key :: "task \<Rightarrow> pool_key option" where
  "task_key (Looping k dl) = Some k"
| "task_key (Checking k dl) = Some k"
| "task_key (Waiting k dl) = Some k"
| "task_key (Connecting k) = Some k"
| "task_key (Holding k s) = Some k"
| "task_key (Resetting k s) = Some k"
| "task_key (Abandoned k) = Some k"
| "task_key _ = None"

definition pools_known :: "world \<Rightarrow> bool" where
  "pools_known w \<longleftrightarrow> (\<forall>t\<in>set (tasks w). \<forall>k. task_key t = Some k \<longrightarrow> get_pool (mgr w) k \<noteq> None)"

lemma pools_knownD:
  "pools_known w \<Longrightarrow> at_task w i t \<Longrightarrow> task_key t = Some k \<Longrightarrow> \<exists>p. get_pool (mgr w) k = Some p"
  by (auto simp: pools_known_def at_task_def dest: nth_mem)

lemma take_idle_balance:
  assumes "take_idle pc now k pm = (r, pm')"
  obtains gone where
    "idle_streams pm = gone + (case r of None \<Rightarrow> {#} | Some s \<Rightarrow> {#s#}) + idle_streams pm'"
    "total_server_connections pm' + of_nat (size gone) = total_server_connections pm"
    "gauge pm' - total_server_connections pm' = gauge pm - total_server_connections pm"
proof -
  obtain gone where "idle_streams pm = gone + (case r of None \<Rightarrow> {#} | Some s \<Rightarrow> {#s#}) + idle_streams pm'"
    and "total_server_connections pm' = total_server_connections pm - of_nat (size gone)"
    and "server_connections_active (pm_metrics pm') = server_connections_active (pm_metrics pm) - of_nat (size gone)"
    using take_idle_stock [OF assms] by blast
  then show ?thesis using that [of gone] by (simp add: gauge_def)
qed

lemma release_end_balance:
  assumes "release_end k s now res pm = (b, pm')" "get_pool pm k = Some p"
  shows "idle_streams pm + {#s#} = idle_streams pm' + (if b then {#} else {#s#})"
    and "total_server_connections pm' + (if b then 0 else 1) = total_server_connections pm"
    and "gauge pm' - total_server_connections pm' = gauge pm - total_server_connections pm"
  using assms release_end_stock [OF assms(2), of s now]
  by (auto simp: release_end_def split: sum.splits)

lemma step_balance:
  assumes "step pc w w'" "pools_known w"
  shows "\<exists>new gone. balance w w' new gone \<and> (\<forall>s. s \<in># new \<longrightarrow> s \<notin># live_streams w) \<and> size new \<le> 1
    \<and> connecting w' + size new \<le> connecting w +
        (if total_server_connections (mgr w) < ucast (max_total_connections pc) then 1 else 0)
    \<and> (new = {#} \<or> connecting w' + 1 = connecting w)"
    (is "\<exists>new gone. ?P new gone")
  using assms(1)
proof (cases rule: step.cases)
  case (spawn k)
  then have "?P {#} {#}" by (simp add: balance_def live_streams_def abandoned_def connecting_def)
  then show ?thesis by blast
next
  case (start i k now)
  then have "?P {#} {#}" using connecting_become [OF start(2)] by (simp add: become_balance)
  then show ?thesis by blast
next
  case (hit i k dl now s pm)
  obtain gone where "idle_streams (mgr w) = gone + {#s#} + idle_streams pm"
      "total_server_connections pm + of_nat (size gone) = total_server_connections (mgr w)"
      "gauge pm - total_server_connections pm = gauge (mgr w) - total_server_connections (mgr w)"
    using take_idle_balance [OF hit(3)] by auto
  then have "balance w w' {#} gone" unfolding hit(1)
    by (intro become_balance [OF hit(2)]) (simp_all add: ac_simps)
  then have "?P {#} gone" using connecting_become [OF hit(2)] hit(1) by simp
  then show ?thesis by blast
next
  case (miss i k dl now pm)
  obtain gone where "idle_streams (mgr w) = gone + idle_streams pm"
      "total_server_connections pm + of_nat (size gone) = total_server_connections (mgr w)"
      "gauge pm - total_server_connections pm = gauge (mgr w) - total_server_connections (mgr w)"
    using take_idle_balance [OF miss(3)] by auto
  then have "balance w w' {#} gone" unfolding miss(1)
    by (intro become_balance [OF miss(2)]) (simp_all add: ac_simps)
  then have "?P {#} gone" using connecting_become [OF miss(2)] miss(1) by simp
  then show ?thesis by blast
next
  case (bail i k dl now e pm)
  note c = check_capacity_stock [OF bail(3)]
  have "?P {#} {#}" unfolding bail(1) using connecting_become [OF bail(2)]
    by (auto simp: c gauge_def intro!: become_balance [OF bail(2)])
  then show ?thesis by blast
next
  case (wait i k dl now pm)
  note c = check_capacity_stock [OF wait(3)]
  have "?P {#} {#}" unfolding wait(1) using connecting_become [OF wait(2)]
    by (auto simp: c gauge_def intro!: become_balance [OF wait(2)])
  then show ?thesis by blast
next
  case (create i k dl now pm)
  note c = check_capacity_stock [OF create(3)]
  have "?P {#} {#}" unfolding create(1)
    using connecting_become [OF create(2), of "Connecting k" pm] check_capacity_Create [OF create(3)]
    by (auto simp: c gauge_def intro!: become_balance [OF create(2)])
  then show ?thesis by blast
next
  case (notified i k dl)
  then have "?P {#} {#}" using connecting_become [OF notified(2)] by (simp add: become_balance)
  then show ?thesis by blast
next
  case (timed_out i k dl)
  then have "?P {#} {#}" using connecting_become [OF timed_out(2)] by (simp add: become_balance)
  then show ?thesis by blast
next
  case (connect_ok i k s)
  then have "balance w w' {#s#} {#}" by (auto intro!: become_balance [OF connect_ok(2)])
  then have "?P {#s#} {#}" unfolding connect_ok(1)
    using connecting_become [OF connect_ok(2), of "Holding k s" "connected k (mgr w)"] connect_ok(3) by auto
  then show ?thesis by blast
next
  case (connect_err i k)
  then have "?P {#} {#}"
    using connecting_become [OF connect_err(2), of Finished "connect_failed k (mgr w)"] by (simp add: become_balance)
  then show ?thesis by blast
next
  case (abandon i k s)
  then have "balance w w' {#} {#s#}" by (auto intro!: become_balance [OF abandon(2)])
  then have "?P {#} {#s#}" using connecting_become [OF abandon(2)] abandon(1) by simp
  then show ?thesis by blast
next
  case (release_unknown i k s pm)
  then have "?P {#} {#s#}"
    using pools_knownD [OF assms(2) release_unknown(2)] by (auto simp: release_begin_def)
  then show ?thesis by blast
next
  case (release_known i k s pm)
  then have "pm = upd_pool k (\<lambda>p. p\<lparr>active_count := active_count p - 1\<rparr>) (mgr w)"
    by (auto simp: release_begin_def split: option.splits)
  then have "balance w w' {#} {#}" unfolding release_known(1)
    by (intro become_balance [OF release_known(2)]) (simp_all add: idle_streams_upd_same)
  then have "?P {#} {#}" using connecting_become [OF release_known(2)] release_known(1) by simp
  then show ?thesis by blast
next
  case (reset i k s now res b pm)
  then obtain p where "get_pool (mgr w) k = Some p" using pools_knownD [OF assms(2) reset(2)] by auto
  note e = release_end_balance [OF reset(3) this]
  have "balance w w' {#} (if b then {#} else {#s#})" unfolding reset(1)
    using e by (intro become_balance [OF reset(2)]) (auto split: if_splits)
  then have "?P {#} (if b then {#} else {#s#})" using connecting_become [OF reset(2)] reset(1) by simp
  then show ?thesis by blast
qed

section \<open>Active counts\<close>

definition active_of :: "pool_manager \<Rightarrow> pool_key \<Rightarrow> u64" where
  "active_of pm k = (case get_pool pm k of None \<Rightarrow> 0 | Some p \<Rightarrow> active_count p)"

definition active :: "world \<Rightarrow> pool_key \<Rightarrow> nat" where
  "active w k = sum_list (map (active_weight k) (tasks w))"

lemma active_become:
  "at_task w i t \<Longrightarrow> active (become i t' pm w) k + active_weight k t = active w k + active_weight k t'"
  using sum_list_map_upd [of i "tasks w" "active_weight k" t']
  by (auto simp: active_def become_def at_task_def)

lemma active_of_simps [simp]:
  "active_of (ensure_pool k pm) k' = active_of pm k'"
  "active_of (count_timeout k pm) k' = active_of pm k'"
  "active_of (connect_failed k pm) k' = active_of pm k'"
  "active_of (drop_connection pm) k' = active_of pm k'"
  by (auto simp: active_of_def pool_lookup count_timeout_def connect_failed_def pool_new_def
      split: option.splits)

lemma active_of_connected:
  "get_pool pm k = Some p \<Longrightarrow> active_of (connected k pm) k' = active_of pm k' + (if k = k' then 1 else 0)"
  by (auto simp: active_of_def pool_lookup connected_def split: option.splits)

lemma active_of_take:
  assumes "take_idle pc now k pm = (r, pm')" "get_pool pm k = Some p"
  shows "active_of pm' k' = active_of pm k' + (if k = k' \<and> r \<noteq> None then 1 else 0)"
  using take_idle_lookup [OF assms] take_idle_lookup_other [OF assms(1), of k'] assms(2)
  by (cases "k' = k") (auto simp: active_of_def split: option.splits)

lemma active_of_check:
  assumes "check_capacity pc now dl k pm = (d, pm')"
  shows "active_of pm' k' = active_of pm k'"
  using check_capacity_stock(4) [OF assms, of k']
  by (auto simp: active_of_def split: option.splits)

lemma active_of_release_begin:
  "release_begin k pm = (True, pm') \<Longrightarrow> active_of pm' k' + (if k = k' then 1 else 0) = active_of pm k'"
  by (auto simp: active_of_def release_begin_def pool_lookup split: option.splits)

lemma active_of_release_end:
  "release_end k s now res pm = (b, pm') \<Longrightarrow> active_of pm' k' = active_of pm k'"
  by (cases "k' = k") (auto simp: release_end_def active_of_def pool_lookup split: sum.splits option.splits)

definition active_ok :: "world \<Rightarrow> bool" where
  "active_ok w \<longleftrightarrow> (\<forall>k. active_of (mgr w) k = of_nat (active w k))"

lemma become_active_ok:
  assumes "at_task w i t" "active_ok w"
    and "\<And>k. active_of pm k + of_nat (active_weight k t) = active_of (mgr w) k + of_nat (active_weight k t')"
  shows "active_ok (become i t' pm w)"
  unfolding active_ok_def
proof
  fix k
  have "of_nat (active (become i t' pm w) k) + of_nat (active_weight k t) =
      (of_nat (active w k) + of_nat (active_weight k t') :: u64)"
    using arg_cong [OF active_become [OF assms(1), of t' pm k], of "of_nat :: nat \<Rightarrow> u64"] by simp
  also have "\<dots> = active_of pm k + of_nat (active_weight k t)"
    using assms(2,3) by (simp add: active_ok_def)
  finally show "active_of (mgr (become i t' pm w)) k = of_nat (active (become i t' pm w) k)" by simp
qed

lemma step_active_ok:
  assumes "step pc w w'" "pools_known w" "active_ok w"
  shows "active_ok w'"
  using assms(1)
proof (cases rule: step.cases)
  case (spawn k)
  then show ?thesis using assms(3) by (simp add: active_ok_def active_def)
next
  case (hit i k dl now s pm)
  then show ?thesis using pools_knownD [OF assms(2) hit(2)] active_of_take [OF hit(3)]
    by (auto intro!: become_active_ok [OF hit(2) assms(3)])
next
  case (miss i k dl now pm)
  then show ?thesis using pools_knownD [OF assms(2) miss(2)] active_of_take [OF miss(3)]
    by (auto intro!: become_active_ok [OF miss(2) assms(3)])
next
  case (connect_ok i k s)
  then show ?thesis using pools_knownD [OF assms(2) connect_ok(2)]
    by (auto simp: active_of_connected intro!: become_active_ok [OF connect_ok(2) assms(3)])
next
  case (release_unknown i k s pm)
  then show ?thesis using pools_knownD [OF assms(2) release_unknown(2)] by (auto simp: release_begin_def)
next
  case (release_known i k s pm)
  have "active_of pm k' + of_nat (active_weight k' (Holding k s)) =
      active_of (mgr w) k' + of_nat (active_weight k' (Resetting k s))" for k'
    using active_of_release_begin [OF release_known(3), of k'] by (simp split: if_splits)
  then show ?thesis unfolding release_known(1)
    by (rule become_active_ok [OF release_known(2) assms(3)])
next
  case (reset i k s now res b pm)
  then show ?thesis using active_of_release_end [OF reset(3)]
    by (auto intro!: become_active_ok [OF reset(2) assms(3)])
qed (auto intro!: become_active_ok [OF _ assms(3)] simp: active_of_check)

section \<open>Pools are never removed\<close>

lemma step_keeps_pools:
  "step pc w w' \<Longrightarrow> get_pool (mgr w) k = Some p \<Longrightarrow> get_pool (mgr w') k \<noteq> None"
proof (induction rule: step.induct)
  case (hit w i k' dl now s pm)
  then show ?case using take_idle_lookup take_idle_lookup_other by (cases "k = k'") fastforce+
next
  case (miss w i k' dl now pm)
  then show ?case using take_idle_lookup take_idle_lookup_other by (cases "k = k'") fastforce+
next
  case (bail w i k' dl now e pm)
  then show ?case using check_capacity_stock(4) [OF bail(2), of k] by auto
next
  case (wait w i k' dl now pm)
  then show ?case using check_capacity_stock(4) [OF wait(2), of k] by auto
next
  case (create w i k' dl now pm)
  then show ?case using check_capacity_stock(4) [OF create(2), of k] by auto
qed (auto simp: pool_lookup count_timeout_def connected_def connect_failed_def release_begin_def
    release_end_def split: option.splits sum.splits)

lemma become_pools_known:
  assumes "pools_known w" "\<And>k p. get_pool (mgr w) k = Some p \<Longrightarrow> get_pool pm k \<noteq> None"
    and "\<And>k. task_key t = Some k \<Longrightarrow> get_pool pm k \<noteq> None"
  shows "pools_known (become i t pm w)"
  unfolding pools_known_def
proof (intro ballI allI impI)
  fix t' k
  assume t': "t' \<in> set (tasks (become i t pm w))" and key: "task_key t' = Some k"
  then consider "t' = t" | "t' \<in> set (tasks w)"
    using set_update_subset_insert [of "tasks w" i t] by (auto simp: become_def)
  then show "get_pool (mgr (become i t pm w)) k \<noteq> None"
  proof cases
    case 2
    then obtain p where "get_pool (mgr w) k = Some p" using assms(1) key by (auto simp: pools_known_def)
    then show ?thesis using assms(2) by simp
  qed (use key assms(3) in simp)
qed

lemma step_pools_known:
  assumes s: "step pc w w'" and k: "pools_known w"
  shows "pools_known w'"
proof -
  note keep = step_keeps_pools [OF s]
  from s show ?thesis
  proof (cases rule: step.cases)
    case (spawn k)
    then show ?thesis using k by (auto simp: pools_known_def)
  next
    case (start i k now)
    then show ?thesis using keep by (auto intro!: become_pools_known [OF k] simp: pool_lookup)
  qed (use keep pools_knownD [OF k] in \<open>fastforce intro!: become_pools_known [OF k]\<close>)+
qed


section \<open>Invariants of every run\<close>

definition accounted :: "world \<Rightarrow> bool" where
  "accounted w \<longleftrightarrow>
     total_server_connections (mgr w) = of_nat (size (live_streams w) + abandoned w)"

definition exclusive :: "world \<Rightarrow> bool" where
  "exclusive w \<longleftrightarrow> (\<forall>s. count (live_streams w) s \<le> 1)"

definition bounded :: "nat \<Rightarrow> world \<Rightarrow> bool" where
  "bounded n w \<longleftrightarrow> size (live_streams w) + abandoned w + connecting w \<le> n"

lemma initial_world:
  "pools_known (world_new m)" "active_ok (world_new m)" "accounted (world_new m)" "exclusive (world_new m)"
  "connecting (world_new m) = 0" "live_streams (world_new m) = {#}" "abandoned (world_new m) = 0"
  by (simp_all add: world_new_def pools_known_def active_ok_def accounted_def exclusive_def connecting_def
      live_streams_def abandoned_def pool_manager_new_def idle_streams_def active_of_def active_def get_pool_def)

lemma ledger_moves:
  fixes l :: "'m :: cancel_comm_monoid_add"
  assumes "l' + g = l + n" and "t' + g + a = t + n + a'" and "t = l + a"
  shows "t' = l' + a'"
proof -
  have "t' + (g + a) = (l + n) + a + a'" using assms(2,3) by (simp add: ac_simps)
  also have "\<dots> = (l' + a') + (g + a)" unfolding assms(1) [symmetric] by (simp add: ac_simps)
  finally show ?thesis by (rule add_right_imp_eq)
qed

lemma step_accounted:
  assumes "step pc w w'" "pools_known w" "accounted w"
  shows "accounted w'"
proof -
  obtain new gone where b: "balance w w' new gone" using step_balance [OF assms(1,2)] by blast
  then have "of_nat (size (live_streams w')) + of_nat (size gone) =
      (of_nat (size (live_streams w)) + of_nat (size new) :: u64)"
    by (simp only: balance_def size_union [symmetric] of_nat_add [symmetric])
  moreover have "total_server_connections (mgr w') + of_nat (size gone) + of_nat (abandoned w) =
         total_server_connections (mgr w) + of_nat (size new) + of_nat (abandoned w')"
    using b by (simp add: balance_def)
  ultimately show ?thesis using assms(3) unfolding accounted_def of_nat_add by (rule ledger_moves)
qed

lemma step_exclusive:
  assumes "step pc w w'" "pools_known w" "exclusive w"
  shows "exclusive w'"
  unfolding exclusive_def
proof
  fix s
  obtain new gone where b: "balance w w' new gone" and f: "\<forall>s. s \<in># new \<longrightarrow> s \<notin># live_streams w"
      and n: "size new \<le> 1"
    using step_balance [OF assms(1,2)] by blast
  have "count (live_streams w') s + count gone s = count (live_streams w) s + count new s"
    using b by (metis balance_def count_union)
  moreover have "count new s \<le> 1" using n by (meson count_le_size le_trans)
  moreover have "count new s = 0 \<or> count (live_streams w) s = 0" using f by (metis count_eq_zero_iff)
  moreover have "count (live_streams w) s \<le> 1" using assms(3) by (simp add: exclusive_def)
  ultimately show "count (live_streams w') s \<le> 1" by linarith
qed

lemma run_invariant:
  assumes "run pc b w w'" "I w" "\<And>w w'. step pc w w' \<Longrightarrow> I w \<Longrightarrow> I w'"
  shows "I w'"
  using assms by (induction rule: run.induct) auto

lemma run_pools_known: "run pc b (world_new m) w \<Longrightarrow> pools_known w"
  using run_invariant [of pc b "world_new m" w pools_known] step_pools_known initial_world by blast

lemma run_accounted: "run pc b (world_new m) w \<Longrightarrow> accounted w"
  using run_invariant [of pc b "world_new m" w "\<lambda>w. pools_known w \<and> accounted w"]
    step_pools_known step_accounted initial_world by blast


lemma step_bounded:
  assumes s: "step pc w w'" and k: "pools_known w" and a: "accounted w"
    and b: "bounded (unat (max_total_connections pc) + b - 1) w" "connecting w' \<le> b" "1 \<le> b" "b \<le> 4294967296"
  shows "bounded (unat (max_total_connections pc) + b - 1) w'"
proof -
  let ?T = "total_server_connections (mgr w) :: u64" and ?M = "unat (max_total_connections pc)"
  let ?L = "size (live_streams w) + abandoned w" and ?L' = "size (live_streams w') + abandoned w'"
  have M: "?M < 4294967296" using unat_less_pow [of "max_total_connections pc"] by simp
  have L: "?L + connecting w \<le> ?M + b - 1" using b(1) by (simp add: bounded_def)
  then have "?L < 2 ^ LENGTH(64)" using M b(4) by simp
  then have T: "unat ?T = ?L"
    using a unfolding accounted_def by (simp only: unat_of_nat mod_less)
  have "take_bit 64 ?M = ?M" using M by (simp add: take_bit_nat_eq_self)
  then have lim: "?T < ucast (max_total_connections pc) \<longleftrightarrow> ?L < ?M"
    by (simp add: word_less_nat_alt T unsigned_ucast_eq)
  obtain new gone where bal: "balance w w' new gone" and n: "size new \<le> 1"
    and c: "connecting w' + size new \<le> connecting w + (if ?L < ?M then 1 else 0)"
    and c': "new = {#} \<or> connecting w' + 1 = connecting w"
    using step_balance [OF s k] unfolding lim by blast
  have "size (live_streams w') + size gone = size (live_streams w) + size new"
    using bal by (metis balance_def size_union)
  then have "?L' \<le> ?L + size new" using bal by (simp add: balance_def)
  then show ?thesis using L n c c' b(2,3) unfolding bounded_def
    by (cases "?L < ?M"; cases "new = {#}") auto
qed

lemma run_bounded:
  assumes "run pc b (world_new m) w" "1 \<le> b" "b \<le> 4294967296"
  shows "bounded (unat (max_total_connections pc) + b - 1) w"
  using assms
proof (induction "world_new m" w rule: run.induct)
  case here
  then show ?case by (simp add: bounded_def initial_world)
next
  case (further w' w'')
  then show ?case using step_bounded run_pools_known run_accounted by blast
qed

section \<open>An executable scheduler\<close>

text \<open>
  \<open>fire\<close> computes the step an action names; it fires exactly the steps of the relation.
\<close>

datatype action =
    Spawn pool_key
  | Start nat nat
  | Scan nat nat
  | Check nat nat
  | Wake nat wake
  | Connect nat "stream option"
  | Abandon nat
  | Release nat
  | Reset nat nat "pg_error + unit"

definition task_at :: "world \<Rightarrow> nat \<Rightarrow> task" where
  "task_at w i = (if i < length (tasks w) then tasks w ! i else Finished)"

fun fire :: "pool_config \<Rightarrow> action \<Rightarrow> world \<Rightarrow> world option" where
  "fire pc (Spawn k) w = Some (w\<lparr>tasks := tasks w @ [Starting k]\<rparr>)"
| "fire pc (Start i now) w =
     (case task_at w i of
        Starting k \<Rightarrow> Some (become i (Looping k (now + millis (acquire_timeout_ms pc))) (ensure_pool k (mgr w)) w)
      | _ \<Rightarrow> None)"
| "fire pc (Scan i now) w =
     (case task_at w i of
        Looping k dl \<Rightarrow>
          (case take_idle pc now k (mgr w) of
             (Some s, pm) \<Rightarrow> Some (become i (Holding k s) pm w)
           | (None, pm) \<Rightarrow> Some (become i (Checking k dl) pm w))
      | _ \<Rightarrow> None)"
| "fire pc (Check i now) w =
     (case task_at w i of
        Checking k dl \<Rightarrow>
          (case check_capacity pc now dl k (mgr w) of
             (Bail e, pm) \<Rightarrow> Some (become i Finished pm w)
           | (Wait, pm) \<Rightarrow> Some (become i (Waiting k dl) pm w)
           | (Create, pm) \<Rightarrow> Some (become i (Connecting k) pm w))
      | _ \<Rightarrow> None)"
| "fire pc (Wake i r) w =
     (case task_at w i of
        Waiting k dl \<Rightarrow>
          (case r of
             Notified \<Rightarrow> Some (become i (Looping k dl) (mgr w) w)
           | TimedOut \<Rightarrow> Some (become i Finished (count_timeout k (mgr w)) w))
      | _ \<Rightarrow> None)"
| "fire pc (Connect i r) w =
     (case task_at w i of
        Connecting k \<Rightarrow>
          (case r of
             Some s \<Rightarrow> if s \<in># live_streams w then None else Some (become i (Holding k s) (connected k (mgr w)) w)
           | None \<Rightarrow> Some (become i Finished (connect_failed k (mgr w)) w))
      | _ \<Rightarrow> None)"
| "fire pc (Abandon i) w =
     (case task_at w i of Holding k s \<Rightarrow> Some (become i (Abandoned k) (mgr w) w) | _ \<Rightarrow> None)"
| "fire pc (Release i) w =
     (case task_at w i of
        Holding k s \<Rightarrow>
          (case release_begin k (mgr w) of
             (False, pm) \<Rightarrow> Some (become i Finished pm w)
           | (True, pm) \<Rightarrow> Some (become i (Resetting k s) pm w))
      | _ \<Rightarrow> None)"
| "fire pc (Reset i now res) w =
     (case task_at w i of
        Resetting k s \<Rightarrow> Some (become i Finished (snd (release_end k s now res (mgr w))) w)
      | _ \<Rightarrow> None)"

fun play :: "pool_config \<Rightarrow> nat \<Rightarrow> action list \<Rightarrow> world \<Rightarrow> world option" where
  "play pc b [] w = Some w"
| "play pc b (a # as) w =
     (case fire pc a w of
        Some w' \<Rightarrow> if connecting w' \<le> b then play pc b as w' else None
      | None \<Rightarrow> None)"

lemma task_at: "task_at w i = t \<Longrightarrow> t \<noteq> Finished \<Longrightarrow> at_task w i t"
  by (auto simp: task_at_def at_task_def split: if_splits)

lemma at_task: "at_task w i t \<Longrightarrow> task_at w i = t"
  by (simp add: task_at_def at_task_def)

lemma fire_step: "fire pc a w = Some w' \<Longrightarrow> step pc w w'"
  by (cases a)
    (auto split: task.splits option.splits prod.splits decision.splits wake.splits if_splits bool.splits
       dest!: task_at intro: step.intros simp: prod_eq_iff)

lemma step_fire: "step pc w w' \<Longrightarrow> \<exists>a. fire pc a w = Some w'"
proof (induction rule: step.induct)
  case (spawn w k)
  then show ?case by (intro exI [of _ "Spawn k"]) (simp add: at_task)
next
  case (start w i k now)
  then show ?case by (intro exI [of _ "Start i now"]) (simp add: at_task)
next
  case (hit w i k dl now s pm)
  then show ?case by (intro exI [of _ "Scan i now"]) (simp add: at_task)
next
  case (miss w i k dl now pm)
  then show ?case by (intro exI [of _ "Scan i now"]) (simp add: at_task)
next
  case (bail w i k dl now e pm)
  then show ?case by (intro exI [of _ "Check i now"]) (simp add: at_task)
next
  case (wait w i k dl now pm)
  then show ?case by (intro exI [of _ "Check i now"]) (simp add: at_task)
next
  case (create w i k dl now pm)
  then show ?case by (intro exI [of _ "Check i now"]) (simp add: at_task)
next
  case (notified w i k dl)
  then show ?case by (intro exI [of _ "Wake i Notified"]) (simp add: at_task)
next
  case (timed_out w i k dl)
  then show ?case by (intro exI [of _ "Wake i TimedOut"]) (simp add: at_task)
next
  case (connect_ok w i k s)
  then show ?case by (intro exI [of _ "Connect i (Some s)"]) (simp add: at_task)
next
  case (connect_err w i k)
  then show ?case by (intro exI [of _ "Connect i None"]) (simp add: at_task)
next
  case (abandon w i k s)
  then show ?case by (intro exI [of _ "Abandon i"]) (simp add: at_task)
next
  case (release_unknown w i k s pm)
  then show ?case by (intro exI [of _ "Release i"]) (simp add: at_task)
next
  case (release_known w i k s pm)
  then show ?case by (intro exI [of _ "Release i"]) (simp add: at_task)
next
  case (reset w i k s now res b pm)
  then show ?case by (intro exI [of _ "Reset i now res"]) (simp add: at_task)
qed

lemma play_run: "play pc b as w = Some w' \<Longrightarrow> run pc b w0 w \<Longrightarrow> run pc b w0 w'"
  by (induction as arbitrary: w) (auto split: option.splits if_splits intro: run.further dest: fire_step)

section \<open>Properties\<close>

lemma run_gauge:
  assumes "run pc b (world_new metrics_new) w"
  shows "gauge (mgr w) = total_server_connections (mgr w)"
proof -
  have "pools_known w \<and> gauge (mgr w) - total_server_connections (mgr w) = 0"
  proof (rule run_invariant [OF assms])
    show "pools_known (world_new metrics_new) \<and>
        gauge (mgr (world_new metrics_new)) - total_server_connections (mgr (world_new metrics_new)) = 0"
      by (simp add: initial_world) (simp add: world_new_def pool_manager_new_def gauge_def metrics_new_def)
  next
    fix v v'
    assume "step pc v v'" "pools_known v \<and> gauge (mgr v) - total_server_connections (mgr v) = 0"
    then show "pools_known v' \<and> gauge (mgr v') - total_server_connections (mgr v') = 0"
      using step_balance step_pools_known unfolding balance_def by metis
  qed
  then show ?thesis by simp
qed

lemma run_active_ok:
  assumes "run pc b (world_new m) w"
  shows "active_ok w"
  using run_invariant [OF assms, of "\<lambda>w. pools_known w \<and> active_ok w"]
    step_pools_known step_active_ok initial_world by blast

lemma run_exclusive:
  assumes "run pc b (world_new m) w"
  shows "exclusive w"
  using run_invariant [OF assms, of "\<lambda>w. pools_known w \<and> exclusive w"]
    step_pools_known step_exclusive initial_world by blast

text \<open>
  C6. In every interleaving the global counter equals the number of idle, lent and resetting
  connections plus those abandoned by tasks that returned early, the gauge of active server
  connections equals the counter, and each pool's active count is the number of its connections
  that are held or were abandoned.
\<close>

theorem connections_accounted:
  assumes "run pc b (world_new metrics_new) w"
  shows "total_server_connections (mgr w) = of_nat (size (live_streams w) + abandoned w)
    \<and> server_connections_active (pm_metrics (mgr w)) = total_server_connections (mgr w)
    \<and> (\<forall>k. active_of (mgr w) k = of_nat (active w k))"
  using run_accounted [OF assms] run_gauge [OF assms] run_active_ok [OF assms]
  by (simp add: accounted_def gauge_def active_ok_def)

lemma held_streams_subset:
  "at_task w i t \<Longrightarrow> at_task w j t' \<Longrightarrow> i \<noteq> j \<Longrightarrow> idle_streams (mgr w) + task_streams t + task_streams t' \<subseteq># live_streams w"
proof -
  assume a: "at_task w i t" "at_task w j t'" "i \<noteq> j"
  let ?ts = "(tasks w)[i := Finished, j := Finished]"
  have "sum_list (map task_streams ((tasks w)[i := Finished])) + task_streams t = sum_list (map task_streams (tasks w))"
    using a sum_list_map_upd [of i "tasks w" task_streams Finished] by (simp add: at_task_def)
  moreover have "sum_list (map task_streams ?ts) + task_streams t' = sum_list (map task_streams ((tasks w)[i := Finished]))"
    using a sum_list_map_upd [of j "(tasks w)[i := Finished]" task_streams Finished] by (simp add: at_task_def)
  ultimately have "live_streams w = idle_streams (mgr w) + task_streams t + task_streams t' + sum_list (map task_streams ?ts)"
    by (simp add: live_streams_def ac_simps)
  then show ?thesis by simp
qed

text \<open>
  C5. However acquires and releases of concurrent clients interleave, a backend connection held by
  one task is held by no other task and is not in any idle queue.
\<close>

theorem no_shared_connection:
  assumes "run pc b (world_new m) w"
    and "at_task w i t" "at_task w j t'" "i \<noteq> j" "s \<in># task_streams t"
  shows "s \<notin># task_streams t' \<and> s \<notin># idle_streams (mgr w)"
proof -
  have "count (idle_streams (mgr w) + task_streams t + task_streams t') s \<le> 1"
    using held_streams_subset [OF assms(2-4)] run_exclusive [OF assms(1)]
    by (meson exclusive_def le_trans mset_subset_eq_count)
  moreover have "1 \<le> count (task_streams t) s" using assms(5) by (simp add: Suc_le_eq)
  ultimately show ?thesis unfolding not_in_iff count_union by linarith
qed

text \<open>
  C14. If at most b tasks connect at the same time, the number of server connections never exceeds
  max_total_connections by more than b - 1; with serialised connects the limit holds exactly.
\<close>

theorem global_limit_overshoot:
  assumes "run pc b (world_new m) w" "1 \<le> b" "b \<le> 4294967296"
  shows "unat (total_server_connections (mgr w)) \<le> unat (max_total_connections pc) + (b - 1)"
proof -
  have bd: "size (live_streams w) + abandoned w \<le> unat (max_total_connections pc) + b - 1"
    using run_bounded [OF assms] by (simp add: bounded_def)
  moreover have "unat (max_total_connections pc) < 4294967296"
    using unat_less_pow [of "max_total_connections pc"] by simp
  ultimately have "size (live_streams w) + abandoned w < 2 ^ LENGTH(64)" using assms(3) by simp
  then have "unat (total_server_connections (mgr w)) = size (live_streams w) + abandoned w"
    using run_accounted [OF assms(1)] unfolding accounted_def by (simp only: unat_of_nat mod_less)
  then show ?thesis using bd assms(2) by simp
qed


section \<open>The limits under concurrency\<close>

definition key1 :: pool_key where
  "key1 = \<lparr>pk_host = ''db'', pk_port = 5432, pk_database = ''app'', pk_user = ''alice''\<rparr>"

definition one_connection :: pool_config where
  "one_connection = default_pool_config\<lparr>max_total_connections := 1, max_connections_per_pool := 1\<rparr>"

definition two_clients :: "action list" where
  "two_clients =
     [Spawn key1, Spawn key1, Start 0 0, Start 1 0, Scan 0 0, Scan 1 0, Check 0 0, Check 1 0,
      Connect 0 (Some 7), Connect 1 (Some 8)]"

lemmas eval_defs =
  world_new_def pool_manager_new_def become_def task_at_def connecting_def ensure_pool_def get_pool_def
  put_pool_def pool_new_def take_idle_def upd_pool_def check_capacity_def one_connection_def
  default_pool_config_def upd_metrics_def connected_def live_streams_def idle_streams_def streams_of_def
  release_begin_def release_end_def drop_connection_def count_timeout_def

lemma two_clients_play:
  "map_option (\<lambda>w. (unat (total_server_connections (mgr w)), tasks w))
     (play one_connection 2 two_clients (world_new metrics_new)) = Some (2, [Holding key1 7, Holding key1 8])"
  by (simp add: two_clients_def eval_defs)


lemma play_reaches:
  "map_option f (play pc b as (world_new m)) = Some x \<Longrightarrow> \<exists>w. run pc b (world_new m) w \<and> f w = x"
  using play_run [OF _ run.here] by (fastforce simp: map_option_eq_Some)

theorem global_limit_exceeded:
  "\<exists>w. run one_connection 2 (world_new metrics_new) w
     \<and> unat (total_server_connections (mgr w)) = unat (max_total_connections one_connection) + 1
     \<and> tasks w = [Holding key1 7, Holding key1 8]"
  using play_reaches [OF two_clients_play] by (auto simp: one_connection_def)

text \<open>
  The per-key limit counts a connection that is being reset neither as active nor as idle, so
  another client of the same key may open a connection beyond the limit even when connects never
  overlap.
\<close>

definition one_per_pool :: pool_config where
  "one_per_pool = default_pool_config\<lparr>max_connections_per_pool := 1\<rparr>"

definition reset_overlap :: "action list" where
  "reset_overlap =
     [Spawn key1, Start 0 0, Scan 0 0, Check 0 0, Connect 0 (Some 7), Release 0,
      Spawn key1, Start 1 0, Scan 1 0, Check 1 0, Connect 1 (Some 8), Reset 0 0 (Inr ()), Release 1, Reset 1 0 (Inr ())]"

lemma reset_overlap_play:
  "map_option (\<lambda>w. (map_option (\<lambda>p. map pc_stream (idle p)) (get_pool (mgr w) key1), tasks w))
     (play one_per_pool 1 reset_overlap (world_new metrics_new)) = Some (Some [7, 8], [Finished, Finished])"
  by (simp add: reset_overlap_def eval_defs one_per_pool_def word_le_nat_alt)

theorem pool_limit_exceeded_by_reset:
  "\<exists>w p. run one_per_pool 1 (world_new metrics_new) w \<and> get_pool (mgr w) key1 = Some p
     \<and> length (idle p) = unat (max_connections_per_pool one_per_pool) + 1"
  using play_reaches [OF reset_overlap_play] by (force simp: one_per_pool_def dest: arg_cong [of _ _ length])

text \<open>The schedules and the relation agree: \<open>fire\<close> computes exactly the steps.\<close>

theorem fire_iff_step: "(\<exists>a. fire pc a w = Some w') \<longleftrightarrow> step pc w w'"
  using fire_step step_fire by blast

section \<open>A sequential call is a run of its task\<close>

inductive steps :: "pool_config \<Rightarrow> world \<Rightarrow> world \<Rightarrow> bool" for pc where
  steps_refl: "steps pc w w"
| steps_step: "step pc w w' \<Longrightarrow> steps pc w' w'' \<Longrightarrow> steps pc w w''"


lemma steps_one: "step pc w w' \<Longrightarrow> steps pc w w'"
  by (blast intro: steps.intros)

lemma become_become [simp]: "become i t pm (become i t' pm' w) = become i t pm w"
  by (simp add: become_def)

lemma at_task_become [simp]: "at_task (become i t pm w) i t' \<longleftrightarrow> i < length (tasks w) \<and> t' = t"
  by (auto simp: at_task_def become_def)

lemma at_task_bound: "at_task w i t \<Longrightarrow> i < length (tasks w)"
  by (simp add: at_task_def)

lemma live_shrinks:
  assumes "at_task w i t" "task_streams t = {#}" "task_streams t' = {#}" "idle_streams pm \<subseteq># idle_streams (mgr w)"
  shows "live_streams (become i t' pm w) \<subseteq># live_streams w"
proof -
  have "live_streams (become i t' pm w) + idle_streams (mgr w) = live_streams w + idle_streams pm"
    using live_become [OF assms(1), of t' pm] assms(2,3) by simp
  also have "\<dots> \<subseteq># live_streams w + idle_streams (mgr w)" using assms(4) by simp
  finally show ?thesis by simp
qed

definition ends_as :: "pool_key \<Rightarrow> stream outcome \<Rightarrow> task" where
  "ends_as k out = (case out of Ok s \<Rightarrow> Holding k s | _ \<Rightarrow> Finished)"

lemma acquire_loop_steps:
  assumes "at_task w i (Looping k dl)"
    and "acquire_loop pc k pw extra dl rs (mgr w) = (out, pm')" "out \<noteq> Pending" "out \<noteq> Panic"
    and "\<And>r s. r \<in> set rs \<Longrightarrow> r_connect r k pw extra = Ok s \<Longrightarrow> s \<notin># live_streams w"
  shows "steps pc w (become i (ends_as k out) pm' w)"
  using assms
proof (induction rs arbitrary: w)
  case (Cons r rs)
  note i = at_task_bound [OF Cons.prems(1)]
  obtain h pm1 where t: "take_idle pc (r_now r) k (mgr w) = (h, pm1)" by fastforce
  show ?case
  proof (cases h)
    case (Some s)
    then have "out = Ok s" "pm' = pm1" using Cons.prems(2) t by simp_all
    then show ?thesis using steps_one [OF step.hit [OF Cons.prems(1)]] t Some by (simp add: ends_as_def)
  next
    case None
    let ?w1 = "become i (Checking k dl) pm1 w"
    have s1: "step pc w ?w1" using step.miss [OF Cons.prems(1)] t None by blast
    have sub: "live_streams ?w1 \<subseteq># live_streams w"
      using take_idle_stock [OF t] None by (intro live_shrinks [OF Cons.prems(1)]) auto
    obtain d pm2 where c: "check_capacity pc (r_now r) dl k pm1 = (d, pm2)" by fastforce
    note idle2 = check_capacity_stock(1) [OF c]
    have a1: "at_task ?w1 i (Checking k dl)" using i by simp
    show ?thesis
    proof (cases d)
      case (Bail e)
      then have "out = Err e" "pm' = pm2" using Cons.prems(2) t None c by simp_all
      then show ?thesis using steps_step [OF s1 steps_one [OF step.bail [OF a1]]] c Bail
        by (simp add: ends_as_def)
    next
      case Wait
      let ?w2 = "become i (Waiting k dl) pm2 w"
      have s2: "step pc ?w1 ?w2" using step.wait [OF a1, of pc "r_now r" pm2] c Wait by simp
      have a2: "at_task ?w2 i (Waiting k dl)" using i by simp
      show ?thesis
      proof (cases "r_wake r")
        case TimedOut
        then have "out = Err PoolTimeout" "pm' = count_timeout k pm2"
          using Cons.prems(2) t None c Wait by simp_all
        then show ?thesis using steps_step [OF s1 steps_step [OF s2 steps_one [OF step.timed_out [OF a2]]]]
          by (simp add: ends_as_def)
      next
        case Notified
        let ?w3 = "become i (Looping k dl) pm2 w"
        have s3: "step pc ?w2 ?w3" using step.notified [OF a2, of pc] by simp
        have "live_streams ?w3 \<subseteq># live_streams w"
          using take_idle_stock [OF t] None idle2 by (intro live_shrinks [OF Cons.prems(1)]) auto
        then have "steps pc ?w3 (become i (ends_as k out) pm' ?w3)"
          using Cons.prems t None c Wait Notified i
          by (intro Cons.IH) (auto dest: mset_subset_eqD)
        then show ?thesis using steps_step [OF s1 steps_step [OF s2 steps_step [OF s3]]] by simp
      qed
    next
      case Create
      let ?w2 = "become i (Connecting k) pm2 w"
      have s2: "step pc ?w1 ?w2" using step.create [OF a1, of pc "r_now r" pm2] c Create by simp
      have a2: "at_task ?w2 i (Connecting k)" using i by simp
      have sub2: "live_streams ?w2 \<subseteq># live_streams w"
        using take_idle_stock [OF t] None idle2 by (intro live_shrinks [OF Cons.prems(1)]) auto
      show ?thesis
      proof (cases "r_connect r k pw extra")
        case (Ok s)
        then have o: "out = Ok s" "pm' = connected k pm2" using Cons.prems(2) t None c Create by simp_all
        have "s \<notin># live_streams ?w2" using Cons.prems(5) Ok sub2 by (auto dest: mset_subset_eqD)
        then have "step pc ?w2 (become i (Holding k s) (connected k pm2) w)"
          using step.connect_ok [OF a2, of s pc] by simp
        then show ?thesis using o steps_step [OF s1 steps_step [OF s2 steps_one]] by (simp add: ends_as_def)
      next
        case (Err e)
        then have o: "out = Err (FailedToConnect (display_key k) e)" "pm' = connect_failed k pm2"
          using Cons.prems(2) t None c Create by simp_all
        then show ?thesis using steps_step [OF s1 steps_step [OF s2 steps_one [OF step.connect_err [OF a2]]]]
          by (simp add: ends_as_def)
      qed (use Cons.prems(2-4) t None c Create in simp_all)
    qed
  qed
qed simp

theorem acquire_is_a_run:
  assumes "at_task w i (Starting k)"
    and "acquire cfg start rounds k pw extra (mgr w) = (out, pm')" "out \<noteq> Pending" "out \<noteq> Panic"
    and "\<forall>r\<in>set rounds. \<forall>s. r_connect r k pw extra = Ok s \<longrightarrow> s \<notin># live_streams w"
  shows "steps (pool_cfg cfg) w (become i (ends_as k out) pm' w)"
proof -
  let ?dl = "start + millis (acquire_timeout_ms (pool_cfg cfg))"
  let ?w = "become i (Looping k ?dl) (ensure_pool k (mgr w)) w"
  have "live_streams ?w \<subseteq># live_streams w" by (rule live_shrinks [OF assms(1)]) simp_all
  then have "steps (pool_cfg cfg) ?w (become i (ends_as k out) pm' ?w)"
    using assms at_task_bound [OF assms(1)]
    by (intro acquire_loop_steps) (auto simp: acquire_def dest: mset_subset_eqD)
  then show ?thesis using steps_step [OF step.start [OF assms(1)]] by simp
qed

section \<open>Instances\<close>

lemma connections_accounted_witness:
  "\<exists>w. run one_connection 2 (world_new metrics_new) w \<and> tasks w = [Holding key1 7, Holding key1 8]
     \<and> total_server_connections (mgr w) = of_nat (size (live_streams w) + abandoned w)
     \<and> active_of (mgr w) key1 = of_nat (active w key1)"
proof -
  obtain w where w: "run one_connection 2 (world_new metrics_new) w" "tasks w = [Holding key1 7, Holding key1 8]"
    using play_reaches [OF two_clients_play] by auto
  then show ?thesis using connections_accounted [OF w(1)] by blast
qed

lemma no_shared_connection_witness:
  "\<exists>w. run one_connection 2 (world_new metrics_new) w \<and> at_task w 0 (Holding key1 7)
     \<and> 7 \<notin># task_streams (Holding key1 8) \<and> 7 \<notin># idle_streams (mgr w)"
proof -
  obtain w where w: "run one_connection 2 (world_new metrics_new) w" "tasks w = [Holding key1 7, Holding key1 8]"
    using play_reaches [OF two_clients_play] by auto
  have "at_task w 0 (Holding key1 7)" "at_task w 1 (Holding key1 8)" using w(2) by (simp_all add: at_task_def)
  from no_shared_connection [OF w(1) this, of 7] this w(1) show ?thesis by auto
qed

lemma global_limit_overshoot_witness:
  "\<exists>w. run one_connection 2 (world_new metrics_new) w \<and> tasks w = [Holding key1 7, Holding key1 8]
     \<and> unat (total_server_connections (mgr w)) \<le> unat (max_total_connections one_connection) + (2 - 1)"
proof -
  obtain w where w: "run one_connection 2 (world_new metrics_new) w" "tasks w = [Holding key1 7, Holding key1 8]"
    using play_reaches [OF two_clients_play] by auto
  then show ?thesis using global_limit_overshoot [OF w(1)] by auto
qed

lemma acquire_is_a_run_witness:
  "\<exists>out pm'. out = Ok 9 \<and>
     steps (pool_cfg default_config) \<lparr>mgr = pool_manager_new metrics_new, tasks = [Starting key1]\<rparr>
       (become 0 (ends_as key1 out) pm' \<lparr>mgr = pool_manager_new metrics_new, tasks = [Starting key1]\<rparr>)"
proof -
  let ?w = "\<lparr>mgr = pool_manager_new metrics_new, tasks = [Starting key1]\<rparr>"
  let ?r = "\<lparr>r_now = 0, r_wake = TimedOut, r_connect = (\<lambda>_ _ _. Ok 9)\<rparr>"
  obtain pm' where a: "acquire default_config 0 [?r] key1 ''pw'' [] (mgr ?w) = (Ok 9, pm')"
    by (simp add: acquire_def pool_manager_new_def ensure_pool_def get_pool_def put_pool_def pool_new_def
        take_idle_def check_capacity_def default_config_def default_pool_config_def Let_def upd_pool_def upd_metrics_def)
  have "steps (pool_cfg default_config) ?w (become 0 (ends_as key1 (Ok 9)) pm' ?w)"
    by (rule acquire_is_a_run [OF _ a])
      (simp_all add: at_task_def live_streams_def idle_streams_def pool_manager_new_def)
  then show ?thesis by blast
qed

end
