(* ===== verification/Pool_Wakeups.thy ===== *)
theory Pool_Wakeups
  imports Pool_Tasks
begin

text \<open>
  The wake-ups of \<^verbatim>\<open>acquire\<close> and \<^verbatim>\<open>release\<close> (\<^verbatim>\<open>src/pool/mod.rs\<close>): each pool has a \<^verbatim>\<open>tokio::sync::Notify\<close>, which
  hands a call of \<^verbatim>\<open>notify_one\<close> to one task that waits in \<^verbatim>\<open>notified\<close>, or stores it as a permit when no task
  waits; at most one permit is stored, and the next \<^verbatim>\<open>notified\<close> takes it without waiting. Which of
  several waiting tasks is woken is left open. The relation refines \<open>step\<close> of \<open>Pool_Tasks\<close>, in which a
  waiting task may be woken at any moment.
\<close>

section \<open>Steps\<close>

record wworld =
  ww :: world
  permit :: "pool_key \<Rightarrow> bool"

definition wworld_new :: "metrics \<Rightarrow> wworld" where
  "wworld_new m = \<lparr>ww = world_new m, permit = (\<lambda>_. False)\<rparr>"

inductive wstep :: "pool_config \<Rightarrow> wworld \<Rightarrow> wworld \<Rightarrow> bool" for pc where
  spawn: "wstep pc \<lparr>ww = w, permit = P\<rparr> \<lparr>ww = w\<lparr>tasks := tasks w @ [Starting k]\<rparr>, permit = P\<rparr>"
| start: "at_task w i (Starting k) \<Longrightarrow>
    wstep pc \<lparr>ww = w, permit = P\<rparr>
      \<lparr>ww = become i (Looping k (now + millis (acquire_timeout_ms pc))) (ensure_pool k (mgr w)) w, permit = P\<rparr>"
| hit: "at_task w i (Looping k dl) \<Longrightarrow> take_idle pc now k (mgr w) = (Some s, pm) \<Longrightarrow>
    wstep pc \<lparr>ww = w, permit = P\<rparr> \<lparr>ww = become i (Holding k s) pm w, permit = P\<rparr>"
| miss: "at_task w i (Looping k dl) \<Longrightarrow> take_idle pc now k (mgr w) = (None, pm) \<Longrightarrow>
    wstep pc \<lparr>ww = w, permit = P\<rparr> \<lparr>ww = become i (Checking k dl) pm w, permit = P\<rparr>"
| bail: "at_task w i (Checking k dl) \<Longrightarrow> check_capacity pc now dl k (mgr w) = (Bail e, pm) \<Longrightarrow>
    wstep pc \<lparr>ww = w, permit = P\<rparr> \<lparr>ww = become i Finished pm w, permit = P\<rparr>"
| park: "at_task w i (Checking k dl) \<Longrightarrow> check_capacity pc now dl k (mgr w) = (Wait, pm) \<Longrightarrow> \<not> P k \<Longrightarrow>
    wstep pc \<lparr>ww = w, permit = P\<rparr> \<lparr>ww = become i (Waiting k dl) pm w, permit = P\<rparr>"
| take_permit: "at_task w i (Checking k dl) \<Longrightarrow> check_capacity pc now dl k (mgr w) = (Wait, pm) \<Longrightarrow> P k \<Longrightarrow>
    wstep pc \<lparr>ww = w, permit = P\<rparr> \<lparr>ww = become i (Looping k dl) pm w, permit = P(k := False)\<rparr>"
| create: "at_task w i (Checking k dl) \<Longrightarrow> check_capacity pc now dl k (mgr w) = (Create, pm) \<Longrightarrow>
    wstep pc \<lparr>ww = w, permit = P\<rparr> \<lparr>ww = become i (Connecting k) pm w, permit = P\<rparr>"
| timed_out: "at_task w i (Waiting k dl) \<Longrightarrow>
    wstep pc \<lparr>ww = w, permit = P\<rparr> \<lparr>ww = become i Finished (count_timeout k (mgr w)) w, permit = P\<rparr>"
| connect_ok: "at_task w i (Connecting k) \<Longrightarrow> s \<notin># live_streams w \<Longrightarrow>
    wstep pc \<lparr>ww = w, permit = P\<rparr> \<lparr>ww = become i (Holding k s) (connected k (mgr w)) w, permit = P\<rparr>"
| connect_err: "at_task w i (Connecting k) \<Longrightarrow>
    wstep pc \<lparr>ww = w, permit = P\<rparr> \<lparr>ww = become i Finished (connect_failed k (mgr w)) w, permit = P\<rparr>"
| abandon: "at_task w i (Holding k s) \<Longrightarrow>
    wstep pc \<lparr>ww = w, permit = P\<rparr> \<lparr>ww = become i (Abandoned k) (mgr w) w, permit = P\<rparr>"
| release_unknown: "at_task w i (Holding k s) \<Longrightarrow> release_begin k (mgr w) = (False, pm) \<Longrightarrow>
    wstep pc \<lparr>ww = w, permit = P\<rparr> \<lparr>ww = become i Finished pm w, permit = P\<rparr>"
| release_known: "at_task w i (Holding k s) \<Longrightarrow> release_begin k (mgr w) = (True, pm) \<Longrightarrow>
    wstep pc \<lparr>ww = w, permit = P\<rparr> \<lparr>ww = become i (Resetting k s) pm w, permit = P\<rparr>"
| reset_failed: "at_task w i (Resetting k s) \<Longrightarrow> release_end k s now res (mgr w) = (False, pm) \<Longrightarrow>
    wstep pc \<lparr>ww = w, permit = P\<rparr> \<lparr>ww = become i Finished pm w, permit = P\<rparr>"
| wake: "at_task w i (Resetting k s) \<Longrightarrow> release_end k s now res (mgr w) = (True, pm) \<Longrightarrow> at_task w j (Waiting k dl) \<Longrightarrow>
    wstep pc \<lparr>ww = w, permit = P\<rparr> \<lparr>ww = become j (Looping k dl) pm (become i Finished pm w), permit = P\<rparr>"
| store: "at_task w i (Resetting k s) \<Longrightarrow> release_end k s now res (mgr w) = (True, pm) \<Longrightarrow>
    (\<And>j dl. \<not> at_task w j (Waiting k dl)) \<Longrightarrow>
    wstep pc \<lparr>ww = w, permit = P\<rparr> \<lparr>ww = become i Finished pm w, permit = P(k := True)\<rparr>"

inductive_cases wstepE: "wstep pc x y"

section \<open>Refinement of the free wake-ups\<close>

lemma steps_two: "step pc w w' \<Longrightarrow> step pc w' w'' \<Longrightarrow> steps pc w w''"
  by (blast intro: steps.intros)

lemma at_task_other: "at_task w j t \<Longrightarrow> j \<noteq> i \<Longrightarrow> at_task (become i t' pm w) j t"
  by (simp add: at_task_def become_def)

lemma wstep_steps: "wstep pc x y \<Longrightarrow> steps pc (ww x) (ww y)"
proof (induction rule: wstep.induct)
  case (take_permit w i k dl now pm P)
  have "step pc w (become i (Waiting k dl) pm w)" by (rule step.wait [OF take_permit(1,2)])
  moreover have "step pc (become i (Waiting k dl) pm w) (become i (Looping k dl) pm w)"
    using step.notified [of "become i (Waiting k dl) pm w" i k dl pc] at_task_bound [OF take_permit(1)] by simp
  ultimately show ?case by (simp add: steps_two)
next
  case (wake w i k s now res pm j dl P)
  have "i \<noteq> j" using wake(1,3) by (auto simp: at_task_def)
  then have "at_task (become i Finished pm w) j (Waiting k dl)" using at_task_other [OF wake(3)] by simp
  from step.notified [OF this, of pc] step.reset [OF wake(1,2), of pc] show ?case by (simp add: steps_two)
qed (auto intro: steps_one step.intros)

lemma steps_append: "steps pc w w' \<Longrightarrow> steps pc w' w'' \<Longrightarrow> steps pc w w''"
  by (induction rule: steps.induct) (auto intro: steps.intros)

lemma wsteps_steps: "(wstep pc)\<^sup>*\<^sup>* x y \<Longrightarrow> steps pc (ww x) (ww y)"
  by (induction rule: rtranclp_induct) (auto intro: steps_refl steps_append wstep_steps)

lemma steps_run: "steps pc w w' \<Longrightarrow> \<exists>b0. \<forall>b\<ge>b0. run pc b w0 w \<longrightarrow> run pc b w0 w'"
proof (induction rule: steps.induct)
  case (steps_step w w' w'')
  then obtain b0 where "\<forall>b\<ge>b0. run pc b w0 w' \<longrightarrow> run pc b w0 w''" by blast
  then show ?case using steps_step(1) by (intro exI [of _ "max b0 (connecting w')"]) (auto intro: run.further)
qed blast

theorem wakeups_refine_steps:
  assumes "(wstep pc)\<^sup>*\<^sup>* (wworld_new m) y"
  shows "\<exists>b. run pc b (world_new m) (ww y)"
  using steps_run [OF wsteps_steps [OF assms], of "world_new m"] run.here [of pc _ "world_new m"]
  by (auto simp: wworld_new_def)

section \<open>Idle connections and waiting tasks\<close>

definition idle_len :: "pool_manager \<Rightarrow> pool_key \<Rightarrow> nat" where
  "idle_len pm k = (case get_pool pm k of None \<Rightarrow> 0 | Some p \<Rightarrow> length (idle p))"

fun looping_weight :: "pool_key \<Rightarrow> task \<Rightarrow> nat" where
  "looping_weight k (Looping k' dl) = (if k' = k then 1 else 0)"
| "looping_weight k _ = 0"

definition looping :: "world \<Rightarrow> pool_key \<Rightarrow> nat" where
  "looping w k = sum_list (map (looping_weight k) (tasks w))"

lemma looping_become:
  "at_task w i t \<Longrightarrow> looping (become i t' pm w) k + looping_weight k t = looping w k + looping_weight k t'"
  using sum_list_map_upd [of i "tasks w" "looping_weight k" t']
  by (auto simp: looping_def become_def at_task_def)

lemma take_idle_len:
  assumes "take_idle pc now k pm = (r, pm')"
  shows "k' \<noteq> k \<Longrightarrow> idle_len pm' k' = idle_len pm k'"
    and "r = None \<Longrightarrow> idle_len pm' k = 0" and "r = Some s \<Longrightarrow> idle_len pm' k < idle_len pm k"
proof -
  show "k' \<noteq> k \<Longrightarrow> idle_len pm' k' = idle_len pm k'"
    using take_idle_lookup_other [OF assms] by (simp add: idle_len_def)
  show "r = None \<Longrightarrow> idle_len pm' k = 0"
    using assms by (auto simp: take_idle_def pop_idle_closed_form Let_def hit_def pool_lookup idle_len_def
      split: option.splits list.splits)
  show "idle_len pm' k < idle_len pm k" if "r = Some s"
  proof -
    have "take_idle pc now k pm = (Some s, pm')" using assms that by simp
    then obtain p evicted c cs where p: "get_pool pm k = Some p" "idle p = evicted @ c # cs"
        and pm': "pm' = hit k cs ((drop_connection ^^ length evicted) pm)"
      by (auto elim!: take_idle_SomeE)
    then show ?thesis by (simp add: idle_len_def hit_def pool_lookup)
  qed
qed

lemma idle_len_ops [simp]:
  "idle_len (ensure_pool k' pm) = idle_len pm" "idle_len (count_timeout k' pm) = idle_len pm"
  "idle_len (connected k' pm) = idle_len pm" "idle_len (connect_failed k' pm) = idle_len pm"
  "idle_len (drop_connection pm) = idle_len pm"
  by (auto simp: idle_len_def get_ensure_pool count_timeout_def connected_def connect_failed_def pool_lookup pool_new_def
      fun_eq_iff split: option.splits)

lemma idle_len_upd_metrics [simp]: "idle_len (upd_metrics f pm) = idle_len pm"
  by (simp add: idle_len_def fun_eq_iff)

lemma idle_len_check: "check_capacity pc now dl k' pm = (d, pm') \<Longrightarrow> idle_len pm' = idle_len pm"
  by (auto simp: check_capacity_def Let_def split: if_splits)

lemma idle_len_release_begin: "release_begin k' pm = (b, pm') \<Longrightarrow> idle_len pm' = idle_len pm"
  by (auto simp: release_begin_def idle_len_def pool_lookup fun_eq_iff split: option.splits if_splits)

lemma idle_len_release_end:
  "release_end k' s now res pm = (b, pm') \<Longrightarrow> idle_len pm' k \<le> idle_len pm k + (if b \<and> k = k' then 1 else 0)"
  by (auto simp: release_end_def idle_len_def pool_lookup split: sum.splits option.splits)

section \<open>No wake-up is lost when a pass of the loop is not interrupted\<close>

text \<open>
  \<open>undisturbed x y\<close>: no other task runs between the idle scan of a task and its decision to wait,
  bail out or connect.
\<close>

definition undisturbed :: "wworld \<Rightarrow> wworld \<Rightarrow> bool" where
  "undisturbed x y \<longleftrightarrow> (\<forall>i k dl. at_task (ww x) i (Checking k dl) \<longrightarrow> \<not> at_task (ww y) i (Checking k dl))"

definition calm_step :: "pool_config \<Rightarrow> wworld \<Rightarrow> wworld \<Rightarrow> bool" where
  "calm_step pc x y \<longleftrightarrow> wstep pc x y \<and> undisturbed x y"

definition attended :: "world \<Rightarrow> bool" where
  "attended w \<longleftrightarrow>
     (\<forall>k i dl. at_task w i (Waiting k dl) \<longrightarrow> idle_len (mgr w) k \<le> looping w k)
     \<and> (\<forall>k i dl. at_task w i (Checking k dl) \<longrightarrow> idle_len (mgr w) k = 0)"

lemma at_become: "at_task (become i t pm w) j u \<longleftrightarrow> j < length (tasks w) \<and> (if j = i then u = t else at_task w j u)"
  by (auto simp: at_task_def become_def)

lemma attended_become:
  assumes "attended w" "at_task w i t"
    and alone: "\<And>j k dl. j \<noteq> i \<Longrightarrow> \<not> at_task w j (Checking k dl)"
    and bound: "\<And>k. idle_len pm k = 0 \<or> idle_len pm k + looping_weight k t \<le> idle_len (mgr w) k + looping_weight k t'
      \<or> (\<forall>j dl. \<not> at_task w j (Waiting k dl))"
    and own: "\<And>k dl. t' = Waiting k dl \<or> t' = Checking k dl \<Longrightarrow> idle_len pm k = 0"
  shows "attended (become i t' pm w)"
  unfolding attended_def
proof (intro conjI allI impI)
  fix k j dl
  assume a: "at_task (become i t' pm w) j (Waiting k dl)"
  show "idle_len (mgr (become i t' pm w)) k \<le> looping (become i t' pm w) k"
  proof (cases "idle_len pm k = 0")
    case False
    then have "j \<noteq> i" using a own by (auto simp: at_become split: if_splits)
    then have w: "at_task w j (Waiting k dl)" using a by (simp add: at_become)
    then have "idle_len pm k + looping_weight k t \<le> idle_len (mgr w) k + looping_weight k t'" using bound [of k] False by blast
    moreover have "idle_len (mgr w) k \<le> looping w k" using assms(1) w by (auto simp: attended_def)
    ultimately show ?thesis using looping_become [OF assms(2), of t' pm k] by simp
  qed simp
next
  fix k j dl
  assume "at_task (become i t' pm w) j (Checking k dl)"
  then show "idle_len (mgr (become i t' pm w)) k = 0" using alone own by (auto simp: at_become split: if_splits)
qed

lemma attended_same_idle:
  assumes "attended w" "at_task w i t" "\<And>j k dl. j \<noteq> i \<Longrightarrow> \<not> at_task w j (Checking k dl)" "idle_len pm = idle_len (mgr w)"
    and "\<And>k. looping_weight k t \<le> looping_weight k t'"
    and "\<And>k dl. t' = Waiting k dl \<Longrightarrow> \<exists>dl'. t = Checking k dl'" "\<And>k dl. t' \<noteq> Checking k dl"
  shows "attended (become i t' pm w)"
proof (rule attended_become [OF assms(1-3)])
  show "idle_len pm k = 0 \<or> idle_len pm k + looping_weight k t \<le> idle_len (mgr w) k + looping_weight k t'
      \<or> (\<forall>j dl. \<not> at_task w j (Waiting k dl))" for k using assms(4,5) by simp
  show "idle_len pm k = 0" if "t' = Waiting k dl \<or> t' = Checking k dl" for k dl
    using that assms(1,2,4,6,7) unfolding attended_def by metis
qed

lemma only_mover_checks:
  assumes "undisturbed \<lparr>ww = w, permit = P\<rparr> \<lparr>ww = become i t pm w, permit = P'\<rparr>" "j \<noteq> i"
  shows "\<not> at_task w j (Checking k dl)"
  using assms at_task_bound by (fastforce simp: undisturbed_def at_become)

lemma attended_scan:
  assumes "attended w" "at_task w i (Looping k dl)" "\<And>j k dl. j \<noteq> i \<Longrightarrow> \<not> at_task w j (Checking k dl)"
    and "take_idle pc now k (mgr w) = (r, pm)" "\<And>k dl. t' \<noteq> Waiting k dl" "\<And>k' dl. t' = Checking k' dl \<Longrightarrow> k' = k"
    and "r = None \<or> (\<forall>k dl. t' \<noteq> Checking k dl)"
  shows "attended (become i t' pm w)"
proof (rule attended_become [OF assms(1-3)])
  note len = take_idle_len [OF assms(4)]
  show "idle_len pm k' = 0 \<or> idle_len pm k' + looping_weight k' (Looping k dl)
      \<le> idle_len (mgr w) k' + looping_weight k' t' \<or> (\<forall>j dl. \<not> at_task w j (Waiting k' dl))" for k'
    using len(1) [of k'] len(2,3) by (cases "k' = k"; cases r) auto
  show "idle_len pm k' = 0" if "t' = Waiting k' dl' \<or> t' = Checking k' dl'" for k' dl'
    using that assms(5-7) len(2) by auto
qed

lemma attended_store:
  assumes "attended w" "at_task w i (Resetting k s)" "\<And>j k dl. j \<noteq> i \<Longrightarrow> \<not> at_task w j (Checking k dl)"
    and "release_end k s now res (mgr w) = (True, pm)" "\<And>j dl. \<not> at_task w j (Waiting k dl)"
  shows "attended (become i Finished pm w)"
proof (rule attended_become [OF assms(1-3)])
  show "idle_len pm k' = 0 \<or> idle_len pm k' + looping_weight k' (Resetting k s)
      \<le> idle_len (mgr w) k' + looping_weight k' Finished \<or> (\<forall>j dl. \<not> at_task w j (Waiting k' dl))" for k'
    using idle_len_release_end [OF assms(4), of k'] assms(5) by (cases "k' = k") auto
qed auto

lemma attended_wake:
  assumes "attended w" "at_task w i (Resetting k s)" "\<And>j k dl. \<not> at_task w j (Checking k dl)"
    and "release_end k s now res (mgr w) = (True, pm)" "at_task w j (Waiting k dl)"
  shows "attended (become j (Looping k dl) pm (become i Finished pm w))"
proof -
  let ?w1 = "become i Finished (mgr w) w"
  have "i \<noteq> j" using assms(2,5) by (auto simp: at_task_def)
  then have w1: "at_task ?w1 j (Waiting k dl)" using at_task_other [OF assms(5), of i] by simp
  have 1: "attended ?w1" using attended_same_idle [OF assms(1,2), of "mgr w" Finished] assms(3) by simp
  have "attended (become j (Looping k dl) pm ?w1)"
  proof (rule attended_become [OF 1 w1])
    show "idle_len pm k' = 0 \<or> idle_len pm k' + looping_weight k' (Waiting k dl)
        \<le> idle_len (mgr ?w1) k' + looping_weight k' (Looping k dl) \<or> (\<forall>j dl. \<not> at_task ?w1 j (Waiting k' dl))" for k'
      using idle_len_release_end [OF assms(4), of k'] by (cases "k' = k") auto
  qed (use assms(3) in \<open>auto simp: at_become split: if_splits\<close>)
  then show ?thesis by (simp add: become_def)
qed

lemma wake_alone:
  assumes "undisturbed \<lparr>ww = w, permit = P\<rparr> \<lparr>ww = become j t pm (become i t' pm' w), permit = P'\<rparr>"
    and "at_task w i (Resetting k s)" "at_task w j (Waiting k' dl)"
  shows "\<not> at_task w l (Checking k'' dl')"
proof
  assume c: "at_task w l (Checking k'' dl')"
  then have "l \<noteq> i" "l \<noteq> j" using assms(2,3) by (auto simp: at_task_def)
  then have "at_task (become j t pm (become i t' pm' w)) l (Checking k'' dl')" using c by (simp add: at_task_def become_def)
  then show False using assms(1) c by (auto simp: undisturbed_def)
qed

lemma attended_step: "wstep pc x y \<Longrightarrow> undisturbed x y \<Longrightarrow> attended (ww x) \<Longrightarrow> attended (ww y)"
proof (induction rule: wstep.induct)
  case (spawn w P k)
  have at: "at_task (w\<lparr>tasks := tasks w @ [Starting k]\<rparr>) j t \<longleftrightarrow> at_task w j t \<or> j = length (tasks w) \<and> t = Starting k" for j t
    by (auto simp: at_task_def nth_append less_Suc_eq)
  have "looping (w\<lparr>tasks := tasks w @ [Starting k]\<rparr>) = looping w" by (simp add: looping_def fun_eq_iff)
  then show ?case using spawn by (simp add: attended_def at)
next
  case (hit w i k dl now s pm P)
  then show ?case using attended_scan [OF _ hit(1) only_mover_checks [OF hit(3)] hit(2)] by simp
next
  case (miss w i k dl now pm P)
  then show ?case using attended_scan [OF _ miss(1) only_mover_checks [OF miss(3)] miss(2), of "Checking k dl"] by simp
next
  case (reset_failed w i k s now res pm P)
  have "idle_len pm = idle_len (mgr w)"
    using reset_failed(2) by (auto simp: release_end_def split: sum.splits)
  then show ?case
    using attended_same_idle [OF _ reset_failed(1) only_mover_checks [OF reset_failed(3)], of pm Finished] reset_failed(4) by simp
next
  case (store w i k s now res pm P)
  then show ?case using attended_store [OF _ store(1) only_mover_checks [OF store(4)] store(2)] by simp
next
  case (wake w i k s now res pm j dl P)
  then show ?case using attended_wake [OF _ wake(1) wake_alone [OF wake(4,1,3)] wake(2,3)] by simp
next
  case (start w i k P now)
  then show ?case using attended_same_idle [OF _ start(1) only_mover_checks [OF start(2)], of "ensure_pool k (mgr w)"
      "Looping k (now + millis (acquire_timeout_ms pc))"] by simp
next
  case (bail w i k dl now e pm P)
  then show ?case
    using attended_same_idle [OF _ bail(1) only_mover_checks [OF bail(3)], of pm Finished] idle_len_check [OF bail(2)] by simp
next
  case (park w i k dl now pm P)
  then show ?case
    using attended_same_idle [OF _ park(1) only_mover_checks [OF park(4)], of pm "Waiting k dl"] idle_len_check [OF park(2)] by simp
next
  case (take_permit w i k dl now pm P)
  then show ?case
    using attended_same_idle [OF _ take_permit(1) only_mover_checks [OF take_permit(4)], of pm "Looping k dl"] idle_len_check [OF take_permit(2)] by simp
next
  case (create w i k dl now pm P)
  then show ?case
    using attended_same_idle [OF _ create(1) only_mover_checks [OF create(3)], of pm "Connecting k"] idle_len_check [OF create(2)] by simp
next
  case (timed_out w i k dl P)
  then show ?case using attended_same_idle [OF _ timed_out(1) only_mover_checks [OF timed_out(2)], of "count_timeout k (mgr w)" Finished] by simp
next
  case (connect_ok w i k s P)
  then show ?case using attended_same_idle [OF _ connect_ok(1) only_mover_checks [OF connect_ok(3)], of "connected k (mgr w)" "Holding k s"] by simp
next
  case (connect_err w i k P)
  then show ?case using attended_same_idle [OF _ connect_err(1) only_mover_checks [OF connect_err(2)], of "connect_failed k (mgr w)" Finished] by simp
next
  case (abandon w i k s P)
  then show ?case using attended_same_idle [OF _ abandon(1) only_mover_checks [OF abandon(2)], of "mgr w" "Abandoned k"] by simp
next
  case (release_unknown w i k s pm P)
  then show ?case
    using attended_same_idle [OF _ release_unknown(1) only_mover_checks [OF release_unknown(3)], of pm Finished]
      idle_len_release_begin [OF release_unknown(2)] by simp
next
  case (release_known w i k s pm P)
  then show ?case
    using attended_same_idle [OF _ release_known(1) only_mover_checks [OF release_known(3)], of pm "Resetting k s"]
      idle_len_release_begin [OF release_known(2)] by simp
qed

lemma calm_attended: "(calm_step pc)\<^sup>*\<^sup>* (wworld_new m) y \<Longrightarrow> attended (ww y)"
proof (induction rule: rtranclp_induct)
  case base
  then show ?case by (simp add: wworld_new_def world_new_def attended_def at_task_def)
next
  case (step y z)
  then show ?case using attended_step by (auto simp: calm_step_def)
qed

lemma looping_at: "0 < looping w k \<Longrightarrow> \<exists>j dl. at_task w j (Looping k dl)"
proof -
  assume "0 < looping w k"
  then obtain t where "t \<in> set (tasks w)" "0 < looping_weight k t"
    unfolding looping_def by (metis (no_types, lifting) bot_nat_0.not_eq_extremum less_numeral_extra(3) list_all_iff map_eq_conv sum_list_0)
  moreover from this(2) obtain dl where "t = Looping k dl" by (cases t) (auto split: if_splits)
  ultimately show ?thesis by (auto simp: at_task_def in_set_conv_nth)
qed

text \<open>
  C12. If a pass of acquire is not interrupted between its idle scan and its decision to wait, a
  client never keeps waiting beside an idle connection of its pool unattended: some task of that
  pool, woken or newly arrived, is about to scan the queue.
\<close>

theorem no_lost_wakeup:
  assumes "(calm_step pc)\<^sup>*\<^sup>* (wworld_new m) y" "at_task (ww y) i (Waiting k dl)"
    and "get_pool (mgr (ww y)) k = Some p" "idle p \<noteq> []"
  shows "\<exists>j dl'. at_task (ww y) j (Looping k dl')"
proof -
  have "idle_len (mgr (ww y)) k \<le> looping (ww y) k" using calm_attended [OF assms(1)] assms(2) by (auto simp: attended_def)
  then show ?thesis using assms(3,4) by (intro looping_at) (cases "idle p"; simp add: idle_len_def)
qed

section \<open>A lost wake-up\<close>

text \<open>
  An executable scheduler for example schedules. Where \<open>wstep\<close> leaves open which waiting task is woken, the
  schedules choose the one with the smallest index (\<open>notify_one\<close>); every move of the scheduler is a \<open>wstep\<close>.
\<close>

fun waits_on :: "pool_key \<Rightarrow> task \<Rightarrow> bool" where
  "waits_on k (Waiting k' dl) \<longleftrightarrow> k' = k"
| "waits_on k _ \<longleftrightarrow> False"

definition waiter :: "pool_key \<Rightarrow> world \<Rightarrow> nat option" where
  "waiter k w = find (\<lambda>j. waits_on k (tasks w ! j)) [0..<length (tasks w)]"

definition notify_one :: "pool_key \<Rightarrow> wworld \<Rightarrow> wworld" where
  "notify_one k x =
     (case waiter k (ww x) of
        Some j \<Rightarrow> (case task_at (ww x) j of Waiting _ dl \<Rightarrow> x\<lparr>ww := become j (Looping k dl) (mgr (ww x)) (ww x)\<rparr> | _ \<Rightarrow> x)
      | None \<Rightarrow> x\<lparr>permit := (permit x)(k := True)\<rparr>)"

fun wfire :: "pool_config \<Rightarrow> action \<Rightarrow> wworld \<Rightarrow> wworld option" where
  "wfire pc (Check i now) x =
     (case fire pc (Check i now) (ww x) of
        None \<Rightarrow> None
      | Some w' \<Rightarrow>
          (case task_at w' i of
             Waiting k dl \<Rightarrow>
               if permit x k then Some \<lparr>ww = become i (Looping k dl) (mgr w') w', permit = (permit x)(k := False)\<rparr>
               else Some (x\<lparr>ww := w'\<rparr>)
           | _ \<Rightarrow> Some (x\<lparr>ww := w'\<rparr>)))"
| "wfire pc (Wake i r) x = (case r of Notified \<Rightarrow> None | TimedOut \<Rightarrow> map_option (\<lambda>w'. x\<lparr>ww := w'\<rparr>) (fire pc (Wake i r) (ww x)))"
| "wfire pc (Reset i now res) x =
     (case task_at (ww x) i of
        Resetting k s \<Rightarrow>
          (case release_end k s now res (mgr (ww x)) of
             (b, pm) \<Rightarrow> let x' = x\<lparr>ww := become i Finished pm (ww x)\<rparr> in Some (if b then notify_one k x' else x'))
      | _ \<Rightarrow> None)"
| "wfire pc a x = map_option (\<lambda>w'. x\<lparr>ww := w'\<rparr>) (fire pc a (ww x))"

lemma waits_on_iff: "waits_on k t \<longleftrightarrow> (\<exists>dl. t = Waiting k dl)"
  by (cases t) auto

lemma waiter_Some: "waiter k w = Some j \<Longrightarrow> \<exists>dl. at_task w j (Waiting k dl)"
  by (auto simp: waiter_def find_Some_iff at_task_def waits_on_iff)

lemma waiter_None: "waiter k w = None \<Longrightarrow> \<not> at_task w j (Waiting k dl)"
  by (auto simp: waiter_def find_None_iff at_task_def waits_on_iff)

lemma reset_notify:
  assumes "at_task w i (Resetting k s)" "release_end k s now res (mgr w) = (True, pm)"
  shows "wstep pc \<lparr>ww = w, permit = P\<rparr> (notify_one k \<lparr>ww = become i Finished pm w, permit = P\<rparr>)"
proof (cases "waiter k (become i Finished pm w)")
  case None
  have "\<not> at_task w j (Waiting k dl)" for j dl
  proof
    assume a: "at_task w j (Waiting k dl)"
    then have "j \<noteq> i" using assms(1) by (auto simp: at_task_def)
    from at_task_other [OF a this] waiter_None [OF None] show False by blast
  qed
  then show ?thesis using store [OF assms] None by (simp add: notify_one_def)
next
  case (Some j)
  then obtain dl where a: "at_task (become i Finished pm w) j (Waiting k dl)" using waiter_Some by blast
  then have "at_task w j (Waiting k dl)" by (auto simp: at_become split: if_splits)
  from wake [OF assms this] show ?thesis using Some at_task [OF a] by (simp add: notify_one_def)
qed

lemma wfire_wstep: "wfire pc a x = Some y \<Longrightarrow> wstep pc x y"
proof -
  assume f: "wfire pc a x = Some y"
  obtain w P where x: "x = \<lparr>ww = w, permit = P\<rparr>" by (cases x)
  show ?thesis
  proof (cases a)
    case (Reset i now res)
    obtain k s where t: "at_task w i (Resetting k s)"
      using f Reset x by (auto split: task.splits dest: task_at)
    obtain b pm where r: "release_end k s now res (mgr w) = (b, pm)" by fastforce
    have "y = (if b then notify_one k \<lparr>ww = become i Finished pm w, permit = P\<rparr> else \<lparr>ww = become i Finished pm w, permit = P\<rparr>)"
      using f Reset x r at_task [OF t] by (simp add: Let_def)
    then show ?thesis using reset_notify [OF t, of now res pm pc P] reset_failed [OF t, of now res pm pc P] r x by (cases b) auto
  next
    case (Check i now)
    obtain k dl where t: "at_task w i (Checking k dl)"
      using f Check x by (auto split: task.splits dest: task_at)
    obtain d pm where c: "check_capacity pc now dl k (mgr w) = (d, pm)" by fastforce
    have b: "task_at (become i t' pm w) i = t'" for t' using t by (simp add: task_at_def become_def at_task_def)
    show ?thesis
      using f Check x c at_task [OF t] b wstep.intros(5-8) [OF t]
      by (cases d) (auto split: if_splits)
  next
    case (Wake i r)
    then show ?thesis using f x by (auto split: task.splits wake.splits dest!: task_at intro: wstep.intros)
  qed (use f x in \<open>auto split: task.splits option.splits prod.splits decision.splits wake.splits if_splits bool.splits
       dest!: task_at intro: wstep.intros\<close>)
qed

fun wplay :: "pool_config \<Rightarrow> action list \<Rightarrow> wworld \<Rightarrow> wworld option" where
  "wplay pc [] x = Some x"
| "wplay pc (a # as) x = (case wfire pc a x of Some y \<Rightarrow> wplay pc as y | None \<Rightarrow> None)"

lemma wplay_wsteps: "wplay pc as x = Some y \<Longrightarrow> (wstep pc)\<^sup>*\<^sup>* x y"
  by (induction as arbitrary: x)
    (auto split: option.splits intro: converse_rtranclp_into_rtranclp wfire_wstep)

text \<open>
  Two connections allowed and both lent. Two more clients find the queue empty; before they wait, both
  connections come back. The second \<^verbatim>\<open>notify_one\<close> finds the permit of the first still stored.
\<close>

definition two_per_pool :: pool_config where
  "two_per_pool = default_pool_config\<lparr>max_connections_per_pool := 2\<rparr>"

definition coalesced :: "action list" where
  "coalesced =
     [Spawn key1, Start 0 0, Scan 0 0, Check 0 0, Connect 0 (Some 7),
      Spawn key1, Start 1 0, Scan 1 0, Check 1 0, Connect 1 (Some 8),
      Spawn key1, Start 2 0, Scan 2 0, Spawn key1, Start 3 0, Scan 3 0,
      Release 0, Reset 0 0 (Inr ()), Release 1, Reset 1 0 (Inr ()),
      Check 2 0, Scan 2 0, Check 3 0]"

lemma coalesced_play:
  "map_option (\<lambda>x. (map_option (\<lambda>p. map pc_stream (idle p)) (get_pool (mgr (ww x)) key1), tasks (ww x), permit x key1))
     (wplay two_per_pool coalesced (wworld_new metrics_new)) =
   Some (Some [8], [Finished, Finished, Holding key1 7, Waiting key1 5000000000], False)"
  by (simp add: coalesced_def wworld_new_def eval_defs two_per_pool_def word_le_nat_alt notify_one_def waiter_def millis_def
      secs_def expired_def idle_too_long_def)

text \<open>
  A reachable state in which a wake-up is lost: two connections were returned between the idle scans of two
  clients and their decisions to wait, and one client waits, with no permit stored, while a connection of
  its pool is idle. It goes on when a further connection of the pool is returned (here the other client
  still holds one) or its time is up.
\<close>

theorem lost_wakeup:
  "\<exists>y p dl. (wstep two_per_pool)\<^sup>*\<^sup>* (wworld_new metrics_new) y
     \<and> tasks (ww y) = [Finished, Finished, Holding key1 7, Waiting key1 dl]
     \<and> get_pool (mgr (ww y)) key1 = Some p \<and> map pc_stream (idle p) = [8] \<and> \<not> permit y key1"
proof -
  obtain y where y: "wplay two_per_pool coalesced (wworld_new metrics_new) = Some y"
    "map_option (\<lambda>p. map pc_stream (idle p)) (get_pool (mgr (ww y)) key1) = Some [8]"
    "tasks (ww y) = [Finished, Finished, Holding key1 7, Waiting key1 5000000000]" "\<not> permit y key1"
    using coalesced_play by (auto simp: map_option_eq_Some)
  then show ?thesis using wplay_wsteps [OF y(1)] by (auto simp: map_option_eq_Some)
qed

section \<open>Instances\<close>

fun leaves_check :: "task \<Rightarrow> task \<Rightarrow> bool" where
  "leaves_check (Checking k dl) t \<longleftrightarrow> t \<noteq> Checking k dl"
| "leaves_check _ t \<longleftrightarrow> True"

fun cplay :: "pool_config \<Rightarrow> action list \<Rightarrow> wworld \<Rightarrow> wworld option" where
  "cplay pc [] x = Some x"
| "cplay pc (a # as) x =
     (case wfire pc a x of
        Some y \<Rightarrow> if list_all2 leaves_check (tasks (ww x)) (take (length (tasks (ww x))) (tasks (ww y))) then cplay pc as y else None
      | None \<Rightarrow> None)"

lemma leaves_check_undisturbed:
  assumes "list_all2 leaves_check (tasks (ww x)) (take (length (tasks (ww x))) (tasks (ww y)))"
  shows "undisturbed x y"
  unfolding undisturbed_def
proof (intro allI impI notI)
  fix i k dl
  assume a: "at_task (ww x) i (Checking k dl)" "at_task (ww y) i (Checking k dl)"
  then have "leaves_check (tasks (ww x) ! i) (take (length (tasks (ww x))) (tasks (ww y)) ! i)"
    using list_all2_nthD [OF assms, of i] by (simp add: at_task_def)
  then show False using a by (simp add: at_task_def)
qed

lemma cplay_calm: "cplay pc as x = Some y \<Longrightarrow> (calm_step pc)\<^sup>*\<^sup>* x y"
proof (induction as arbitrary: x)
  case (Cons a as)
  then obtain z where z: "wfire pc a x = Some z" "cplay pc as z = Some y"
    "list_all2 leaves_check (tasks (ww x)) (take (length (tasks (ww x))) (tasks (ww z)))"
    by (auto split: option.splits if_splits)
  then have "calm_step pc x z" using wfire_wstep leaves_check_undisturbed by (simp add: calm_step_def)
  then show ?case using Cons.IH [OF z(2)] by (rule converse_rtranclp_into_rtranclp)
qed simp

definition handover :: "action list" where
  "handover =
     [Spawn key1, Start 0 0, Scan 0 0, Check 0 0, Connect 0 (Some 7),
      Spawn key1, Start 1 0, Scan 1 0, Check 1 0, Spawn key1, Start 2 0, Scan 2 0, Check 2 0,
      Release 0, Reset 0 0 (Inr ())]"

lemma handover_play:
  "map_option (\<lambda>x. (map_option (\<lambda>p. map pc_stream (idle p)) (get_pool (mgr (ww x)) key1), tasks (ww x)))
     (cplay one_per_pool handover (wworld_new metrics_new)) =
   Some (Some [7], [Finished, Looping key1 5000000000, Waiting key1 5000000000])"
  by (simp add: handover_def wworld_new_def eval_defs one_per_pool_def word_le_nat_alt notify_one_def waiter_def millis_def
      secs_def expired_def idle_too_long_def)

lemma no_lost_wakeup_witness:
  "\<exists>y. (calm_step one_per_pool)\<^sup>*\<^sup>* (wworld_new metrics_new) y \<and> at_task (ww y) 2 (Waiting key1 5000000000)
     \<and> (\<exists>j dl. at_task (ww y) j (Looping key1 dl))"
proof -
  obtain y where y: "cplay one_per_pool handover (wworld_new metrics_new) = Some y"
    "map_option (\<lambda>p. map pc_stream (idle p)) (get_pool (mgr (ww y)) key1) = Some [7]"
    "tasks (ww y) = [Finished, Looping key1 5000000000, Waiting key1 5000000000]"
    using handover_play by (auto simp: map_option_eq_Some)
  obtain p where p: "get_pool (mgr (ww y)) key1 = Some p" "idle p \<noteq> []" using y(2) by (auto simp: map_option_eq_Some)
  have a: "at_task (ww y) 2 (Waiting key1 5000000000)" using y(3) by (simp add: at_task_def)
  from no_lost_wakeup [OF cplay_calm [OF y(1)] a p] a cplay_calm [OF y(1)] show ?thesis by blast
qed

lemma wakeups_refine_steps_witness:
  "\<exists>y b. wplay two_per_pool coalesced (wworld_new metrics_new) = Some y \<and> run two_per_pool b (world_new metrics_new) (ww y)"
proof -
  obtain y where y: "wplay two_per_pool coalesced (wworld_new metrics_new) = Some y"
    using coalesced_play by (auto simp: map_option_eq_Some)
  from wakeups_refine_steps [OF wplay_wsteps [OF y]] y show ?thesis by blast
qed

end
