(* ===== verification/Pool_Lockout.thy ===== *)
theory Pool_Lockout
  imports Pool_Wakeups
begin

text \<open>
  Who may close an idle connection, and who is told (\<^verbatim>\<open>src/pool/mod.rs\<close>). Only the scan of \<^verbatim>\<open>acquire\<close> for the
  connection's own key removes stale entries, so \<^verbatim>\<open>idle_timeout_secs\<close> and \<^verbatim>\<open>max_connection_lifetime_secs\<close>
  take effect when the next client of that key arrives; until then the entries count against
  \<^verbatim>\<open>max_total_connections\<close>. A connection that is closed, by the scan or after a failed reset, notifies no
  waiting task.
\<close>

section \<open>All connections idle in pools nobody asks for\<close>

fun queueing :: "pool_key set \<Rightarrow> task \<Rightarrow> bool" where
  "queueing K (Starting k) \<longleftrightarrow> k \<notin> K"
| "queueing K (Looping k dl) \<longleftrightarrow> k \<notin> K"
| "queueing K (Checking k dl) \<longleftrightarrow> k \<notin> K"
| "queueing K (Waiting k dl) \<longleftrightarrow> k \<notin> K"
| "queueing K (Abandoned k) \<longleftrightarrow> True"
| "queueing K Finished \<longleftrightarrow> True"
| "queueing K _ \<longleftrightarrow> False"

definition locked :: "pool_config \<Rightarrow> pool_key set \<Rightarrow> world \<Rightarrow> bool" where
  "locked pc K w \<longleftrightarrow> ucast (max_total_connections pc) \<le> total_server_connections (mgr w)
     \<and> (\<forall>k. k \<notin> K \<longrightarrow> idle_len (mgr w) k = 0) \<and> list_all (queueing K) (tasks w)"

text \<open>Steps in which no client of the keys \<open>K\<close> arrives.\<close>

inductive arrivals :: "pool_config \<Rightarrow> pool_key set \<Rightarrow> world \<Rightarrow> world \<Rightarrow> bool" for pc K w where
  none: "arrivals pc K w w"
| more: "arrivals pc K w w' \<Longrightarrow> step pc w' w'' \<Longrightarrow> \<forall>k\<in>K. Starting k \<notin> set (tasks w'') \<Longrightarrow> arrivals pc K w w''"

lemma take_idle_empty:
  assumes "take_idle pc now k pm = (r, pm')" "idle_len pm k = 0"
  shows "r = None \<and> total_server_connections pm' = total_server_connections pm \<and> (\<forall>k'. idle_len pm' k' = idle_len pm k')
    \<and> (\<forall>k'. k' \<noteq> k \<longrightarrow> get_pool pm' k' = get_pool pm k')"
  using assms take_idle_lookup_other [OF assms(1)]
  by (auto simp: take_idle_def idle_len_def pool_lookup split: option.splits if_splits)

lemma check_capacity_full:
  assumes "check_capacity pc now dl k pm = (d, pm')" "ucast (max_total_connections pc) \<le> total_server_connections pm"
  shows "d \<noteq> Create \<and> (pm' = pm \<or> pm' = count_timeout k pm)"
  using assms by (auto simp: check_capacity_def Let_def split: if_splits)

lemma count_timeout_pools:
  "idle_len (count_timeout k pm) k' = idle_len pm k'" "k' \<in> K \<Longrightarrow> k \<notin> K \<Longrightarrow> get_pool (count_timeout k pm) k' = get_pool pm k'"
  by (auto simp: count_timeout_def idle_len_def pool_lookup split: option.splits)

lemma ensure_pool_pools:
  "idle_len (ensure_pool k pm) k' = idle_len pm k'" "k' \<in> K \<Longrightarrow> k \<notin> K \<Longrightarrow> get_pool (ensure_pool k pm) k' = get_pool pm k'"
  by (auto simp: idle_len_def get_ensure_pool pool_new_def)

lemma queueing_become:
  "list_all (queueing K) (tasks w) \<Longrightarrow> queueing K t \<Longrightarrow> list_all (queueing K) (tasks (become i t pm w))"
  by (auto simp: become_def list_all_iff dest!: set_update_subset_insert [THEN subsetD])

lemma at_task_queueing: "at_task w i t \<Longrightarrow> list_all (queueing K) (tasks w) \<Longrightarrow> queueing K t"
  by (auto simp: at_task_def list_all_length)

lemma locked_step:
  assumes "step pc w w'" "locked pc K w" "\<forall>k\<in>K. Starting k \<notin> set (tasks w')"
  shows "locked pc K w' \<and> total_server_connections (mgr w') = total_server_connections (mgr w)
    \<and> (\<forall>k\<in>K. get_pool (mgr w') k = get_pool (mgr w) k)"
proof -
  have l: "ucast (max_total_connections pc) \<le> total_server_connections (mgr w)" "\<forall>k. k \<notin> K \<longrightarrow> idle_len (mgr w) k = 0"
    "list_all (queueing K) (tasks w)" using assms(2) by (simp_all add: locked_def)
  note q = at_task_queueing [OF _ l(3)]
  show ?thesis
    using assms(1)
  proof (cases rule: step.cases)
    case (spawn k)
    then show ?thesis using l assms(3) by (auto simp: locked_def)
  next
    case (start i k now)
    then have "k \<notin> K" using q by fastforce
    then show ?thesis using start l ensure_pool_pools [where pm = "mgr w"]
      by (auto simp: locked_def intro: queueing_become)
  next
    case (hit i k dl now s pm)
    then have "k \<notin> K" using q by fastforce
    then show ?thesis using hit l take_idle_empty [OF hit(3)] by simp
  next
    case (miss i k dl now pm)
    then have "k \<notin> K" using q by fastforce
    then show ?thesis using miss l take_idle_empty [OF miss(3)] by (auto simp: locked_def intro: queueing_become)
  next
    case (bail i k dl now e pm)
    then have "k \<notin> K" using q by fastforce
    then show ?thesis
      using bail l check_capacity_full [OF bail(3) l(1)] count_timeout_pools [where pm = "mgr w"]
      by (auto simp: locked_def intro: queueing_become)
  next
    case (wait i k dl now pm)
    then have "k \<notin> K" using q by fastforce
    then show ?thesis
      using wait l check_capacity_full [OF wait(3) l(1)] count_timeout_pools [where pm = "mgr w"]
      by (auto simp: locked_def intro: queueing_become)
  next
    case (create i k dl now pm)
    then show ?thesis using check_capacity_full [OF create(3) l(1)] by simp
  next
    case (notified i k dl)
    then have "k \<notin> K" using q by fastforce
    then show ?thesis using notified l by (auto simp: locked_def intro: queueing_become)
  next
    case (timed_out i k dl)
    then have "k \<notin> K" using q by fastforce
    then show ?thesis using timed_out l count_timeout_pools [where pm = "mgr w"] by (auto simp: locked_def intro: queueing_become)
  next
    case (release_unknown i k s pm)
    then show ?thesis using q by fastforce
  qed (use q in fastforce)+
qed

lemma locked_arrivals:
  assumes "arrivals pc K w w'" "locked pc K w"
  shows "locked pc K w' \<and> total_server_connections (mgr w') = total_server_connections (mgr w)
    \<and> (\<forall>k\<in>K. get_pool (mgr w') k = get_pool (mgr w) k)"
  using assms by (induction rule: arrivals.induct) (auto dest!: locked_step)

text \<open>
  C13. When all allowed connections lie idle in pools of other users, no client of another pool
  ever gets or opens a connection, in any interleaving and however long the idle connections
  exceed their timeouts, until a client of one of those pools arrives: stale connections are only
  evicted by acquire for their own key.
\<close>

theorem idle_connections_lock_out:
  assumes "locked pc K w" "arrivals pc K w w'"
  shows "\<not> at_task w' i (Connecting k) \<and> \<not> at_task w' i (Holding k s)
    \<and> total_server_connections (mgr w') = total_server_connections (mgr w)
    \<and> (\<forall>k\<in>K. get_pool (mgr w') k = get_pool (mgr w) k)"
proof -
  have "locked pc K w'" using locked_arrivals [OF assms(2,1)] by blast
  then have "at_task w' i t \<Longrightarrow> queueing K t" for t using at_task_queueing by (auto simp: locked_def)
  then show ?thesis using locked_arrivals [OF assms(2,1)] by fastforce
qed

section \<open>Closed connections wake nobody\<close>

text \<open>A waiting task goes on only because a connection of its own key was put into the idle queue, or its time is up.\<close>

lemma waiting_stays:
  assumes "at_task w i (Waiting k dl)" "at_task w j t" "t \<noteq> Waiting k dl"
  shows "at_task (become j t' pm w) i (Waiting k dl)"
  using assms by (cases "i = j") (auto simp: at_task_def become_def)

text \<open>
  C35. A waiting client goes on only when its time is up or when a connection of its own key was
  reset and queued: a connection that is closed, or returned to another pool, wakes nobody.
\<close>

theorem only_returned_connections_wake:
  assumes "wstep pc x y" "at_task (ww x) i (Waiting k dl)"
  shows "at_task (ww y) i (Waiting k dl) \<or> at_task (ww y) i Finished
    \<or> at_task (ww y) i (Looping k dl) \<and> (\<exists>j s now pm. at_task (ww x) j (Resetting k s)
        \<and> release_end k s now (Inr ()) (mgr (ww x)) = (True, pm) \<and> mgr (ww y) = pm)"
  using assms
proof (induction rule: wstep.induct)
  case (spawn w P k')
  then show ?case by (auto simp: at_task_def nth_append)
next
  case (timed_out w j k' dl' P)
  then show ?case by (cases "i = j") (auto simp: at_task_def become_def)
next
  case (wake w j k' s now res pm j' dl' P)
  then have j: "at_task (become j Finished pm w) i (Waiting k dl)" using waiting_stays by simp
  show ?case
  proof (cases "i = j'")
    case True
    then have "k' = k \<and> dl' = dl" using wake(3,4) by (simp add: at_task_def)
    moreover have "res = Inr ()" using wake(2) by (cases res) (simp_all add: release_end_def)
    ultimately show ?thesis using wake(1,2) j True by (auto dest: at_task_bound)
  qed (use j at_task_other in simp)
qed (auto intro: waiting_stays)

definition failed_reset :: "action list" where
  "failed_reset =
     [Spawn key1, Start 0 0, Scan 0 0, Check 0 0, Connect 0 (Some 7), Spawn key1, Start 1 0, Scan 1 0, Check 1 0,
      Release 0, Reset 0 0 (Inl BackendDisconnectedDuringReset)]"

lemma failed_reset_play:
  "map_option (\<lambda>x. (total_server_connections (mgr (ww x)), tasks (ww x), permit x key1))
     (wplay one_connection failed_reset (wworld_new metrics_new)) = Some (0, [Finished, Waiting key1 5000000000], False)"
  by (simp add: failed_reset_def wworld_new_def eval_defs word_le_nat_alt millis_def)

theorem closed_connection_wakes_nobody:
  "\<exists>y dl. (wstep one_connection)\<^sup>*\<^sup>* (wworld_new metrics_new) y
     \<and> tasks (ww y) = [Finished, Waiting key1 dl] \<and> total_server_connections (mgr (ww y)) = 0 \<and> \<not> permit y key1"
proof -
  obtain y where y: "wplay one_connection failed_reset (wworld_new metrics_new) = Some y"
    "total_server_connections (mgr (ww y)) = 0" "tasks (ww y) = [Finished, Waiting key1 5000000000]" "\<not> permit y key1"
    using failed_reset_play by (auto simp: map_option_eq_Some)
  then show ?thesis using wplay_wsteps [OF y(1)] by blast
qed

section \<open>Instances\<close>

definition key2 :: pool_key where
  "key2 = key1\<lparr>pk_user := ''bob''\<rparr>"

definition left_idle :: "action list" where
  "left_idle = [Spawn key1, Start 0 0, Scan 0 0, Check 0 0, Connect 0 (Some 7), Release 0, Reset 0 0 (Inr ())]"

definition turned_away :: "action list" where
  "turned_away = [Spawn key2, Start 1 9000000000000, Scan 1 9000000000000, Check 1 9000000000000, Wake 1 TimedOut]"

lemma fire_arrival:
  assumes "fire pc a w = Some w'" "a \<noteq> Spawn k" "Starting k \<notin> set (tasks w)"
  shows "Starting k \<notin> set (tasks w')"
  using assms
  by (cases a)
    (auto simp: become_def split: task.splits option.splits prod.splits decision.splits wake.splits if_splits bool.splits
      dest!: set_update_subset_insert [THEN subsetD])

lemma play_arrivals:
  assumes "play pc b as w = Some w'" "\<forall>k\<in>K. Spawn k \<notin> set as \<and> Starting k \<notin> set (tasks w)" "arrivals pc K w0 w"
  shows "arrivals pc K w0 w'"
  using assms
proof (induction as arbitrary: w)
  case (Cons a as)
  then obtain v where v: "fire pc a w = Some v" "play pc b as v = Some w'" by (auto split: option.splits if_splits)
  have k: "\<forall>k\<in>K. Starting k \<notin> set (tasks v)" using Cons.prems(2) fire_arrival [OF v(1)] by auto
  then have "arrivals pc K w0 v" using arrivals.more [OF Cons.prems(3) fire_step [OF v(1)]] by blast
  then show ?case using Cons.IH [OF v(2)] Cons.prems(2) k by auto
qed simp

lemma unknown_pool_idle: "k \<notin> fst ` set (pools pm) \<Longrightarrow> idle_len pm k = 0"
  by (simp add: idle_len_def get_pool_def map_of_eq_None_iff [THEN iffD2])

lemma left_idle_play:
  "map_option (\<lambda>w. (total_server_connections (mgr w), tasks w, map fst (pools (mgr w))))
     (play one_connection 1 left_idle (world_new metrics_new)) = Some (1, [Finished], [key1])"
  by (simp add: left_idle_def eval_defs word_le_nat_alt)

lemma turned_away_play:
  "map_option (\<lambda>w. (total_server_connections (mgr w), tasks w))
     (play one_connection 1 (left_idle @ turned_away) (world_new metrics_new)) = Some (1, [Finished, Finished])"
  by (simp add: left_idle_def turned_away_def eval_defs word_le_nat_alt millis_def key1_def key2_def)

lemma play_append: "play pc b (as @ bs) w = Some w'' \<longleftrightarrow> (\<exists>w'. play pc b as w = Some w' \<and> play pc b bs w' = Some w'')"
  by (induction as arbitrary: w) (auto split: option.splits)

lemma idle_connections_lock_out_witness:
  "\<exists>w w'. run one_connection 1 (world_new metrics_new) w \<and> locked one_connection {key1} w \<and> arrivals one_connection {key1} w w'
    \<and> tasks w' = [Finished, Finished] \<and> get_pool (mgr w') key1 = get_pool (mgr w) key1"
proof -
  obtain w' where w': "play one_connection 1 (left_idle @ turned_away) (world_new metrics_new) = Some w'" "tasks w' = [Finished, Finished]"
    using turned_away_play by (auto simp: map_option_eq_Some)
  then obtain w where w: "play one_connection 1 left_idle (world_new metrics_new) = Some w"
    "play one_connection 1 turned_away w = Some w'" by (auto simp: play_append)
  have f: "total_server_connections (mgr w) = 1" "tasks w = [Finished]" "map fst (pools (mgr w)) = [key1]"
    using left_idle_play w(1) by simp_all
  have "fst ` set (pools (mgr w)) = {key1}" using arg_cong [OF f(3), of set] by simp
  then have l: "locked one_connection {key1} w"
    using f(1,2) unknown_pool_idle [of _ "mgr w"] by (simp add: locked_def one_connection_def word_le_nat_alt)
  have "Spawn key1 \<notin> set turned_away" by (simp add: turned_away_def key1_def key2_def)
  then have a: "arrivals one_connection {key1} w w'" using play_arrivals [OF w(2) _ arrivals.none] f(2) by simp
  have "run one_connection 1 (world_new metrics_new) w" by (rule play_run [OF w(1) run.here])
  then show ?thesis using l a w'(2) idle_connections_lock_out [OF l a] by blast
qed

lemma only_returned_connections_wake_witness:
  "\<exists>x y j s now pm. wstep one_connection x y \<and> at_task (ww x) 1 (Waiting key1 5) \<and> at_task (ww y) 1 (Looping key1 5)
    \<and> at_task (ww x) j (Resetting key1 s) \<and> release_end key1 s now (Inr ()) (mgr (ww x)) = (True, pm) \<and> mgr (ww y) = pm"
proof -
  let ?w = "\<lparr>mgr = pool_manager_new metrics_new, tasks = [Resetting key1 7, Waiting key1 5]\<rparr>"
  have t: "at_task ?w 0 (Resetting key1 7)" "at_task ?w 1 (Waiting key1 5)" by (simp_all add: at_task_def)
  obtain pm where pm: "release_end key1 7 0 (Inr ()) (mgr ?w) = (True, pm)" by (simp add: release_end_def)
  let ?y = "\<lparr>ww = become 1 (Looping key1 5) pm (become 0 Finished pm ?w), permit = (\<lambda>_. False)\<rparr>"
  have s: "wstep one_connection \<lparr>ww = ?w, permit = (\<lambda>_. False)\<rparr> ?y" by (rule wstep.wake [OF t(1) pm t(2)])
  have y: "at_task (ww ?y) 1 (Looping key1 5)" by (simp add: at_task_def become_def)
  have x: "at_task (ww \<lparr>ww = ?w, permit = (\<lambda>_. False)\<rparr>) 1 (Waiting key1 5)" using t(2) by simp
  have "\<not> at_task (ww ?y) 1 (Waiting key1 5)" "\<not> at_task (ww ?y) 1 Finished" using y by (simp_all add: at_task_def)
  then show ?thesis using only_returned_connections_wake [OF s x] x y s by blast
qed

end
