(* ===== verification/Monitor.thy ===== *)
theory Monitor
  imports Metrics "HOL-Library.AList" "HOL-Library.List_Lexorder" "HOL-Library.Char_ord"
begin

text \<open>
  \<^verbatim>\<open>src/monitor/mod.rs\<close>: the registry of database sizes, size limits and client sessions, and
  the size check that updates the sessions' over-limit flags. A \<^verbatim>\<open>DashMap\<close> is an association list
  with one entry per key. A session's flag is an \<^verbatim>\<open>Arc<AtomicBool>\<close> shared between the registry and
  the client's task: the registry holds its address in \<open>flag_store\<close>, which only grows, so that the
  flag of an unregistered session stays readable by its task. \<^verbatim>\<open>SESSION_ID_COUNTER\<close> is part of the
  state and wraps around at 64 bits.

  The connection to the database server (\<^verbatim>\<open>tokio_postgres\<close>) is a parameter of \<open>check_all_sizes\<close>:
  the error of the connection attempt, or what each size query returns.

  The metrics updated here (\<^verbatim>\<open>db_size_bytes\<close>, \<^verbatim>\<open>db_size_limit_bytes\<close>, \<^verbatim>\<open>db_over_limit\<close>) are updated by no
  other component.
\<close>

section \<open>State\<close>

record session_limit =
  sl_database :: string
  sl_limit_bytes :: u64
  sl_over_limit :: nat

record db_monitor =
  db_sizes :: "(string \<times> u64) list"
  db_limits :: "(string \<times> u64) list"
  sessions :: "(u64 \<times> session_limit) list"
  session_id_counter :: u64
  flag_store :: "bool list"
  mon_metrics :: metrics

definition monitor_new :: "metrics \<Rightarrow> db_monitor" where
  "monitor_new m =
     \<lparr>db_sizes = [], db_limits = [], sessions = [], session_id_counter = 1, flag_store = [], mon_metrics = m\<rparr>"

section \<open>Operations\<close>

definition register_limit :: "string \<Rightarrow> u64 \<Rightarrow> db_monitor \<Rightarrow> db_monitor" where
  "register_limit database max_bytes mon = mon\<lparr>db_limits := AList.update database max_bytes (db_limits mon)\<rparr>"

definition get_db_size :: "db_monitor \<Rightarrow> string \<Rightarrow> u64 option" where
  "get_db_size mon database = map_of (db_sizes mon) database"

definition get_db_limit :: "config \<Rightarrow> db_monitor \<Rightarrow> string \<Rightarrow> u64 option" where
  "get_db_limit cfg mon database =
     (case map_of (db_limits mon) database of
        Some l \<Rightarrow> Some l
      | None \<Rightarrow> if 0 < default_max_db_size_bytes (monitor_cfg cfg)
                then Some (default_max_db_size_bytes (monitor_cfg cfg)) else None)"

definition register_session :: "string \<Rightarrow> u64 \<Rightarrow> db_monitor \<Rightarrow> (u64 \<times> nat) \<times> db_monitor" where
  "register_session database limit_bytes mon =
     (let i = session_id_counter mon;
          addr = length (flag_store mon);
          flag = (0 < limit_bytes \<and>
                  (case get_db_size mon database of Some current_size \<Rightarrow> limit_bytes < current_size | None \<Rightarrow> False));
          s = \<lparr>sl_database = database, sl_limit_bytes = limit_bytes, sl_over_limit = addr\<rparr>
      in ((i, addr), mon\<lparr>session_id_counter := i + 1, flag_store := flag_store mon @ [flag],
                         sessions := AList.update i s (sessions mon)\<rparr>))"

definition unregister_session :: "u64 \<Rightarrow> db_monitor \<Rightarrow> db_monitor" where
  "unregister_session i mon = mon\<lparr>sessions := AList.delete i (sessions mon)\<rparr>"

text \<open>\<^verbatim>\<open>flag.load(..)\<close> by the task that holds the \<^verbatim>\<open>Arc\<close>.\<close>

definition load_flag :: "db_monitor \<Rightarrow> nat \<Rightarrow> bool" where
  "load_flag mon addr = (addr < length (flag_store mon) \<and> flag_store mon ! addr)"

record db_size_info =
  di_database :: string
  di_size_bytes :: "u64 option"
  di_limit_bytes :: "u64 option"
  di_over_limit :: bool

definition db_info :: "config \<Rightarrow> db_monitor \<Rightarrow> string \<Rightarrow> db_size_info" where
  "db_info cfg mon db =
     (let sz = get_db_size mon db; limit = get_db_limit cfg mon db
      in \<lparr>di_database = db, di_size_bytes = sz, di_limit_bytes = limit,
          di_over_limit = (case (sz, limit) of (Some s, Some l) \<Rightarrow> l < s | _ \<Rightarrow> False)\<rparr>)"

definition get_all_db_info :: "config \<Rightarrow> db_monitor \<Rightarrow> db_size_info list" where
  "get_all_db_info cfg mon =
     (let databases = remdups (map fst (db_sizes mon) @ map fst (db_limits mon))
      in sort_key di_database (map (db_info cfg mon) databases))"

section \<open>The size check\<close>

text \<open>The arm of one answered size query; \<^verbatim>\<open>size as u64\<close> keeps the bits of the \<^verbatim>\<open>i64\<close>.\<close>

definition record_size :: "config \<Rightarrow> string \<Rightarrow> i64 \<Rightarrow> db_monitor \<Rightarrow> db_monitor" where
  "record_size cfg db answer mon =
     (let sz = (answer :: u64);
          mon = mon\<lparr>db_sizes := AList.update db sz (db_sizes mon)\<rparr>;
          m = (mon_metrics mon)\<lparr>db_size_bytes := (db_size_bytes (mon_metrics mon))(db \<mapsto> u64_as_f64 sz)\<rparr>
      in case get_db_limit cfg mon db of
           None \<Rightarrow> mon\<lparr>mon_metrics := m\<rparr>
         | Some limit \<Rightarrow>
             mon\<lparr>mon_metrics :=
               m\<lparr>db_size_limit_bytes := (db_size_limit_bytes m)(db \<mapsto> u64_as_f64 limit),
                 db_over_limit := (db_over_limit m)(db \<mapsto> (if limit < sz then 1 else 0))\<rparr>\<rparr>)"

definition check_size :: "config \<Rightarrow> (string \<Rightarrow> pg_error + i64) \<Rightarrow> string \<Rightarrow> db_monitor \<Rightarrow> db_monitor" where
  "check_size cfg query db mon =
     (case query db of Inr answer \<Rightarrow> record_size cfg db answer mon | Inl _ \<Rightarrow> mon)"

definition update_flag :: "db_monitor \<Rightarrow> session_limit \<Rightarrow> bool list \<Rightarrow> bool list" where
  "update_flag mon s flags =
     (if sl_limit_bytes s = 0 then flags
      else case map_of (db_sizes mon) (sl_database s) of
        Some sz \<Rightarrow> flags[sl_over_limit s := sl_limit_bytes s < sz]
      | None \<Rightarrow> flags)"

definition update_flags :: "db_monitor \<Rightarrow> db_monitor" where
  "update_flags mon = mon\<lparr>flag_store := fold (update_flag mon \<circ> snd) (sessions mon) (flag_store mon)\<rparr>"

definition check_all_sizes :: "config \<Rightarrow> pg_error + (string \<Rightarrow> pg_error + i64) \<Rightarrow> db_monitor \<Rightarrow> db_monitor" where
  "check_all_sizes cfg conn mon =
     (let databases = map fst (db_limits mon)
      in if databases = [] then mon
         else case conn of
           Inl _ \<Rightarrow> mon
         | Inr query \<Rightarrow> update_flags (fold (check_size cfg query) databases mon))"

text \<open>
  The background task \<^verbatim>\<open>run\<close>: \<^verbatim>\<open>tokio::time::interval\<close> panics on a zero period; otherwise the loop checks at
  every tick and never returns. \<open>ticks\<close> are the answers of the database server at the ticks so far.
\<close>

definition monitor_run :: "config \<Rightarrow> (pg_error + (string \<Rightarrow> pg_error + i64)) list \<Rightarrow> db_monitor \<Rightarrow> unit outcome \<times> db_monitor" where
  "monitor_run cfg ticks mon =
     (if check_interval_secs (monitor_cfg cfg) = 0 then (Panic, mon)
      else (Pending, fold (check_all_sizes cfg) ticks mon))"

section \<open>Well-formedness\<close>

definition mon_wf :: "db_monitor \<Rightarrow> bool" where
  "mon_wf mon \<longleftrightarrow>
     distinct (map fst (db_limits mon)) \<and> distinct (map fst (db_sizes mon)) \<and> distinct (map fst (sessions mon))
     \<and> distinct (map (sl_over_limit \<circ> snd) (sessions mon))
     \<and> (\<forall>s\<in>snd ` set (sessions mon). sl_over_limit s < length (flag_store mon))
     \<and> fst ` set (db_sizes mon) \<subseteq> fst ` set (db_limits mon)"

lemma mon_wf_new: "mon_wf (monitor_new m)"
  by (simp add: mon_wf_def monitor_new_def)


lemma wf_register_limit:
  "mon_wf mon \<Longrightarrow> mon_wf (register_limit db l mon)"
  by (auto simp: mon_wf_def register_limit_def distinct_update dom_update)

lemma update_snd_subset: "snd ` set (AList.update k v al) \<subseteq> insert v (snd ` set al)"
  by (induction al) auto

lemma distinct_update_fresh:
  "distinct (map (f \<circ> snd) al) \<Longrightarrow> f v \<notin> f ` snd ` set al \<Longrightarrow> distinct (map (f \<circ> snd) (AList.update k v al))"
proof (induction al)
  case (Cons a al)
  then show ?case using update_snd_subset [of k v al] by (auto simp: image_iff) force+
qed simp

lemma wf_register_session:
  assumes "mon_wf mon"
  shows "mon_wf (snd (register_session db l mon))"
proof -
  let ?s = "\<lparr>sl_database = db, sl_limit_bytes = l, sl_over_limit = length (flag_store mon)\<rparr>"
  have "length (flag_store mon) \<notin> sl_over_limit ` snd ` set (sessions mon)"
    using assms by (auto simp: mon_wf_def)
  then have "distinct (map (sl_over_limit \<circ> snd) (AList.update i ?s (sessions mon)))" for i
    using assms by (intro distinct_update_fresh) (simp_all add: mon_wf_def)
  moreover have "\<forall>s\<in>snd ` set (AList.update i ?s (sessions mon)). sl_over_limit s < Suc (length (flag_store mon))" for i
  proof
    fix s
    assume "s \<in> snd ` set (AList.update i ?s (sessions mon))"
    then have "s = ?s \<or> s \<in> snd ` set (sessions mon)" using update_snd_subset [of i ?s "sessions mon"] by blast
    then show "sl_over_limit s < Suc (length (flag_store mon))" using assms by (auto simp: mon_wf_def)
  qed
  ultimately show ?thesis using assms
    by (simp add: mon_wf_def register_session_def Let_def distinct_update)
qed

lemma wf_unregister_session:
  assumes "mon_wf mon"
  shows "mon_wf (unregister_session i mon)"
proof -
  have d: "AList.delete i (sessions mon) = filter (\<lambda>p. fst p \<noteq> i) (sessions mon)"
    by (auto simp: AList.delete_eq case_prod_unfold intro!: filter_cong)
  show ?thesis using assms
    by (auto simp: mon_wf_def unregister_session_def d distinct_map_filter)
qed

lemma record_size_fields [simp]:
  "db_sizes (record_size cfg db a mon) = AList.update db a (db_sizes mon)"
  "db_limits (record_size cfg db a mon) = db_limits mon"
  "sessions (record_size cfg db a mon) = sessions mon"
  "flag_store (record_size cfg db a mon) = flag_store mon"
  "session_id_counter (record_size cfg db a mon) = session_id_counter mon"
  by (simp_all add: record_size_def Let_def split: option.splits)

lemma check_size_fields [simp]:
  "db_limits (check_size cfg q db mon) = db_limits mon"
  "sessions (check_size cfg q db mon) = sessions mon"
  "flag_store (check_size cfg q db mon) = flag_store mon"
  by (simp_all add: check_size_def split: sum.splits)

lemma fold_check_fields [simp]:
  "db_limits (fold (check_size cfg q) dbs mon) = db_limits mon"
  "sessions (fold (check_size cfg q) dbs mon) = sessions mon"
  "flag_store (fold (check_size cfg q) dbs mon) = flag_store mon"
  by (induction dbs arbitrary: mon) simp_all

lemma wf_check_size:
  "mon_wf mon \<Longrightarrow> db \<in> fst ` set (db_limits mon) \<Longrightarrow> mon_wf (check_size cfg q db mon)"
  by (auto simp: mon_wf_def check_size_def distinct_update dom_update split: sum.splits)

lemma wf_fold_check:
  "mon_wf mon \<Longrightarrow> set dbs \<subseteq> fst ` set (db_limits mon) \<Longrightarrow> mon_wf (fold (check_size cfg q) dbs mon)"
  by (induction dbs arbitrary: mon) (simp_all add: wf_check_size)

lemma length_update_flag [simp]: "length (update_flag mon s fl) = length fl"
  by (simp add: update_flag_def split: option.splits)

lemma length_fold_flags [simp]: "length (fold (update_flag mon \<circ> snd) ss fl) = length fl"
  by (induction ss arbitrary: fl) simp_all

lemma wf_update_flags: "mon_wf mon \<Longrightarrow> mon_wf (update_flags mon)"
  by (simp add: mon_wf_def update_flags_def)

lemma wf_check_all_sizes: "mon_wf mon \<Longrightarrow> mon_wf (check_all_sizes cfg conn mon)"
  by (auto simp: check_all_sizes_def Let_def split: sum.splits intro!: wf_update_flags wf_fold_check)

lemmas wf_ops = wf_register_limit wf_register_session wf_unregister_session wf_check_all_sizes


section \<open>What a check does\<close>

lemma fold_check_sizes:
  "distinct dbs \<Longrightarrow> map_of (db_sizes (fold (check_size cfg q) dbs mon)) db =
     (if db \<in> set dbs then (case q db of Inr v \<Rightarrow> Some v | Inl _ \<Rightarrow> map_of (db_sizes mon) db)
      else map_of (db_sizes mon) db)"
  by (induction dbs arbitrary: mon) (auto simp: check_size_def update_conv' split: sum.splits)

lemma update_flag_nth:
  "a < length fl \<Longrightarrow> update_flag mon s fl ! a =
     (if a = sl_over_limit s \<and> sl_limit_bytes s \<noteq> 0
      then (case map_of (db_sizes mon) (sl_database s) of Some sz \<Rightarrow> sl_limit_bytes s < sz | None \<Rightarrow> fl ! a)
      else fl ! a)"
  by (auto simp: update_flag_def nth_list_update split: option.splits)

lemma fold_flags_other:
  "a \<notin> (sl_over_limit \<circ> snd) ` set ss \<Longrightarrow> a < length fl \<Longrightarrow> fold (update_flag mon \<circ> snd) ss fl ! a = fl ! a"
  by (induction ss arbitrary: fl) (auto simp: update_flag_nth)

lemma fold_flags_session:
  assumes "distinct (map (sl_over_limit \<circ> snd) ss)" "s \<in> snd ` set ss" "sl_over_limit s < length fl"
  shows "fold (update_flag mon \<circ> snd) ss fl ! sl_over_limit s = update_flag mon s fl ! sl_over_limit s"
  using assms
proof (induction ss arbitrary: fl)
  case (Cons x ss)
  show ?case
  proof (cases "s = snd x")
    case True
    then have "sl_over_limit s \<notin> (sl_over_limit \<circ> snd) ` set ss" using Cons.prems(1) by auto
    from fold_flags_other [OF this, of "update_flag mon s fl" mon]
    show ?thesis using Cons.prems(3) True by (simp add: comp_def)
  next
    case False
    then have in_ss: "s \<in> snd ` set ss" using Cons.prems(2) by auto
    then have "sl_over_limit s \<in> (sl_over_limit \<circ> snd) ` set ss" by force
    moreover have "sl_over_limit (snd x) \<notin> (sl_over_limit \<circ> snd) ` set ss" using Cons.prems(1) by simp
    ultimately have "sl_over_limit s \<noteq> sl_over_limit (snd x)" by metis
    then show ?thesis using Cons.IH [of "update_flag mon (snd x) fl"] Cons.prems in_ss
      by (simp add: update_flag_nth cong: option.case_cong)
  qed
qed simp

lemma load_update_flags:
  assumes "mon_wf mon" "(i, s) \<in> set (sessions mon)"
  shows "load_flag (update_flags mon) (sl_over_limit s) =
    (case map_of (db_sizes mon) (sl_database s) of
       Some sz \<Rightarrow> if sl_limit_bytes s = 0 then load_flag mon (sl_over_limit s) else sl_limit_bytes s < sz
     | None \<Rightarrow> load_flag mon (sl_over_limit s))"
proof -
  have s: "s \<in> snd ` set (sessions mon)" using assms(2) by force
  then have lt: "sl_over_limit s < length (flag_store mon)" using assms(1) by (auto simp: mon_wf_def)
  have "fold (update_flag mon \<circ> snd) (sessions mon) (flag_store mon) ! sl_over_limit s =
      update_flag mon s (flag_store mon) ! sl_over_limit s"
    using assms(1) s lt by (intro fold_flags_session) (simp_all add: mon_wf_def)
  then show ?thesis using lt by (auto simp: load_flag_def update_flags_def update_flag_nth split: option.splits)
qed

lemma update_flags_fields [simp]:
  "db_sizes (update_flags mon) = db_sizes mon" "db_limits (update_flags mon) = db_limits mon"
  "sessions (update_flags mon) = sessions mon"
  by (simp_all add: update_flags_def)

lemma size_after_check:
  assumes "mon_wf mon" "db_limits mon \<noteq> []"
  shows "get_db_size (check_all_sizes cfg (Inr query) mon) db =
    (if db \<in> fst ` set (db_limits mon)
     then (case query db of Inr v \<Rightarrow> Some v | Inl _ \<Rightarrow> get_db_size mon db) else get_db_size mon db)"
  using assms fold_check_sizes [of "map fst (db_limits mon)" cfg query mon db]
  by (simp add: check_all_sizes_def get_db_size_def mon_wf_def split: sum.splits)

lemma flag_after_check:
  assumes "mon_wf mon" "db_limits mon \<noteq> []" "(i, s) \<in> set (sessions mon)"
  shows "load_flag (check_all_sizes cfg (Inr query) mon) (sl_over_limit s) =
    (case get_db_size (check_all_sizes cfg (Inr query) mon) (sl_database s) of
       Some sz \<Rightarrow> if sl_limit_bytes s = 0 then load_flag mon (sl_over_limit s) else sl_limit_bytes s < sz
     | None \<Rightarrow> load_flag mon (sl_over_limit s))"
proof -
  let ?m1 = "fold (check_size cfg query) (map fst (db_limits mon)) mon"
  have "mon_wf ?m1" using assms(1) by (intro wf_fold_check) auto
  from load_update_flags [OF this, of i s] show ?thesis
    using assms(2,3) by (simp add: check_all_sizes_def get_db_size_def load_flag_def cong: option.case_cong)
qed

theorem check_sets_sizes_and_flags:
  assumes "mon_wf mon" and "db_limits mon \<noteq> []"
  shows "let mon' = check_all_sizes cfg (Inr query) mon in
     (\<forall>db. get_db_size mon' db =
        (if db \<in> fst ` set (db_limits mon)
         then (case query db of Inr v \<Rightarrow> Some v | Inl _ \<Rightarrow> get_db_size mon db) else get_db_size mon db))
   \<and> (\<forall>i s. (i, s) \<in> set (sessions mon) \<longrightarrow>
        load_flag mon' (sl_over_limit s) =
          (case get_db_size mon' (sl_database s) of
             Some sz \<Rightarrow> if sl_limit_bytes s = 0 then load_flag mon (sl_over_limit s) else sl_limit_bytes s < sz
           | None \<Rightarrow> load_flag mon (sl_over_limit s)))"
  unfolding Let_def using size_after_check [OF assms, of cfg query] flag_after_check [OF assms, of _ _ cfg query]
  by blast


section \<open>Registering\<close>

lemma delete_update_fresh: "k \<notin> fst ` set al \<Longrightarrow> AList.delete k (AList.update k v al) = al"
  by (induction al) auto

theorem register_session_flag:
  "case register_session db limit mon of ((i, addr), mon') \<Rightarrow>
     load_flag mon' addr =
       (case get_db_size mon db of Some sz \<Rightarrow> 0 < limit \<and> limit < sz | None \<Rightarrow> False)
     \<and> map_of (sessions mon') i = Some \<lparr>sl_database = db, sl_limit_bytes = limit, sl_over_limit = addr\<rparr>
     \<and> (\<forall>a. a < length (flag_store mon) \<longrightarrow> load_flag mon' a = load_flag mon a)
     \<and> (i \<notin> fst ` set (sessions mon) \<longrightarrow> sessions (unregister_session i mon') = sessions mon)"
  by (auto simp: register_session_def Let_def load_flag_def nth_append unregister_session_def update_conv'
      delete_update_fresh split: option.splits)


lemma wf_unlimited_unknown: "mon_wf mon \<Longrightarrow> map_of (db_limits mon) db = None \<Longrightarrow> get_db_size mon db = None"
  by (auto simp: mon_wf_def get_db_size_def map_of_eq_None_iff)

section \<open>The report\<close>

theorem db_info_sorted_complete:
  "sorted (map di_database (get_all_db_info cfg mon))
   \<and> distinct (map di_database (get_all_db_info cfg mon))
   \<and> set (get_all_db_info cfg mon) = db_info cfg mon ` (fst ` set (db_sizes mon) \<union> fst ` set (db_limits mon))"
proof -
  have d: "di_database (db_info cfg mon db) = db" for db by (simp add: db_info_def Let_def)
  then have "inj_on (db_info cfg mon) A" for A by (metis inj_onI)
  then show ?thesis by (auto simp: get_all_db_info_def Let_def distinct_map inj_on_def d)
qed

section \<open>Instances\<close>

definition sample_monitor :: db_monitor where
  "sample_monitor = snd (register_session ''app'' 100 (register_limit ''app'' 100 (monitor_new metrics_new)))"

lemma sample_monitor_wf: "mon_wf sample_monitor"
  by (simp add: sample_monitor_def wf_ops mon_wf_new)

lemma check_sets_sizes_and_flags_witness:
  "get_db_size (check_all_sizes default_config (Inr (\<lambda>_. Inr 250)) sample_monitor) ''app'' = Some 250
   \<and> load_flag (check_all_sizes default_config (Inr (\<lambda>_. Inr 250)) sample_monitor) 0"
proof -
  have s: "db_limits sample_monitor = [(''app'', 100)]"
    "sessions sample_monitor = [(1, \<lparr>sl_database = ''app'', sl_limit_bytes = 100, sl_over_limit = 0\<rparr>)]"
    by (simp_all add: sample_monitor_def register_session_def register_limit_def monitor_new_def Let_def)
  show ?thesis
    using check_sets_sizes_and_flags [OF sample_monitor_wf, of default_config "\<lambda>_. Inr 250"]
    by (simp add: s Let_def word_less_nat_alt)
qed

lemma register_session_flag_witness:
  "case register_session ''app'' 100 ((monitor_new metrics_new)\<lparr>db_sizes := [(''app'', 250)]\<rparr>) of ((i, addr), mon') \<Rightarrow>
     load_flag mon' addr \<and> sessions (unregister_session i mon') = []"
  using register_session_flag [where db = "''app''" and limit = 100
      and mon = "(monitor_new metrics_new)\<lparr>db_sizes := [(''app'', 250)]\<rparr>"]
  by (simp add: get_db_size_def monitor_new_def word_less_nat_alt split: prod.splits)

end
