(* ===== verification/Monitor_Tasks.thy ===== *)
theory Monitor_Tasks
  imports Monitor
begin

text \<open>
  The monitor's background task (\<^verbatim>\<open>run\<close> and \<^verbatim>\<open>check_all_sizes\<close> of \<^verbatim>\<open>src/monitor/mod.rs\<close>) interleaved with the
  clients that register limits and sessions. A check is suspended at every size query, and
  \<^verbatim>\<open>register_session\<close> first creates the flag from the size known then and inserts the session into the
  registry afterwards; the steps of the relation are those pieces. The loop that updates the flags is
  one step: the sizes it reads are only written by the same task.
\<close>

section \<open>The pieces of registering a session\<close>

definition open_session :: "string \<Rightarrow> u64 \<Rightarrow> db_monitor \<Rightarrow> (u64 \<times> session_limit) \<times> db_monitor" where
  "open_session database limit_bytes mon =
     (let i = session_id_counter mon;
          flag = (0 < limit_bytes \<and>
                  (case get_db_size mon database of Some current_size \<Rightarrow> limit_bytes < current_size | None \<Rightarrow> False))
      in ((i, \<lparr>sl_database = database, sl_limit_bytes = limit_bytes, sl_over_limit = length (flag_store mon)\<rparr>),
          mon\<lparr>session_id_counter := i + 1, flag_store := flag_store mon @ [flag]\<rparr>))"

definition insert_session :: "u64 \<Rightarrow> session_limit \<Rightarrow> db_monitor \<Rightarrow> db_monitor" where
  "insert_session i s mon = mon\<lparr>sessions := AList.update i s (sessions mon)\<rparr>"

lemma register_session_pieces:
  "register_session db l mon =
     (case open_session db l mon of ((i, s), mon') \<Rightarrow> ((i, sl_over_limit s), insert_session i s mon'))"
  by (simp add: register_session_def open_session_def insert_session_def Let_def)

section \<open>Steps\<close>

datatype phase = Idle | Measuring "string list"

record mon_world =
  mw_mon :: db_monitor
  mw_phase :: phase
  mw_opening :: "(u64 \<times> session_limit) list"

definition begin_check :: "db_monitor \<Rightarrow> phase" where
  "begin_check mon = (let databases = map fst (db_limits mon) in if databases = [] then Idle else Measuring databases)"

inductive mon_step :: "config \<Rightarrow> mon_world \<Rightarrow> mon_world \<Rightarrow> bool" for cfg where
  limit: "mon_step cfg \<lparr>mw_mon = mon, mw_phase = ph, mw_opening = op\<rparr>
            \<lparr>mw_mon = register_limit db l mon, mw_phase = ph, mw_opening = op\<rparr>"
| opened: "open_session db l mon = (x, mon') \<Longrightarrow>
     mon_step cfg \<lparr>mw_mon = mon, mw_phase = ph, mw_opening = op\<rparr> \<lparr>mw_mon = mon', mw_phase = ph, mw_opening = x # op\<rparr>"
| insert: "(i, s) \<in> set op \<Longrightarrow>
     mon_step cfg \<lparr>mw_mon = mon, mw_phase = ph, mw_opening = op\<rparr>
       \<lparr>mw_mon = insert_session i s mon, mw_phase = ph, mw_opening = remove1 (i, s) op\<rparr>"
| leave: "mon_step cfg \<lparr>mw_mon = mon, mw_phase = ph, mw_opening = op\<rparr>
            \<lparr>mw_mon = unregister_session i mon, mw_phase = ph, mw_opening = op\<rparr>"
| begin_check: "mon_step cfg \<lparr>mw_mon = mon, mw_phase = Idle, mw_opening = op\<rparr>
            \<lparr>mw_mon = mon, mw_phase = begin_check mon, mw_opening = op\<rparr>"
| answer: "mon_step cfg \<lparr>mw_mon = mon, mw_phase = Measuring (db # dbs), mw_opening = op\<rparr>
            \<lparr>mw_mon = check_size cfg (\<lambda>_. a) db mon, mw_phase = Measuring dbs, mw_opening = op\<rparr>"
| finish: "mon_step cfg \<lparr>mw_mon = mon, mw_phase = Measuring [], mw_opening = op\<rparr>
            \<lparr>mw_mon = update_flags mon, mw_phase = Idle, mw_opening = op\<rparr>"

text \<open>\<open>tidy w w'\<close>: the step does not update the flags while a registration is under way.\<close>

definition tidy :: "mon_world \<Rightarrow> mon_world \<Rightarrow> bool" where
  "tidy w w' \<longleftrightarrow> mw_phase w = Measuring [] \<and> mw_phase w' = Idle \<longrightarrow> mw_opening w = []"

definition mon_world_new :: "metrics \<Rightarrow> mon_world" where
  "mon_world_new m = \<lparr>mw_mon = monitor_new m, mw_phase = Idle, mw_opening = []\<rparr>"

definition tidy_step :: "config \<Rightarrow> mon_world \<Rightarrow> mon_world \<Rightarrow> bool" where
  "tidy_step cfg w w' \<longleftrightarrow> mon_step cfg w w' \<and> tidy w w'"

abbreviation mon_steps :: "config \<Rightarrow> mon_world \<Rightarrow> mon_world \<Rightarrow> bool" where
  "mon_steps cfg \<equiv> (mon_step cfg)\<^sup>*\<^sup>*"

section \<open>Well-formedness\<close>

definition mw_entries :: "mon_world \<Rightarrow> (u64 \<times> session_limit) list" where
  "mw_entries w = mw_opening w @ sessions (mw_mon w)"

definition mw_wf :: "mon_world \<Rightarrow> bool" where
  "mw_wf w \<longleftrightarrow>
     mon_wf (mw_mon w) \<and> distinct (map (sl_over_limit \<circ> snd) (mw_entries w))
     \<and> list_all (\<lambda>x. sl_over_limit (snd x) < length (flag_store (mw_mon w))) (mw_entries w)
     \<and> (case mw_phase w of Idle \<Rightarrow> True | Measuring dbs \<Rightarrow> set dbs \<subseteq> fst ` set (db_limits (mw_mon w)))"

lemma mw_wf_new: "mw_wf (mon_world_new m)"
  by (simp add: mw_wf_def mon_world_new_def mon_wf_new mw_entries_def) (simp add: monitor_new_def)

lemma distinct_update_values:
  "distinct (f v # map (f \<circ> snd) al) \<Longrightarrow> distinct (map (f \<circ> snd) (AList.update k v al))"
  by (intro distinct_update_fresh) auto

lemma mset_remove1_snd: "x \<in> set xs \<Longrightarrow> distinct (map f xs) \<Longrightarrow> set (map f (remove1 x xs)) = set (map f xs) - {f x}"
  by (induction xs) (auto simp: image_iff)

lemma distinct_remove1_map: "distinct (map f xs) \<Longrightarrow> distinct (map f (remove1 x xs))"
  by (induction xs) (auto dest: notin_set_remove1 simp: image_iff)

lemma wf_insert:
  assumes "mw_wf \<lparr>mw_mon = mon, mw_phase = ph, mw_opening = op\<rparr>" "(i, s) \<in> set op"
  shows "mw_wf \<lparr>mw_mon = insert_session i s mon, mw_phase = ph, mw_opening = remove1 (i, s) op\<rparr>"
proof -
  let ?f = "sl_over_limit \<circ> snd"
  have w: "mon_wf mon" "distinct (map ?f op @ map ?f (sessions mon))" "\<forall>x\<in>set op. sl_over_limit (snd x) < length (flag_store mon)"
    "\<forall>x\<in>set (sessions mon). sl_over_limit (snd x) < length (flag_store mon)"
    using assms(1) by (simp_all add: mw_wf_def mw_entries_def list_all_iff)
  have "?f (i, s) \<in> set (map ?f op)" using assms(2) by force
  then have "distinct (sl_over_limit s # map ?f (sessions mon))" using w(2) by auto
  then have d: "distinct (map ?f (AList.update i s (sessions mon)))" by (rule distinct_update_values)
  have r: "set (map ?f (remove1 (i, s) op)) = set (map ?f op) - {sl_over_limit s}"
    using mset_remove1_snd [OF assms(2), of ?f] w(2) by simp
  have u: "set (map ?f (AList.update i s (sessions mon))) \<subseteq> insert (sl_over_limit s) (set (map ?f (sessions mon)))"
    using image_mono [OF update_snd_subset [of i s "sessions mon"], of sl_over_limit] by (simp add: image_comp)
  have "distinct (map ?f (remove1 (i, s) op) @ map ?f (AList.update i s (sessions mon)))"
    using w(2) d r u distinct_remove1_map [of ?f op] unfolding distinct_append by blast
  moreover have "\<forall>x\<in>set (AList.update i s (sessions mon)). sl_over_limit (snd x) < length (flag_store mon)"
  proof
    fix x assume "x \<in> set (AList.update i s (sessions mon))"
    then have "snd x = s \<or> snd x \<in> snd ` set (sessions mon)" using update_snd_subset [of i s "sessions mon"] by blast
    then show "sl_over_limit (snd x) < length (flag_store mon)" using w(3,4) assms(2) by auto
  qed
  moreover have "\<forall>x\<in>set (remove1 (i, s) op). sl_over_limit (snd x) < length (flag_store mon)"
    using w(3) set_remove1_subset [of "(i, s)" op] by blast
  ultimately show ?thesis using assms(1) w(1)
    by (auto simp: mw_wf_def mw_entries_def insert_session_def mon_wf_def distinct_update list_all_iff split: phase.splits)
qed

lemma wf_open:
  assumes "mw_wf \<lparr>mw_mon = mon, mw_phase = ph, mw_opening = op\<rparr>" "open_session db l mon = (x, mon')"
  shows "mw_wf \<lparr>mw_mon = mon', mw_phase = ph, mw_opening = x # op\<rparr>"
proof -
  let ?n = "length (flag_store mon)"
  obtain fl i where m: "mon' = mon\<lparr>session_id_counter := i, flag_store := flag_store mon @ [fl]\<rparr>"
    and x: "sl_over_limit (snd x) = ?n" using assms(2) by (auto simp: open_session_def Let_def)
  have b: "\<forall>y\<in>set (op @ sessions mon). sl_over_limit (snd y) < ?n"
    using assms(1) by (simp add: mw_wf_def mw_entries_def list_all_iff)
  then have "?n \<notin> (sl_over_limit \<circ> snd) ` set (op @ sessions mon)" by force
  moreover have "mon_wf mon'" using assms(1) by (auto simp: m mw_wf_def mon_wf_def less_SucI)
  moreover have "\<forall>y\<in>set (op @ sessions mon). sl_over_limit (snd y) < Suc ?n" using b less_SucI by blast
  ultimately show ?thesis using assms(1) x by (cases ph) (simp_all add: m mw_wf_def mw_entries_def list_all_iff image_Un)
qed

lemma wf_step: "mon_step cfg w w' \<Longrightarrow> mw_wf w \<Longrightarrow> mw_wf w'"
proof (induction rule: mon_step.induct)
  case (limit mon ph op db l)
  then show ?case
    using wf_register_limit [of mon db l]
    by (auto simp: mw_wf_def mw_entries_def register_limit_def dom_update split: phase.splits)
next
  case (leave mon ph op i)
  have d: "AList.delete i (sessions mon) = filter (\<lambda>p. fst p \<noteq> i) (sessions mon)"
    by (auto simp: AList.delete_eq case_prod_unfold intro!: filter_cong)
  have "mon_wf mon" using leave by (simp add: mw_wf_def)
  from wf_unregister_session [OF this, of i] leave show ?case
    by (auto simp: mw_wf_def mw_entries_def unregister_session_def d distinct_map_filter list_all_iff split: phase.splits)
next
  case (answer mon db dbs op a)
  then show ?case by (auto simp: mw_wf_def mw_entries_def intro!: wf_check_size)
next
  case (opened db l mon x mon' ph op)
  then show ?case by (rule wf_open [rotated])
next
  case (insert i s op mon ph)
  then show ?case by (rule wf_insert [rotated])
next
  case (begin_check mon op)
  then show ?case by (simp add: mw_wf_def mw_entries_def begin_check_def Let_def)
next
  case (finish mon op)
  then show ?case using wf_update_flags [of mon] by (simp add: mw_wf_def mw_entries_def) (simp add: update_flags_def)
qed

section \<open>What the flags say\<close>

definition over_limit :: "db_monitor \<Rightarrow> session_limit \<Rightarrow> bool" where
  "over_limit mon s \<longleftrightarrow>
     sl_limit_bytes s \<noteq> 0 \<and> (case get_db_size mon (sl_database s) of Some sz \<Rightarrow> sl_limit_bytes s < sz | None \<Rightarrow> False)"

definition flags_sane :: "mon_world \<Rightarrow> bool" where
  "flags_sane w \<longleftrightarrow>
     (\<forall>x\<in>set (mw_entries w). load_flag (mw_mon w) (sl_over_limit (snd x)) \<longrightarrow>
        sl_limit_bytes (snd x) \<noteq> 0 \<and> get_db_size (mw_mon w) (sl_database (snd x)) \<noteq> None)"

definition flags_right :: "mon_world \<Rightarrow> bool" where
  "flags_right w \<longleftrightarrow>
     (\<forall>x\<in>set (mw_entries w). load_flag (mw_mon w) (sl_over_limit (snd x)) = over_limit (mw_mon w) (snd x))"

lemma set_update_subset: "set (AList.update k v al) \<subseteq> insert (k, v) (set al)"
  by (induction al) auto

lemma entries_insert:
  "(i, s) \<in> set op \<Longrightarrow>
     set (mw_entries \<lparr>mw_mon = insert_session i s mon, mw_phase = ph, mw_opening = remove1 (i, s) op\<rparr>)
       \<subseteq> set (mw_entries \<lparr>mw_mon = mon, mw_phase = ph, mw_opening = op\<rparr>)"
  using set_update_subset [of i s "sessions mon"] set_remove1_subset [of "(i, s)" op]
  by (auto simp: mw_entries_def insert_session_def)

lemma entries_leave:
  "set (mw_entries \<lparr>mw_mon = unregister_session i mon, mw_phase = ph, mw_opening = op\<rparr>)
     \<subseteq> set (mw_entries \<lparr>mw_mon = mon, mw_phase = ph, mw_opening = op\<rparr>)"
  by (auto simp: mw_entries_def unregister_session_def AList.delete_eq)

lemma same_flags_and_sizes [simp]:
  "load_flag (register_limit db l mon) = load_flag mon" "get_db_size (register_limit db l mon) = get_db_size mon"
  "load_flag (insert_session i s mon) = load_flag mon" "get_db_size (insert_session i s mon) = get_db_size mon"
  "load_flag (unregister_session i mon) = load_flag mon" "get_db_size (unregister_session i mon) = get_db_size mon"
  "load_flag (check_size cfg q db mon) = load_flag mon" "get_db_size (update_flags mon) = get_db_size mon"
  by (simp_all add: fun_eq_iff load_flag_def get_db_size_def register_limit_def insert_session_def unregister_session_def)

lemma same_over_limit [simp]:
  "over_limit (register_limit db l mon) = over_limit mon" "over_limit (insert_session i s mon) = over_limit mon"
  "over_limit (unregister_session i mon) = over_limit mon" "over_limit (update_flags mon) = over_limit mon"
  by (simp_all add: fun_eq_iff over_limit_def)

lemma known_size_stays: "get_db_size mon d \<noteq> None \<Longrightarrow> get_db_size (check_size cfg q db mon) d \<noteq> None"
  by (auto simp: get_db_size_def check_size_def update_conv' split: sum.splits)

lemma open_session_effect:
  assumes "open_session db l mon = (x, mon')"
  shows "load_flag mon' (sl_over_limit (snd x)) = over_limit mon (snd x)" "get_db_size mon' = get_db_size mon"
    "over_limit mon' = over_limit mon" "sessions mon' = sessions mon"
    "a < length (flag_store mon) \<Longrightarrow> load_flag mon' a = load_flag mon a"
  using assms
  by (auto simp: open_session_def Let_def load_flag_def over_limit_def get_db_size_def fun_eq_iff nth_append word_gt_0
      split: option.splits)

lemma over_limit_known: "over_limit mon s \<Longrightarrow> sl_limit_bytes s \<noteq> 0 \<and> get_db_size mon (sl_database s) \<noteq> None"
  by (auto simp: over_limit_def split: option.splits)

lemma finish_session_flag:
  assumes "mw_wf \<lparr>mw_mon = mon, mw_phase = ph, mw_opening = op\<rparr>" "flags_sane \<lparr>mw_mon = mon, mw_phase = ph, mw_opening = op\<rparr>"
    and "x \<in> set (sessions mon)"
  shows "load_flag (update_flags mon) (sl_over_limit (snd x)) = over_limit mon (snd x)"
proof -
  have "mon_wf mon" using assms(1) by (simp add: mw_wf_def)
  from load_update_flags [OF this, of "fst x" "snd x"] show ?thesis
    using assms(2,3) by (auto simp: flags_sane_def mw_entries_def over_limit_def get_db_size_def split: option.splits)
qed

lemma finish_opening_flag:
  assumes "mw_wf \<lparr>mw_mon = mon, mw_phase = ph, mw_opening = op\<rparr>" "x \<in> set op"
  shows "load_flag (update_flags mon) (sl_over_limit (snd x)) = load_flag mon (sl_over_limit (snd x))"
proof -
  have "sl_over_limit (snd x) < length (flag_store mon)"
    using assms by (simp add: mw_wf_def mw_entries_def list_all_iff)
  moreover have "sl_over_limit (snd x) \<notin> (sl_over_limit \<circ> snd) ` set (sessions mon)"
    using assms by (auto simp: mw_wf_def mw_entries_def disjoint_iff image_iff)
  ultimately show ?thesis by (simp add: load_flag_def update_flags_def fold_flags_other)
qed

lemma sane_step:
  "mon_step cfg w w' \<Longrightarrow> mw_wf w \<Longrightarrow> flags_sane w \<Longrightarrow> flags_sane w'"
proof (induction rule: mon_step.induct)
  case (limit mon ph op db l)
  then show ?case by (simp add: flags_sane_def mw_entries_def) (simp add: register_limit_def)
next
  case (opened db l mon x mon' ph op)
  note e = open_session_effect [OF opened.hyps]
  have "\<forall>y\<in>set (op @ sessions mon). sl_over_limit (snd y) < length (flag_store mon)"
    using opened.prems by (simp add: mw_wf_def mw_entries_def list_all_iff)
  then show ?case using opened.prems(2) e over_limit_known [of mon "snd x"]
    by (simp add: flags_sane_def mw_entries_def)
next
  case (insert i s op mon ph)
  then show ?case using entries_insert [of i s op mon ph] by (simp add: flags_sane_def) blast
next
  case (leave mon ph op i)
  then show ?case using entries_leave [of i mon ph op] by (simp add: flags_sane_def) blast
next
  case (begin_check mon op)
  then show ?case by (simp add: flags_sane_def mw_entries_def)
next
  case (answer mon db dbs op a)
  then show ?case using known_size_stays [of mon _ cfg "\<lambda>_. a" db] by (simp add: flags_sane_def mw_entries_def)
next
  case (finish mon op)
  have "load_flag (update_flags mon) (sl_over_limit (snd x)) \<Longrightarrow>
      sl_limit_bytes (snd x) \<noteq> 0 \<and> get_db_size mon (sl_database (snd x)) \<noteq> None" if "x \<in> set (op @ sessions mon)" for x
  proof (cases "x \<in> set op")
    case True
    then show "load_flag (update_flags mon) (sl_over_limit (snd x)) \<Longrightarrow> ?thesis"
      using finish_opening_flag [OF finish(1) True] finish(2) by (simp add: flags_sane_def mw_entries_def)
  next
    case False
    then show "load_flag (update_flags mon) (sl_over_limit (snd x)) \<Longrightarrow> ?thesis"
      using finish_session_flag [OF finish] that over_limit_known [of mon "snd x"] by simp
  qed
  then show ?case by (simp add: flags_sane_def mw_entries_def)
qed

lemma right_step:
  assumes "tidy_step cfg w w'" "mw_wf w" "flags_sane w" "mw_phase w = Idle \<longrightarrow> flags_right w" "mw_phase w' = Idle"
  shows "flags_right w'"
  using assms(1) [unfolded tidy_step_def, THEN conjunct1] assms(1-5)
proof (induction rule: mon_step.induct)
  case (limit mon ph op db l)
  then show ?case by (simp add: flags_right_def mw_entries_def) (simp add: register_limit_def)
next
  case (opened db l mon x mon' ph op)
  note e = open_session_effect [OF opened.hyps]
  have "\<forall>y\<in>set (op @ sessions mon). sl_over_limit (snd y) < length (flag_store mon)"
    using opened.prems(2) by (simp add: mw_wf_def mw_entries_def list_all_iff)
  then show ?case using opened.prems(4,5) e by (simp add: flags_right_def mw_entries_def)
next
  case (insert i s op mon ph)
  then show ?case using entries_insert [of i s op mon ph] by (simp add: flags_right_def) blast
next
  case (leave mon ph op i)
  then show ?case using entries_leave [of i mon ph op] by (simp add: flags_right_def) blast
next
  case (begin_check mon op)
  then show ?case by (simp add: flags_right_def mw_entries_def)
next
  case (finish mon op)
  then have "op = []" by (simp add: tidy_step_def tidy_def)
  then show ?case using finish_session_flag [OF finish.prems(2,3)] by (simp add: flags_right_def mw_entries_def)
qed simp

definition mon_inv :: "mon_world \<Rightarrow> bool" where
  "mon_inv w \<longleftrightarrow> mw_wf w \<and> flags_sane w"

lemma inv_new: "mon_inv (mon_world_new m)"
  unfolding mon_inv_def
proof
  show "flags_sane (mon_world_new m)" by (simp add: flags_sane_def mw_entries_def mon_world_new_def monitor_new_def)
qed (rule mw_wf_new)

lemma inv_steps: "mon_steps cfg (mon_world_new m) w \<Longrightarrow> mon_inv w"
proof (induction rule: rtranclp_induct)
  case (step w w')
  then show ?case using wf_step sane_step by (auto simp: mon_inv_def)
qed (rule inv_new)

lemma inv_tidy_steps:
  "(tidy_step cfg)\<^sup>*\<^sup>* (mon_world_new m) w \<Longrightarrow> mon_inv w \<and> (mw_phase w = Idle \<longrightarrow> flags_right w)"
proof (induction rule: rtranclp_induct)
  case base
  then show ?case
    using inv_new by (simp add: flags_right_def mw_entries_def mon_world_new_def monitor_new_def)
next
  case (step w w')
  then have "mon_step cfg w w'" by (simp add: tidy_step_def)
  then have "mon_inv w'" using step.IH wf_step sane_step by (auto simp: mon_inv_def)
  then show ?case using right_step [OF step.hyps(2)] step.IH by (auto simp: mon_inv_def)
qed

lemma tidy_flag:
  assumes "(tidy_step cfg)\<^sup>*\<^sup>* (mon_world_new m) w" "mw_phase w = Idle" "(i, s) \<in> set (sessions (mw_mon w))"
  shows "load_flag (mw_mon w) (sl_over_limit s) = over_limit (mw_mon w) s"
proof -
  have "flags_right w" using inv_tidy_steps [OF assms(1)] assms(2) by blast
  then show ?thesis using assms(3) unfolding flags_right_def mw_entries_def by force
qed

text \<open>
  C11. However clients register limits and sessions while size checks run, as long as no
  registration straddles a flag update, the over-limit flag of every registered session says,
  whenever no check is in progress, exactly whether the known size of its database exceeds its
  limit.
\<close>

theorem flags_right_when_idle:
  assumes "(tidy_step cfg)\<^sup>*\<^sup>* (mon_world_new m) w" "mw_phase w = Idle" "(i, s) \<in> set (sessions (mw_mon w))"
  shows "load_flag (mw_mon w) (sl_over_limit s) \<longleftrightarrow>
    sl_limit_bytes s \<noteq> 0 \<and> (\<exists>sz. get_db_size (mw_mon w) (sl_database s) = Some sz \<and> sl_limit_bytes s < sz)"
  using tidy_flag [OF assms] by (auto simp: over_limit_def split: option.splits)

text \<open>
  C37. In every interleaving, a database for which no limit was ever registered is never measured
  and the flag of its sessions is never set, whatever default limit is configured.
\<close>

theorem unregistered_limit_never_enforced:
  assumes "mon_steps cfg (mon_world_new m) w" and "map_of (db_limits (mw_mon w)) db = None"
  shows "get_db_size (mw_mon w) db = None
    \<and> (\<forall>i s. (i, s) \<in> set (sessions (mw_mon w)) \<longrightarrow> sl_database s = db \<longrightarrow> \<not> load_flag (mw_mon w) (sl_over_limit s))"
proof -
  have "mw_wf w" "flags_sane w" using inv_steps [OF assms(1)] by (simp_all add: mon_inv_def)
  moreover from this(1) have "get_db_size (mw_mon w) db = None"
    using wf_unlimited_unknown [OF _ assms(2)] by (simp add: mw_wf_def)
  moreover have "(i, s) \<in> set (mw_entries w)" if "(i, s) \<in> set (sessions (mw_mon w))" for i s
    using that by (simp add: mw_entries_def)
  ultimately show ?thesis unfolding flags_sane_def by (metis snd_conv)
qed

section \<open>An uninterrupted check\<close>

lemma answers_run:
  "mon_steps cfg \<lparr>mw_mon = mon, mw_phase = Measuring dbs, mw_opening = op\<rparr>
     \<lparr>mw_mon = fold (check_size cfg q) dbs mon, mw_phase = Measuring [], mw_opening = op\<rparr>"
proof (induction dbs arbitrary: mon)
  case (Cons db dbs)
  have "check_size cfg (\<lambda>_. q db) db mon = check_size cfg q db mon" by (simp add: check_size_def)
  then have "mon_step cfg \<lparr>mw_mon = mon, mw_phase = Measuring (db # dbs), mw_opening = op\<rparr>
      \<lparr>mw_mon = check_size cfg q db mon, mw_phase = Measuring dbs, mw_opening = op\<rparr>"
    using answer [of cfg mon db dbs op "q db"] by simp
  then show ?case using Cons.IH by (simp add: converse_rtranclp_into_rtranclp)
qed simp

lemma check_run:
  "mon_steps cfg \<lparr>mw_mon = mon, mw_phase = Idle, mw_opening = op\<rparr>
     \<lparr>mw_mon = check_all_sizes cfg conn mon, mw_phase = Idle, mw_opening = op\<rparr>"
proof (cases "db_limits mon = [] \<or> (\<exists>e. conn = Inl e)")
  case True
  then show ?thesis by (auto simp: check_all_sizes_def Let_def)
next
  case False
  then obtain q where q: "conn = Inr q" by (cases conn) auto
  let ?w = "\<lambda>mon ph. \<lparr>mw_mon = mon, mw_phase = ph, mw_opening = op\<rparr>"
  have "mon_step cfg (?w mon Idle) (?w mon (Measuring (map fst (db_limits mon))))"
    using begin_check [of cfg mon op] False by (simp add: begin_check_def)
  then have "mon_steps cfg (?w mon Idle) (?w (fold (check_size cfg q) (map fst (db_limits mon)) mon) (Measuring []))"
    using answers_run by (rule converse_rtranclp_into_rtranclp)
  then show ?thesis
    using finish [of cfg _ op] False q by (auto simp: check_all_sizes_def Let_def intro: rtranclp.rtrancl_into_rtrancl)
qed

lemma checks_run:
  "mon_steps cfg \<lparr>mw_mon = mon, mw_phase = Idle, mw_opening = op\<rparr>
     \<lparr>mw_mon = fold (check_all_sizes cfg) ticks mon, mw_phase = Idle, mw_opening = op\<rparr>"
proof (induction ticks arbitrary: mon)
  case (Cons conn ticks)
  show ?case using rtranclp_trans [OF check_run Cons.IH] by simp
qed simp

theorem monitor_run_is_a_run:
  "if check_interval_secs (monitor_cfg cfg) = 0 then monitor_run cfg ticks mon = (Panic, mon)
   else \<exists>mon'. monitor_run cfg ticks mon = (Pending, mon')
     \<and> mon_steps cfg \<lparr>mw_mon = mon, mw_phase = Idle, mw_opening = op\<rparr> \<lparr>mw_mon = mon', mw_phase = Idle, mw_opening = op\<rparr>"
  using checks_run [of cfg mon op ticks] by (simp add: monitor_run_def)

section \<open>A registration that straddles a flag update\<close>

definition app_session :: session_limit where
  "app_session = \<lparr>sl_database = ''app'', sl_limit_bytes = 100, sl_over_limit = 0\<rparr>"

text \<open>
  C36. register_session reads the known size before it inserts the session: a check that updates
  the flags in between leaves a session over its limit with its flag clear after the check has
  finished.
\<close>

theorem registration_race:
  "\<exists>w. mon_steps cfg (mon_world_new m) w \<and> mw_phase w = Idle \<and> mw_opening w = []
     \<and> (1, app_session) \<in> set (sessions (mw_mon w)) \<and> over_limit (mw_mon w) app_session
     \<and> \<not> load_flag (mw_mon w) (sl_over_limit app_session)"
proof -
  let ?m1 = "register_limit ''app'' 100 (monitor_new m)"
  let ?m2 = "snd (open_session ''app'' 100 ?m1)"
  let ?m3 = "check_size cfg (\<lambda>_. Inr 200) ''app'' ?m2"
  let ?m4 = "insert_session 1 app_session (update_flags ?m3)"
  let ?w = "\<lambda>mon ph op. \<lparr>mw_mon = mon, mw_phase = ph, mw_opening = op\<rparr>"
  have o: "open_session ''app'' 100 ?m1 = ((1, app_session), ?m2)"
    by (simp add: open_session_def Let_def app_session_def register_limit_def monitor_new_def)
  have b: "begin_check ?m1 = Measuring [''app'']" by (simp add: begin_check_def register_limit_def monitor_new_def)
  have s1: "mon_step cfg (mon_world_new m) (?w ?m1 Idle [])" unfolding mon_world_new_def by (rule limit)
  have s2: "mon_step cfg (?w ?m1 Idle []) (?w ?m1 (Measuring [''app'']) [])"
    using begin_check [of cfg ?m1 "[]"] unfolding b .
  have s3: "mon_step cfg (?w ?m1 (Measuring [''app'']) []) (?w ?m2 (Measuring [''app'']) [(1, app_session)])"
    by (rule opened [OF o])
  have s4: "mon_step cfg (?w ?m2 (Measuring [''app'']) [(1, app_session)]) (?w ?m3 (Measuring []) [(1, app_session)])"
    by (rule answer)
  have s5: "mon_step cfg (?w ?m3 (Measuring []) [(1, app_session)]) (?w (update_flags ?m3) Idle [(1, app_session)])"
    by (rule finish)
  have s6: "mon_step cfg (?w (update_flags ?m3) Idle [(1, app_session)]) (?w ?m4 Idle [])"
    using insert [of 1 app_session "[(1, app_session)]" cfg "update_flags ?m3" Idle] by simp
  note more = converse_rtranclp_into_rtranclp [of "mon_step cfg"]
  have "mon_steps cfg (mon_world_new m) (?w ?m4 Idle [])"
    by (rule more [OF s1 more [OF s2 more [OF s3 more [OF s4 more [OF s5 r_into_rtranclp [of "mon_step cfg", OF s6]]]]]])
  moreover have "sessions ?m2 = []" "db_sizes ?m2 = []" "flag_store ?m2 = [False]"
    by (simp_all add: open_session_def Let_def register_limit_def monitor_new_def get_db_size_def)
  then have "(1, app_session) \<in> set (sessions ?m4)" "\<not> load_flag ?m4 0" "get_db_size ?m4 ''app'' = Some 200"
    by (simp_all add: insert_session_def load_flag_def update_flags_def get_db_size_def check_size_def)
  ultimately show ?thesis
    by (intro exI [of _ "?w ?m4 Idle []"]) (simp add: over_limit_def app_session_def)
qed

section \<open>Instances\<close>

definition checked_world :: "config \<Rightarrow> metrics \<Rightarrow> mon_world" where
  "checked_world cfg m =
     (let mon = insert_session 1 app_session (snd (open_session ''app'' 100 (register_limit ''app'' 100 (monitor_new m))))
      in \<lparr>mw_mon = update_flags (check_size cfg (\<lambda>_. Inr 200) ''app'' mon), mw_phase = Idle, mw_opening = []\<rparr>)"

lemma checked_world_run: "(tidy_step cfg)\<^sup>*\<^sup>* (mon_world_new m) (checked_world cfg m)"
proof -
  let ?m1 = "register_limit ''app'' 100 (monitor_new m)"
  let ?m2 = "snd (open_session ''app'' 100 ?m1)"
  let ?m3 = "insert_session 1 app_session ?m2"
  let ?m4 = "check_size cfg (\<lambda>_. Inr 200) ''app'' ?m3"
  let ?w = "\<lambda>mon ph op. \<lparr>mw_mon = mon, mw_phase = ph, mw_opening = op\<rparr>"
  have o: "open_session ''app'' 100 ?m1 = ((1, app_session), ?m2)"
    by (simp add: open_session_def Let_def app_session_def register_limit_def monitor_new_def)
  have b: "begin_check ?m3 = Measuring [''app'']"
    by (simp add: begin_check_def open_session_def insert_session_def register_limit_def monitor_new_def Let_def)
  have t: "tidy_step cfg w w'" if "mon_step cfg w w'" "mw_opening w = [] \<or> mw_phase w \<noteq> Measuring []" for w w'
    using that by (auto simp: tidy_step_def tidy_def)
  have s1: "tidy_step cfg (mon_world_new m) (?w ?m1 Idle [])" unfolding mon_world_new_def by (rule t [OF limit]) simp
  have s2: "tidy_step cfg (?w ?m1 Idle []) (?w ?m2 Idle [(1, app_session)])" by (rule t [OF opened [OF o]]) simp
  have s3: "tidy_step cfg (?w ?m2 Idle [(1, app_session)]) (?w ?m3 Idle [])"
    using t [OF insert [of 1 app_session "[(1, app_session)]" cfg ?m2 Idle]] by simp
  have s4: "tidy_step cfg (?w ?m3 Idle []) (?w ?m3 (Measuring [''app'']) [])"
    using t [OF begin_check [of cfg ?m3 "[]"]] unfolding b by simp
  have s5: "tidy_step cfg (?w ?m3 (Measuring [''app'']) []) (?w ?m4 (Measuring []) [])" by (rule t [OF answer]) simp
  have s6: "tidy_step cfg (?w ?m4 (Measuring []) []) (checked_world cfg m)"
    unfolding checked_world_def Let_def by (rule t [OF finish]) simp
  note more = converse_rtranclp_into_rtranclp [of "tidy_step cfg"]
  show ?thesis
    by (rule more [OF s1 more [OF s2 more [OF s3 more [OF s4 more [OF s5 r_into_rtranclp [of "tidy_step cfg", OF s6]]]]]])
qed

lemma checked_world_facts:
  "mw_phase (checked_world cfg m) = Idle" "sessions (mw_mon (checked_world cfg m)) = [(1, app_session)]"
  "get_db_size (mw_mon (checked_world cfg m)) ''app'' = Some 200" "db_limits (mw_mon (checked_world cfg m)) = [(''app'', 100)]"
  by (simp_all add: checked_world_def Let_def insert_session_def open_session_def register_limit_def monitor_new_def
      get_db_size_def check_size_def)

lemma flags_right_when_idle_witness:
  "load_flag (mw_mon (checked_world default_config metrics_new)) (sl_over_limit app_session)"
proof -
  have "(1, app_session) \<in> set (sessions (mw_mon (checked_world default_config metrics_new)))"
    by (simp add: checked_world_facts)
  from flags_right_when_idle [OF checked_world_run checked_world_facts(1) this]
  show ?thesis by (simp add: checked_world_facts app_session_def)
qed

lemma unregistered_limit_never_enforced_witness:
  "get_db_size (mw_mon (checked_world default_config metrics_new)) ''other'' = None"
proof -
  have "mon_steps default_config (mon_world_new metrics_new) (checked_world default_config metrics_new)"
    by (rule rtranclp_mono [THEN predicate2D, OF _ checked_world_run]) (auto simp: tidy_step_def)
  from unregistered_limit_never_enforced [OF this, of "''other''"] show ?thesis
    by (simp add: checked_world_facts)
qed

end
