(* ===== verification/Net.thy ===== *)
theory Net
  imports Prelude
begin

text \<open>
  The sockets of \<^verbatim>\<open>tokio::net::TcpStream\<close> as the program uses them. The outgoing side is what the
  peer has been sent and how many more bytes it accepts before a write fails (\<open>None\<close>: it never
  fails); a failing \<^verbatim>\<open>write_all\<close> delivers what fits. The incoming side of a connection that is read
  by one task is the list of results its reads return: an error, the bytes appended to the
  buffer, or no bytes at the end of the stream; a read after the list is used up is pending.
\<close>

record sock =
  sent :: bytes
  room :: "nat option"

definition write_all :: "bytes \<Rightarrow> sock \<Rightarrow> (pg_error + unit) \<times> sock" where
  "write_all bs s =
     (case room s of
        None \<Rightarrow> (Inr (), s\<lparr>sent := sent s @ bs\<rparr>)
      | Some n \<Rightarrow>
          if length bs \<le> n then (Inr (), s\<lparr>sent := sent s @ bs, room := Some (n - length bs)\<rparr>)
          else (Inl (IoError ''write''), s\<lparr>sent := sent s @ take n bs, room := Some 0\<rparr>))"

lemma write_all_sent:
  "write_all bs s = (r, s') \<Longrightarrow> \<exists>n. sent s' = sent s @ take n bs \<and> (r = Inr () \<longrightarrow> take n bs = bs)"
  by (auto simp: write_all_def split: option.splits if_splits intro: exI [of _ "length bs"])

record conn =
  c_sock :: sock
  c_reads :: "(pg_error + bytes) list"
  c_buf :: bytes

text \<open>\<^verbatim>\<open>read_buf(&mut buf).await?\<close> followed by \<^verbatim>\<open>if n == 0 { bail!(eof) }\<close>.\<close>

definition read_more :: "pg_error \<Rightarrow> conn \<Rightarrow> unit outcome \<times> conn" where
  "read_more eof c =
     (case c_reads c of
        [] \<Rightarrow> (Pending, c)
      | Inl e # rs \<Rightarrow> (Err e, c\<lparr>c_reads := rs\<rparr>)
      | Inr d # rs \<Rightarrow>
          (if d = [] then (Err eof, c\<lparr>c_reads := rs\<rparr>)
           else (Ok (), c\<lparr>c_reads := rs, c_buf := c_buf c @ d\<rparr>)))"

definition send :: "bytes \<Rightarrow> conn \<Rightarrow> (pg_error + unit) \<times> conn" where
  "send bs c = (case write_all bs (c_sock c) of (r, s) \<Rightarrow> (r, c\<lparr>c_sock := s\<rparr>))"

lemma read_more_Ok:
  "read_more eof c = (Ok u, c') \<Longrightarrow>
     \<exists>d rs. c_reads c = Inr d # rs \<and> d \<noteq> [] \<and> c' = c\<lparr>c_reads := rs, c_buf := c_buf c @ d\<rparr>"
  by (auto simp: read_more_def split: list.splits sum.splits if_splits)

lemma read_more_not_panic: "fst (read_more eof c) \<noteq> Panic"
  by (auto simp: read_more_def split: list.splits sum.splits)

lemma send_fields:
  "send bs c = (r, c') \<Longrightarrow> c_reads c' = c_reads c \<and> c_buf c' = c_buf c"
  by (auto simp: send_def split: prod.splits)

lemma send_sent: "send bs c = (Inr u, c') \<Longrightarrow> sent (c_sock c') = sent (c_sock c) @ bs"
  by (auto simp: send_def split: prod.splits dest!: write_all_sent)

end
