(* ===== verification/Proxy.thy ===== *)
theory Proxy
  imports Net Indexing Monitor Pool
begin

text \<open>
  Phase 4 of \<^verbatim>\<open>src/protocol/frontend.rs\<close>: \<^verbatim>\<open>fast_proxy_loop\<close>, \<^verbatim>\<open>slow_proxy_loop\<close> and the loop of
  \<^verbatim>\<open>handle_client\<close> that alternates between them.

  Sockets are those of \<open>Net\<close>. The incoming sides are the list of events: one completed \<^verbatim>\<open>read_buf\<close> per pass of \<^verbatim>\<open>tokio::select!\<close>,
  its result (no bytes: end of stream), and what the loads of the shared over-limit flag and of the
  known database size return while the pass runs; the n-th message of the pass sees the n-th value.
  A loop whose events run out is \<open>Pending\<close>.
\<close>

section \<open>Events\<close>

datatype side = Client | Server

record event =
  ev_side :: side
  ev_read :: "pg_error + bytes"
  ev_flag :: "nat \<Rightarrow> bool"
  ev_size :: "nat \<Rightarrow> u64 option"

record proxy =
  px_client :: sock
  px_server :: sock
  client_buf :: bytes
  server_buf :: bytes
  px_scanner :: scanner

datatype proxy_loop_exit = ClientDisconnected | SwitchToSlow | SwitchToFast

definition to_server :: "bytes \<Rightarrow> proxy \<Rightarrow> (pg_error + unit) \<times> proxy" where
  "to_server bs px = (case write_all bs (px_server px) of (r, s) \<Rightarrow> (r, px\<lparr>px_server := s\<rparr>))"

definition to_client :: "bytes \<Rightarrow> proxy \<Rightarrow> (pg_error + unit) \<times> proxy" where
  "to_client bs px = (case write_all bs (px_client px) of (r, s) \<Rightarrow> (r, px\<lparr>px_client := s\<rparr>))"

section \<open>The fast loop\<close>

text \<open>One pass: \<open>Ok None\<close> continues the loop, \<open>Ok (Some x)\<close> returns \<open>x\<close> from it.\<close>

definition fast_step :: "event \<Rightarrow> bool \<Rightarrow> proxy \<Rightarrow> proxy_loop_exit option outcome \<times> bool \<times> proxy" where
  "fast_step ev transition_pending px =
     (case ev_read ev of
        Inl e \<Rightarrow> (Err e, transition_pending, px)
      | Inr [] \<Rightarrow> (Ok (Some ClientDisconnected), transition_pending, px)
      | Inr d \<Rightarrow>
        (case ev_side ev of
           Client \<Rightarrow>
             let px = px\<lparr>client_buf := client_buf px @ d\<rparr>;
                 transition_pending = (transition_pending \<or> ev_flag ev 0)
             in (case to_server (client_buf px) px of
                   (Inl e, px) \<Rightarrow> (Err e, transition_pending, px)
                 | (Inr _, px) \<Rightarrow> (Ok None, transition_pending, px\<lparr>client_buf := []\<rparr>))
         | Server \<Rightarrow>
             let px = px\<lparr>server_buf := server_buf px @ d\<rparr>
             in (case scan_checked (px_scanner px) (server_buf px) of
                   None \<Rightarrow> (Panic, transition_pending, px)
                 | Some (sc, saw_idle) \<Rightarrow>
                   let px = px\<lparr>px_scanner := sc\<rparr>
                   in (case to_client (server_buf px) px of
                         (Inl e, px) \<Rightarrow> (Err e, transition_pending, px)
                       | (Inr _, px) \<Rightarrow>
                           (if transition_pending \<and> saw_idle then Ok (Some SwitchToSlow) else Ok None,
                            transition_pending, px\<lparr>server_buf := []\<rparr>)))))"

fun fast_loop :: "event list \<Rightarrow> bool \<Rightarrow> proxy \<Rightarrow> proxy_loop_exit outcome \<times> proxy \<times> event list" where
  "fast_loop [] pending px = (Pending, px, [])"
| "fast_loop (ev # evs) pending px =
     (case fast_step ev pending px of
        (Ok None, pending, px) \<Rightarrow> fast_loop evs pending px
      | (Ok (Some x), _, px) \<Rightarrow> (Ok x, px, evs)
      | (Err e, _, px) \<Rightarrow> (Err e, px, evs)
      | (Panic, _, px) \<Rightarrow> (Panic, px, evs)
      | (Pending, _, px) \<Rightarrow> (Pending, px, evs))"

definition fast_proxy_loop :: "event list \<Rightarrow> proxy \<Rightarrow> proxy_loop_exit outcome \<times> proxy \<times> event list" where
  "fast_proxy_loop evs px = fast_loop evs False px"

section \<open>The slow loop\<close>

record slow_ctx =
  sc_key :: pool_key
  sc_cfg :: config
  sc_info :: startup_info
  sc_upper :: "nat \<Rightarrow> nat list"

definition session_limit_of :: "config \<Rightarrow> startup_info \<Rightarrow> u64 option" where
  "session_limit_of cfg info =
     (case si_max_db_size info of
        Some l \<Rightarrow> Some l
      | None \<Rightarrow> if 0 < default_max_db_size_bytes (monitor_cfg cfg)
                then Some (default_max_db_size_bytes (monitor_cfg cfg)) else None)"

definition should_inject :: "slow_ctx \<Rightarrow> u64 option \<Rightarrow> bool" where
  "should_inject c known =
     (case session_limit_of (sc_cfg c) (sc_info c) of
        Some limit \<Rightarrow> (case known of Some sz \<Rightarrow> limit < sz | None \<Rightarrow> False)
      | None \<Rightarrow> False)"

definition limit_notice :: "slow_ctx \<Rightarrow> bytes" where
  "limit_notice c =
     build_notice_response ''WARNING'' ''53400''
       (''Database '' @ [CHR 0x27] @ pk_database (sc_key c) @ [CHR 0x27] @
        '' has exceeded its size limit. Write operations are restricted. DELETE/TRUNCATE are still allowed.'')"

definition wrap_query :: "string \<Rightarrow> bytes" where
  "wrap_query q = encode (new_message (byte_of CHR ''Q'') (as_bytes (''SET TRANSACTION READ ONLY; '' @ q) @ [0])) []"

text \<open>The body of the \<^verbatim>\<open>while let\<close> over client messages; \<open>injected\<close> is \<^verbatim>\<open>transaction_read_only_injected\<close>.\<close>

definition slow_client_message :: "slow_ctx \<Rightarrow> u64 option \<Rightarrow> pg_message \<Rightarrow> bytes \<Rightarrow> bool \<Rightarrow> proxy
    \<Rightarrow> (pg_error + unit) \<times> bool \<times> proxy" where
  "slow_client_message c known m raw injected px =
     (if msg_type m \<noteq> byte_of CHR ''Q'' \<and> msg_type m \<noteq> byte_of CHR ''P'' then
        (case to_server raw px of (Inl e, px) \<Rightarrow> (Inl e, injected, px) | (Inr _, px) \<Rightarrow> (Inr (), False, px))
      else if \<not> should_inject c known then
        (case to_server raw px of (Inl e, px) \<Rightarrow> (Inl e, injected, px) | (Inr _, px) \<Rightarrow> (Inr (), False, px))
      else
        let is_shrink = (case extract_query_text m of Some q \<Rightarrow> is_shrink_operation (sc_upper c) q | None \<Rightarrow> False)
        in if is_shrink \<and> allow_shrink_operations_when_overlimit (monitor_cfg (sc_cfg c)) then
             (case to_server raw px of (r, px) \<Rightarrow> (r, injected, px))
           else if msg_type m = byte_of CHR ''Q'' then
             (case extract_query_text m of
                None \<Rightarrow> (Inr (), injected, px)
              | Some query_text \<Rightarrow>
                  (case (if injected then (Inr (), px) else to_client (limit_notice c) px) of
                     (Inl e, px) \<Rightarrow> (Inl e, injected, px)
                   | (Inr _, px) \<Rightarrow>
                       (case to_server (wrap_query query_text) px of (r, px) \<Rightarrow> (r, True, px))))
           else (case to_server raw px of (r, px) \<Rightarrow> (r, injected, px)))"

definition slow_server_message :: "bool \<Rightarrow> bytes \<Rightarrow> proxy \<Rightarrow> proxy_loop_exit option outcome \<times> proxy" where
  "slow_server_message over_limit raw px =
     (case byte_at raw 0 of
        None \<Rightarrow> (Panic, px)
      | Some t \<Rightarrow>
        if t = byte_of CHR ''Z'' \<and> length raw = 6 then
          (case byte_at raw 5 of
             None \<Rightarrow> (Panic, px)
           | Some status \<Rightarrow>
             (case to_client raw (px\<lparr>px_scanner := (px_scanner px)\<lparr>transaction_status := status\<rparr>\<rparr>) of
                (Inl e, px) \<Rightarrow> (Err e, px)
              | (Inr _, px) \<Rightarrow>
                  (if status = byte_of CHR ''I'' \<and> \<not> over_limit then Ok (Some SwitchToFast) else Ok None, px)))
        else (case to_client raw px of (Inl e, px) \<Rightarrow> (Err e, px) | (Inr _, px) \<Rightarrow> (Ok None, px)))"

lemma to_server_fields:
  "to_server bs px = (r, px') \<Longrightarrow>
     client_buf px' = client_buf px \<and> server_buf px' = server_buf px \<and> px_client px' = px_client px
     \<and> px_scanner px' = px_scanner px"
  by (auto simp: to_server_def split: prod.splits)

lemma to_client_fields:
  "to_client bs px = (r, px') \<Longrightarrow>
     client_buf px' = client_buf px \<and> server_buf px' = server_buf px \<and> px_server px' = px_server px
     \<and> px_scanner px' = px_scanner px"
  by (auto simp: to_client_def split: prod.splits)

text \<open>The four things that can happen to a client message in the slow loop.\<close>

datatype verdict = Pass | Exempt | Wrap string | Swallow

definition verdict_of :: "slow_ctx \<Rightarrow> u64 option \<Rightarrow> pg_message \<Rightarrow> verdict" where
  "verdict_of c known m =
     (if msg_type m \<notin> {byte_of CHR ''Q'', byte_of CHR ''P''} \<or> \<not> should_inject c known then Pass
      else if (case extract_query_text m of Some q \<Rightarrow> is_shrink_operation (sc_upper c) q | None \<Rightarrow> False)
        \<and> allow_shrink_operations_when_overlimit (monitor_cfg (sc_cfg c)) then Exempt
      else if msg_type m = byte_of CHR ''Q'' then
        (case extract_query_text m of None \<Rightarrow> Swallow | Some q \<Rightarrow> Wrap q)
      else Exempt)"

lemma slow_client_message_verdict:
  "slow_client_message c known m raw ij px =
     (case verdict_of c known m of
        Pass \<Rightarrow> (case to_server raw px of (Inl e, px) \<Rightarrow> (Inl e, ij, px) | (Inr _, px) \<Rightarrow> (Inr (), False, px))
      | Exempt \<Rightarrow> (case to_server raw px of (r, px) \<Rightarrow> (r, ij, px))
      | Swallow \<Rightarrow> (Inr (), ij, px)
      | Wrap q \<Rightarrow>
          (case (if ij then (Inr (), px) else to_client (limit_notice c) px) of
             (Inl e, px) \<Rightarrow> (Inl e, ij, px)
           | (Inr _, px) \<Rightarrow> (case to_server (wrap_query q) px of (r, px) \<Rightarrow> (r, True, px))))"
  by (simp add: slow_client_message_def verdict_of_def Let_def split: option.split)

lemma slow_client_message_bufs:
  assumes "slow_client_message c known m raw ij px = (r, ij', px')"
  shows "client_buf px' = client_buf px \<and> server_buf px' = server_buf px \<and> px_scanner px' = px_scanner px"
proof (cases "verdict_of c known m")
  case (Wrap q)
  obtain r1 px1 where 1: "(if ij then (Inr (), px) else to_client (limit_notice c) px) = (r1, px1)" by fastforce
  have f: "client_buf px1 = client_buf px \<and> server_buf px1 = server_buf px \<and> px_scanner px1 = px_scanner px"
    using 1 by (auto split: if_splits dest!: to_client_fields)
  show ?thesis
  proof (cases r1)
    case (Inr u)
    obtain r2 px2 where "to_server (wrap_query q) px1 = (r2, px2)" by fastforce
    then show ?thesis using assms Wrap 1 Inr f to_server_fields by (simp add: slow_client_message_verdict)
  qed (use assms Wrap 1 f in \<open>simp add: slow_client_message_verdict\<close>)
qed (use assms in \<open>auto simp: slow_client_message_verdict split: prod.splits sum.splits dest!: to_server_fields\<close>)

lemma slow_server_message_bufs:
  "slow_server_message f raw px = (r, px') \<Longrightarrow>
     client_buf px' = client_buf px \<and> server_buf px' = server_buf px \<and> px_server px' = px_server px"
  by (auto simp: slow_server_message_def split: if_splits prod.splits sum.splits option.splits dest!: to_client_fields)

text \<open>
  The \<^verbatim>\<open>while let\<close> loops over the buffered messages; \<open>i\<close> counts the messages of the pass.
\<close>

function slow_client_loop :: "slow_ctx \<Rightarrow> (nat \<Rightarrow> u64 option) \<Rightarrow> nat \<Rightarrow> bool \<Rightarrow> proxy
    \<Rightarrow> (pg_error + unit) \<times> bool \<times> proxy" where
  "slow_client_loop c sizes i injected px =
     (case try_read_message_with_raw (client_buf px) of
        (Inl e, rest) \<Rightarrow> (Inl e, injected, px\<lparr>client_buf := rest\<rparr>)
      | (Inr None, rest) \<Rightarrow> (Inr (), injected, px\<lparr>client_buf := rest\<rparr>)
      | (Inr (Some (m, raw)), rest) \<Rightarrow>
          (case slow_client_message c (sizes i) m raw injected (px\<lparr>client_buf := rest\<rparr>) of
             (Inl e, injected, px) \<Rightarrow> (Inl e, injected, px)
           | (Inr _, injected, px) \<Rightarrow> slow_client_loop c sizes (Suc i) injected px))"
  by pat_completeness auto
termination
  by (relation "measure (\<lambda>(c, sizes, i, injected, px). length (client_buf px))")
    (auto dest!: slow_client_message_bufs [OF sym] raw_reader.progress [OF sym])

declare slow_client_loop.simps [simp del]

function slow_server_loop :: "(nat \<Rightarrow> bool) \<Rightarrow> nat \<Rightarrow> proxy \<Rightarrow> proxy_loop_exit option outcome \<times> proxy" where
  "slow_server_loop flags i px =
     (case try_read_message_with_raw (server_buf px) of
        (Inl e, rest) \<Rightarrow> (Err e, px\<lparr>server_buf := rest\<rparr>)
      | (Inr None, rest) \<Rightarrow> (Ok None, px\<lparr>server_buf := rest\<rparr>)
      | (Inr (Some (m, raw)), rest) \<Rightarrow>
          (case slow_server_message (flags i) raw (px\<lparr>server_buf := rest\<rparr>) of
             (Ok None, px) \<Rightarrow> slow_server_loop flags (Suc i) px
           | (r, px) \<Rightarrow> (r, px)))"
  by pat_completeness auto
termination
  by (relation "measure (\<lambda>(flags, i, px). length (server_buf px))")
    (auto dest!: slow_server_message_bufs [OF sym] raw_reader.progress [OF sym])

declare slow_server_loop.simps [simp del]

definition slow_step :: "slow_ctx \<Rightarrow> event \<Rightarrow> bool \<Rightarrow> proxy \<Rightarrow> proxy_loop_exit option outcome \<times> bool \<times> proxy" where
  "slow_step c ev injected px =
     (case ev_read ev of
        Inl e \<Rightarrow> (Err e, injected, px)
      | Inr [] \<Rightarrow> (Ok (Some ClientDisconnected), injected, px)
      | Inr d \<Rightarrow>
        (case ev_side ev of
           Client \<Rightarrow>
             (case slow_client_loop c (ev_size ev) 0 injected (px\<lparr>client_buf := client_buf px @ d\<rparr>) of
                (Inl e, injected, px) \<Rightarrow> (Err e, injected, px)
              | (Inr _, injected, px) \<Rightarrow> (Ok None, injected, px))
         | Server \<Rightarrow>
             (case slow_server_loop (ev_flag ev) 0 (px\<lparr>server_buf := server_buf px @ d\<rparr>) of
                (r, px) \<Rightarrow> (r, injected, px))))"

fun slow_loop :: "slow_ctx \<Rightarrow> event list \<Rightarrow> bool \<Rightarrow> proxy \<Rightarrow> proxy_loop_exit outcome \<times> proxy \<times> event list" where
  "slow_loop c [] injected px = (Pending, px, [])"
| "slow_loop c (ev # evs) injected px =
     (case slow_step c ev injected px of
        (Ok None, injected, px) \<Rightarrow> slow_loop c evs injected px
      | (Ok (Some x), _, px) \<Rightarrow> (Ok x, px, evs)
      | (Err e, _, px) \<Rightarrow> (Err e, px, evs)
      | (Panic, _, px) \<Rightarrow> (Panic, px, evs)
      | (Pending, _, px) \<Rightarrow> (Pending, px, evs))"

definition slow_proxy_loop :: "slow_ctx \<Rightarrow> event list \<Rightarrow> proxy \<Rightarrow> proxy_loop_exit outcome \<times> proxy \<times> event list" where
  "slow_proxy_loop c evs px = slow_loop c evs False px"

section \<open>Alternating\<close>

lemma fast_loop_consumes:
  "fast_loop evs p px = (r, px', rest) \<Longrightarrow> length rest \<le> length evs \<and> (r = Ok x \<longrightarrow> length rest < length evs)"
  by (induction evs arbitrary: p px) (fastforce split: prod.splits outcome.splits option.splits)+

lemma slow_loop_consumes:
  "slow_loop c evs p px = (r, px', rest) \<Longrightarrow> length rest \<le> length evs \<and> (r = Ok x \<longrightarrow> length rest < length evs)"
  by (induction evs arbitrary: p px) (fastforce split: prod.splits outcome.splits option.splits)+

text \<open>The loop of \<^verbatim>\<open>handle_client\<close>: \<open>Ok ()\<close> is its \<^verbatim>\<open>break\<close>, an \<^verbatim>\<open>unreachable!\<close> arm is \<open>Panic\<close>.\<close>

function proxy_phase :: "slow_ctx \<Rightarrow> event list \<Rightarrow> proxy \<Rightarrow> unit outcome \<times> proxy" where
  "proxy_phase c evs px =
     (case fast_proxy_loop evs px of
        (Ok ClientDisconnected, px, _) \<Rightarrow> (Ok (), px)
      | (Ok SwitchToFast, px, _) \<Rightarrow> (Panic, px)
      | (Ok SwitchToSlow, px, evs') \<Rightarrow>
          (case slow_proxy_loop c evs' px of
             (Ok ClientDisconnected, px, _) \<Rightarrow> (Ok (), px)
           | (Ok SwitchToSlow, px, _) \<Rightarrow> (Panic, px)
           | (Ok SwitchToFast, px, evs'') \<Rightarrow> proxy_phase c evs'' px
           | (Err e, px, _) \<Rightarrow> (Err e, px)
           | (Panic, px, _) \<Rightarrow> (Panic, px)
           | (Pending, px, _) \<Rightarrow> (Pending, px))
      | (Err e, px, _) \<Rightarrow> (Err e, px)
      | (Panic, px, _) \<Rightarrow> (Panic, px)
      | (Pending, px, _) \<Rightarrow> (Pending, px))"
  by pat_completeness auto
termination
  by (relation "measure (\<lambda>(c, evs, px). length evs)")
    (auto simp: fast_proxy_loop_def slow_proxy_loop_def dest!: fast_loop_consumes [OF sym] slow_loop_consumes [OF sym])

declare proxy_phase.simps [simp del]


section \<open>Writes\<close>

lemma to_server_ok:
  "to_server bs px = (Inr u, px') \<Longrightarrow> sent (px_server px') = sent (px_server px) @ bs"
  by (auto simp: to_server_def split: prod.splits dest!: write_all_sent)

lemma to_client_ok:
  "to_client bs px = (Inr u, px') \<Longrightarrow> sent (px_client px') = sent (px_client px) @ bs"
  by (auto simp: to_client_def split: prod.splits dest!: write_all_sent)

section \<open>What the two sides were given\<close>

fun input :: "side \<Rightarrow> event list \<Rightarrow> bytes" where
  "input sd [] = []"
| "input sd (ev # evs) =
     (if ev_side ev = sd then (case ev_read ev of Inr d \<Rightarrow> d | Inl _ \<Rightarrow> []) else []) @ input sd evs"

lemma input_append [simp]: "input sd (xs @ ys) = input sd xs @ input sd ys"
  by (induction xs) auto

text \<open>
  \<open>relayed n px px' d\<close>: the client was sent exactly what the server delivered (what was buffered,
  then \<open>d\<close>), in order, less what is still buffered, with copies of the notice \<open>n\<close> inserted. The notices
  may lie anywhere: after a hand-over in the middle of a server message one is written inside it
  (\<open>Enforcement\<close>).
\<close>

definition relayed :: "bytes \<Rightarrow> proxy \<Rightarrow> proxy \<Rightarrow> bytes \<Rightarrow> bool" where
  "relayed n px px' d \<longleftrightarrow>
     (\<exists>out. sent (px_client px') = sent (px_client px) @ concat (map snd out)
        \<and> (\<forall>x\<in>set out. fst x \<longrightarrow> snd x = n)
        \<and> concat (map snd (filter (\<lambda>x. \<not> fst x) out)) @ server_buf px' = server_buf px @ d)"

lemma relayed_same: "px_client px' = px_client px \<Longrightarrow> server_buf px' = server_buf px @ d \<Longrightarrow> relayed n px px' d"
  by (auto simp: relayed_def intro: exI [of _ "[]"])

lemma relayed_chunk:
  "sent (px_client px') = sent (px_client px) @ b \<Longrightarrow> b @ server_buf px' = server_buf px @ d \<Longrightarrow> relayed n px px' d"
  unfolding relayed_def by (rule exI [of _ "[(False, b)]"]) simp

lemma relayed_notice:
  "sent (px_client px') = sent (px_client px) @ n \<Longrightarrow> server_buf px' = server_buf px \<Longrightarrow> relayed n px px' []"
  unfolding relayed_def by (rule exI [of _ "[(True, n)]"]) simp

lemma relayed_trans:
  assumes "relayed n px px1 d1" "relayed n px1 px2 d2"
  shows "relayed n px px2 (d1 @ d2)"
proof -
  obtain o1 o2 where o:
    "sent (px_client px1) = sent (px_client px) @ concat (map snd o1)" "\<forall>x\<in>set o1. fst x \<longrightarrow> snd x = n"
    "concat (map snd (filter (\<lambda>x. \<not> fst x) o1)) @ server_buf px1 = server_buf px @ d1"
    "sent (px_client px2) = sent (px_client px1) @ concat (map snd o2)" "\<forall>x\<in>set o2. fst x \<longrightarrow> snd x = n"
    "concat (map snd (filter (\<lambda>x. \<not> fst x) o2)) @ server_buf px2 = server_buf px1 @ d2"
    using assms unfolding relayed_def by blast
  have "concat (map snd (filter (\<lambda>x. \<not> fst x) (o1 @ o2))) @ server_buf px2 = server_buf px @ d1 @ d2"
    using o(6) arg_cong [OF o(3), of "\<lambda>x. x @ d2"] by simp
  moreover have "\<forall>x\<in>set (o1 @ o2). fst x \<longrightarrow> snd x = n" using o(2,5) by auto
  moreover have "sent (px_client px2) = sent (px_client px) @ concat (map snd (o1 @ o2))" using o(1,4) by simp
  ultimately show ?thesis unfolding relayed_def by blast
qed

section \<open>The fast loop forwards everything\<close>

lemma fast_step_flow:
  assumes "fast_step ev p px = (r, p', px')" "\<And>e. r \<noteq> Err e"
  shows "sent (px_server px') @ client_buf px' = sent (px_server px) @ client_buf px @ input Client [ev]"
    and "sent (px_client px') @ server_buf px' = sent (px_client px) @ server_buf px @ input Server [ev]"
    and "relayed n px px' (input Server [ev])"
proof -
  have "sent (px_server px') @ client_buf px' = sent (px_server px) @ client_buf px @ input Client [ev]
    \<and> sent (px_client px') @ server_buf px' = sent (px_client px) @ server_buf px @ input Server [ev]
    \<and> relayed n px px' (input Server [ev])"
  proof (cases "ev_read ev")
    case (Inr d)
    show ?thesis
    proof (cases "d = []")
      case True
      then show ?thesis using assms Inr by (auto simp: fast_step_def relayed_same)
    next
      case False
      then obtain b bs where d: "d = b # bs" by (cases d) auto
      show ?thesis
      proof (cases "ev_side ev")
        case Client
        obtain r1 px1 where w: "to_server (client_buf px @ d) (px\<lparr>client_buf := client_buf px @ d\<rparr>) = (r1, px1)"
          by fastforce
        then have "px' = px1\<lparr>client_buf := []\<rparr> \<and> r1 = Inr ()"
          using assms Inr d Client by (auto simp: fast_step_def Let_def split: sum.splits)
        then show ?thesis using w to_server_ok to_server_fields [OF w] Client Inr
          by (fastforce intro: relayed_same)
      next
        case Server
        show ?thesis
        proof (cases "scan_checked (px_scanner px) (server_buf px @ d)")
          case None
          then have "px' = px\<lparr>server_buf := server_buf px @ d\<rparr>"
            using assms Inr d Server by (auto simp: fast_step_def Let_def)
          then show ?thesis using Server Inr relayed_chunk [of px' px "[]"] by simp
        next
        case (Some scs)
        obtain sc saw where sc: "scan_checked (px_scanner px) (server_buf px @ d) = Some (sc, saw)" using Some by (cases scs) simp
        obtain r1 px1 where w: "to_client (server_buf px @ d)
            (px\<lparr>server_buf := server_buf px @ d, px_scanner := sc\<rparr>) = (r1, px1)" by fastforce
        then have px': "px' = px1\<lparr>server_buf := []\<rparr>" "r1 = Inr ()"
          using assms Inr d Server sc by (auto simp: fast_step_def Let_def split: sum.splits)
        then have "sent (px_client px') = sent (px_client px) @ (server_buf px @ d)"
          using w to_client_ok by fastforce
        moreover have "relayed n px px' d"
          using calculation px' by (intro relayed_chunk) simp_all
        ultimately show ?thesis using px' to_client_fields [OF w] Server Inr by simp
        qed
      qed
    qed
  qed (use assms in \<open>auto simp: fast_step_def\<close>)
  then show "sent (px_server px') @ client_buf px' = sent (px_server px) @ client_buf px @ input Client [ev]"
    and "sent (px_client px') @ server_buf px' = sent (px_client px) @ server_buf px @ input Server [ev]"
    and "relayed n px px' (input Server [ev])" by blast+
qed


lemma fast_loop_flow:
  assumes "fast_loop evs p px = (r, px', rest)" "\<And>e. r \<noteq> Err e"
  shows "\<exists>used. evs = used @ rest \<and> (r = Pending \<longrightarrow> rest = [])
    \<and> sent (px_server px') @ client_buf px' = sent (px_server px) @ client_buf px @ input Client used
    \<and> sent (px_client px') @ server_buf px' = sent (px_client px) @ server_buf px @ input Server used
    \<and> relayed n px px' (input Server used)"
  using assms
proof (induction evs arbitrary: p px)
  case Nil
  then show ?case by (auto simp: relayed_same)
next
  case (Cons ev evs)
  obtain r1 p1 px1 where st: "fast_step ev p px = (r1, p1, px1)" by (metis prod_cases3)
  have np: "r1 \<noteq> Pending"
    using st by (auto simp: fast_step_def Let_def split: sum.splits list.splits side.splits prod.splits if_splits option.splits)
  have ne: "r1 \<noteq> Err e" for e using Cons.prems(1) Cons.prems(2) [of e] st by auto
  note f = fast_step_flow [OF st ne]
  show ?case
  proof (cases "r1 = Ok None")
    case False
    then have "r \<noteq> Pending" "px' = px1" "rest = evs"
      using Cons.prems st np ne by (auto split: outcome.splits option.splits)
    then show ?thesis using f by (intro exI [of _ "[ev]"]) simp
  next
    case x: True
    then have "fast_loop evs p1 px1 = (r, px', rest)" using Cons.prems st x by simp
    from Cons.IH [OF this Cons.prems(2)] obtain used where u: "evs = used @ rest" "r = Pending \<longrightarrow> rest = []"
      "sent (px_server px') @ client_buf px' = sent (px_server px1) @ client_buf px1 @ input Client used"
      "sent (px_client px') @ server_buf px' = sent (px_client px1) @ server_buf px1 @ input Server used"
      "relayed n px1 px' (input Server used)" by blast
    have 1: "sent (px_server px') @ client_buf px' = sent (px_server px) @ client_buf px @ input Client ([ev] @ used)"
      using u(3) arg_cong [OF f(1), of "\<lambda>x. x @ input Client used"] by simp
    have 2: "sent (px_client px') @ server_buf px' = sent (px_client px) @ server_buf px @ input Server ([ev] @ used)"
      using u(4) arg_cong [OF f(2), of "\<lambda>x. x @ input Server used"] by simp
    have "relayed n px px' (input Server ([ev] @ used))"
      unfolding input_append by (rule relayed_trans [OF f(3) u(5)])
    then show ?thesis using 1 2 u(1,2) by (intro exI [of _ "[ev] @ used"]) simp
  qed
qed

text \<open>\<open>fast_proxy_loop\<close> sends each side exactly what the other delivered, unless a read or a write fails.\<close>

theorem fast_loop_transparent:
  assumes "fast_proxy_loop evs px = (r, px', rest)" "\<forall>e. r \<noteq> Err e"
  shows "\<exists>used. evs = used @ rest \<and> (r = Pending \<longrightarrow> rest = [])
    \<and> sent (px_server px') @ client_buf px' = sent (px_server px) @ client_buf px @ input Client used
    \<and> sent (px_client px') @ server_buf px' = sent (px_client px) @ server_buf px @ input Server used"
  using fast_loop_flow [of evs False px r px' rest] assms unfolding fast_proxy_loop_def by blast


section \<open>The slow loop relays the server's messages\<close>

lemma slow_server_message_sent:
  "slow_server_message f raw px = (Ok x, px') \<Longrightarrow> sent (px_client px') = sent (px_client px) @ raw"
  by (auto simp: slow_server_message_def split: if_splits prod.splits sum.splits option.splits dest!: to_client_ok)

lemma slow_server_message_result:
  assumes "try_read_message_with_raw buf = (Inr (Some (m, raw)), rest)"
  shows "fst (slow_server_message f raw px) \<noteq> Panic \<and> fst (slow_server_message f raw px) \<noteq> Pending"
proof -
  have "0 < length raw" using with_raw_SomeE [OF assms] by auto
  then show ?thesis by (auto simp: slow_server_message_def split: prod.splits sum.splits)
qed

lemma slow_server_loop_step:
  "try_read_message_with_raw (server_buf px) = (Inr (Some (m, raw)), rest) \<Longrightarrow>
     slow_server_loop flags i px =
       (case slow_server_message (flags i) raw (px\<lparr>server_buf := rest\<rparr>) of
          (Ok None, px) \<Rightarrow> slow_server_loop flags (Suc i) px | (r, px) \<Rightarrow> (r, px))"
  by (simp add: slow_server_loop.simps [of flags i px])

lemma slow_server_loop_flow:
  assumes "slow_server_loop flags i px = (Ok x, px')"
  shows "\<exists>b. sent (px_client px') = sent (px_client px) @ b \<and> b @ server_buf px' = server_buf px
    \<and> px_server px' = px_server px \<and> client_buf px' = client_buf px"
  using assms
proof (induction flags i px rule: slow_server_loop.induct)
  case (1 flags i px)
  consider (stop) "try_read_message_with_raw (server_buf px) = (Inr None, server_buf px)"
    | (err) e where "try_read_message_with_raw (server_buf px) = (Inl e, server_buf px)"
    | (msg) m raw rest where "try_read_message_with_raw (server_buf px) = (Inr (Some (m, raw)), rest)"
    by (metis raw_reader.reader_cases surj_pair)
  then show ?case
  proof cases
    case (msg m raw rest)
    have split: "server_buf px = raw @ rest" using with_raw_SomeE [OF msg] by blast
    obtain r1 px1 where m1: "slow_server_message (flags i) raw (px\<lparr>server_buf := rest\<rparr>) = (r1, px1)" by fastforce
    note st = slow_server_loop_step [OF msg, of flags i]
    have "r1 \<noteq> Err e" for e using 1(2) m1 st by auto
    then obtain y where y: "r1 = Ok y"
      using slow_server_message_result [OF msg, of "flags i" "px\<lparr>server_buf := rest\<rparr>"] m1 by (cases r1) auto
    note f = slow_server_message_bufs [OF m1] slow_server_message_sent [OF m1 [unfolded y]]
    show ?thesis
    proof (cases y)
      case None
      then have "slow_server_loop flags (Suc i) px1 = (Ok x, px')" using 1(2) m1 st y by simp
      with 1(1) [OF msg [symmetric] refl refl refl m1 [symmetric]] y None
      obtain b where "sent (px_client px') = sent (px_client px1) @ b" "b @ server_buf px' = server_buf px1"
        "px_server px' = px_server px1" "client_buf px' = client_buf px1" by auto
      then show ?thesis using f split by (intro exI [of _ "raw @ b"]) auto
    next
      case (Some z)
      then have "px' = px1" using 1(2) m1 st y by simp
      then show ?thesis using f split by (intro exI [of _ raw]) auto
    qed
  qed (use 1(2) in \<open>auto simp: slow_server_loop.simps [of flags i px]\<close>)
qed

section \<open>The slow loop enforces the limit on the client's messages\<close>

text \<open>
  The reference: what a list of messages turns into for the server, the notices for the client,
  and whether a notice is still standing.
\<close>

fun enforce :: "slow_ctx \<Rightarrow> (nat \<Rightarrow> u64 option) \<Rightarrow> nat \<Rightarrow> bool \<Rightarrow> (pg_message \<times> bytes) list
    \<Rightarrow> bytes list \<times> bytes list \<times> bool" where
  "enforce c sizes i ij [] = ([], [], ij)"
| "enforce c sizes i ij ((m, raw) # ms) =
     (case verdict_of c (sizes i) m of
        Pass \<Rightarrow> (case enforce c sizes (Suc i) False ms of (fs, ns, ij) \<Rightarrow> (raw # fs, ns, ij))
      | Exempt \<Rightarrow> (case enforce c sizes (Suc i) ij ms of (fs, ns, ij) \<Rightarrow> (raw # fs, ns, ij))
      | Swallow \<Rightarrow> enforce c sizes (Suc i) ij ms
      | Wrap q \<Rightarrow> (case enforce c sizes (Suc i) True ms of
                    (fs, ns, ij') \<Rightarrow> (wrap_query q # fs, if ij then ns else limit_notice c # ns, ij')))"

definition unlimited :: "proxy \<Rightarrow> bool" where
  "unlimited px \<longleftrightarrow> room (px_client px) = None \<and> room (px_server px) = None"

lemma unlimited_writes:
  "unlimited px \<Longrightarrow> to_server bs px = (Inr (), px\<lparr>px_server := (px_server px)\<lparr>sent := sent (px_server px) @ bs\<rparr>\<rparr>)"
  "unlimited px \<Longrightarrow> to_client bs px = (Inr (), px\<lparr>px_client := (px_client px)\<lparr>sent := sent (px_client px) @ bs\<rparr>\<rparr>)"
  by (simp_all add: unlimited_def to_server_def to_client_def write_all_def)

lemma to_server_full:
  assumes "to_server bs px = (r, px')" "r = Inr () \<or> unlimited px"
  shows "r = Inr () \<and> sent (px_server px') = sent (px_server px) @ bs \<and> px_client px' = px_client px
    \<and> (unlimited px \<longrightarrow> unlimited px')"
  using assms by (auto simp: to_server_def unlimited_def write_all_def split: option.splits if_splits)

lemma to_client_full:
  assumes "to_client bs px = (r, px')" "r = Inr () \<or> unlimited px"
  shows "r = Inr () \<and> sent (px_client px') = sent (px_client px) @ bs \<and> px_server px' = px_server px
    \<and> (unlimited px \<longrightarrow> unlimited px')"
  using assms by (auto simp: to_client_def unlimited_def write_all_def split: option.splits if_splits)

text \<open>One message: what it adds to the two streams when its writes succeed.\<close>

lemma slow_client_message_effect:
  assumes "slow_client_message c known m raw ij px = (r, ij', px')" "r = Inr () \<or> unlimited px"
  shows "r = Inr () \<and> (unlimited px \<longrightarrow> unlimited px') \<and>
    (\<exists>fs ns. enforce c (\<lambda>_. known) 0 ij [(m, raw)] = (fs, ns, ij')
      \<and> sent (px_server px') = sent (px_server px) @ concat fs
      \<and> sent (px_client px') = sent (px_client px) @ concat ns)"
proof -
  obtain r1 px1 where w: "to_server raw px = (r1, px1)" by fastforce
  show ?thesis
  proof (cases "verdict_of c known m")
    case Pass
    then have "r = r1" "px' = px1" "r1 = Inr () \<longrightarrow> \<not> ij'"
      using assms(1) w by (auto simp: slow_client_message_verdict split: sum.splits)
    then show ?thesis using to_server_full [OF w] assms(2) Pass by simp
  next
    case Exempt
    then have "r = r1" "px' = px1" "ij' = ij" using assms(1) w by (auto simp: slow_client_message_verdict)
    then show ?thesis using to_server_full [OF w] assms(2) Exempt by simp
  next
    case Swallow
    then show ?thesis using assms by (simp add: slow_client_message_verdict)
  next
    case (Wrap q)
    obtain r2 px2 where n: "(if ij then (Inr (), px) else to_client (limit_notice c) px) = (r2, px2)" by fastforce
    have "r2 = Inr () \<or> unlimited px" using assms Wrap n by (cases r2) (auto simp: slow_client_message_verdict)
    then have n': "r2 = Inr ()" "unlimited px \<longrightarrow> unlimited px2" "px_server px2 = px_server px"
        "sent (px_client px2) = sent (px_client px) @ (if ij then [] else limit_notice c)"
      using n to_client_full [of "limit_notice c" px r2 px2] by (auto split: if_splits)
    obtain r3 px3 where t: "to_server (wrap_query q) px2 = (r3, px3)" by fastforce
    then have "r = r3" "px' = px3" "ij'" using assms(1) Wrap n n'(1) by (auto simp: slow_client_message_verdict)
    then show ?thesis using to_server_full [OF t] assms(2) n' Wrap by auto
  qed
qed

lemma enforce_Cons:
  assumes "enforce c (\<lambda>_. sizes i) 0 ij [x] = (fs, ns, ij1)" "enforce c sizes (Suc i) ij1 ms = (fs', ns', ij2)"
  shows "enforce c sizes i ij (x # ms) = (fs @ fs', ns @ ns', ij2)"
  using assms by (cases x) (auto split: verdict.splits)

lemma slow_client_loop_enforces:
  assumes "slow_client_loop c sizes i ij px = (r, ij', px')" "r = Inr () \<or> unlimited px"
  shows "\<exists>ms fs ns. drain try_read_message_with_raw (client_buf px) = (ms, case r of Inl e \<Rightarrow> Some e | Inr _ \<Rightarrow> None, client_buf px')
    \<and> enforce c sizes i ij ms = (fs, ns, ij')
    \<and> sent (px_server px') = sent (px_server px) @ concat fs
    \<and> sent (px_client px') = sent (px_client px) @ concat ns
    \<and> server_buf px' = server_buf px \<and> px_scanner px' = px_scanner px
    \<and> (unlimited px \<longrightarrow> unlimited px')"
  using assms
proof (induction c sizes i ij px rule: slow_client_loop.induct)
  case (1 c sizes i ij px)
  consider (stop) "try_read_message_with_raw (client_buf px) = (Inr None, client_buf px)"
    | (err) e where "try_read_message_with_raw (client_buf px) = (Inl e, client_buf px)"
    | (msg) m raw rest where "try_read_message_with_raw (client_buf px) = (Inr (Some (m, raw)), rest)"
    by (metis raw_reader.reader_cases surj_pair)
  then show ?case
  proof cases
    case stop
    then show ?thesis using 1(2) raw_reader.drain_stop [OF stop]
      by (auto simp: slow_client_loop.simps [of c sizes i ij px])
  next
    case (err e)
    then show ?thesis using 1(2) raw_reader.drain_error [OF err]
      by (auto simp: slow_client_loop.simps [of c sizes i ij px])
  next
    case (msg m raw rest)
    let ?px = "px\<lparr>client_buf := rest\<rparr>"
    obtain r1 ij1 px1 where m1: "slow_client_message c (sizes i) m raw ij ?px = (r1, ij1, px1)" by (metis prod_cases3)
    have u: "unlimited ?px = unlimited px" by (simp add: unlimited_def)
    have "r1 = Inr () \<or> unlimited ?px"
      using 1(2,3) msg m1 u by (cases r1) (auto simp: slow_client_loop.simps [of c sizes i ij px])
    from slow_client_message_effect [OF m1 this] obtain fs ns where
      e: "r1 = Inr ()" "unlimited px \<longrightarrow> unlimited px1" "enforce c (\<lambda>_. sizes i) 0 ij [(m, raw)] = (fs, ns, ij1)"
        "sent (px_server px1) = sent (px_server px) @ concat fs" "sent (px_client px1) = sent (px_client px) @ concat ns"
      using u by auto
    note b = slow_client_message_bufs [OF m1]
    have l: "slow_client_loop c sizes (Suc i) ij1 px1 = (r, ij', px')"
      using 1(2) msg m1 e(1) by (simp add: slow_client_loop.simps [of c sizes i ij px])
    have "r = Inr () \<or> unlimited px1" using e 1(3) by blast
    from 1(1) [OF msg [symmetric] refl refl refl m1 [symmetric] e(1) refl l this]
    obtain ms fs' ns' where
      ih: "drain try_read_message_with_raw (client_buf px1) = (ms, case r of Inl e \<Rightarrow> Some e | Inr _ \<Rightarrow> None, client_buf px')"
        "enforce c sizes (Suc i) ij1 ms = (fs', ns', ij')"
        "sent (px_server px') = sent (px_server px1) @ concat fs'" "sent (px_client px') = sent (px_client px1) @ concat ns'"
        "server_buf px' = server_buf px1" "px_scanner px' = px_scanner px1" "unlimited px1 \<longrightarrow> unlimited px'"
      by auto
    have "drain try_read_message_with_raw (client_buf px) = ((m, raw) # ms, case r of Inl e \<Rightarrow> Some e | Inr _ \<Rightarrow> None, client_buf px')"
      using raw_reader.drain_step [OF msg] ih(1) b by simp
    then show ?thesis using enforce_Cons [OF e(3) ih(2)] ih e b
      by (intro exI [of _ "(m, raw) # ms"]) auto
  qed
qed


section \<open>Both loops together\<close>

lemma enforce_notices:
  "enforce c sizes i ij ms = (fs, ns, ij') \<Longrightarrow> set ns \<subseteq> {limit_notice c}"
proof (induction ms arbitrary: i ij fs ns ij')
  case (Cons x ms)
  obtain m raw where x: "x = (m, raw)" by fastforce
  show ?case
  proof (cases "verdict_of c (sizes i) m")
    case (Wrap q)
    obtain fs1 ns1 ij1 where e: "enforce c sizes (Suc i) True ms = (fs1, ns1, ij1)" by (metis prod_cases3)
    then show ?thesis using Cons.prems Cons.IH [OF e] x Wrap by (auto split: if_splits)
  qed (use Cons x in \<open>auto split: prod.splits\<close>)
qed simp

lemma relayed_notices:
  "set ns \<subseteq> {n} \<Longrightarrow> sent (px_client px') = sent (px_client px) @ concat ns \<Longrightarrow> server_buf px' = server_buf px \<Longrightarrow>
     relayed n px px' []"
  unfolding relayed_def by (rule exI [of _ "map (Pair True) ns"]) (auto simp: comp_def filter_empty_conv)

lemma slow_step_flow:
  assumes "slow_step c ev ij px = (Ok x, ij', px')"
  shows "relayed (limit_notice c) px px' (input Server [ev])"
proof (cases "ev_read ev")
  case (Inr d)
  show ?thesis
  proof (cases "d = []")
    case True
    then show ?thesis using assms Inr by (auto simp: slow_step_def intro: relayed_same)
  next
    case False
    then obtain b bs where d: "d = b # bs" by (cases d) auto
    show ?thesis
    proof (cases "ev_side ev")
      case Client
      let ?px = "px\<lparr>client_buf := client_buf px @ d\<rparr>"
      obtain r1 ij1 px1 where l: "slow_client_loop c (ev_size ev) 0 ij ?px = (r1, ij1, px1)" by (metis prod_cases3)
      then have r: "r1 = Inr ()" "px' = px1"
        using assms Inr d Client by (auto simp: slow_step_def split: sum.splits)
      from slow_client_loop_enforces [OF l disjI1 [OF r(1)]] obtain ms fs ns where
        "enforce c (ev_size ev) 0 ij ms = (fs, ns, ij1)" "sent (px_client px1) = sent (px_client px) @ concat ns"
        "server_buf px1 = server_buf px" by auto
      then have "relayed (limit_notice c) px px' []"
        using enforce_notices r(2) by (metis relayed_notices)
      then show ?thesis using Client by simp
    next
      case Server
      let ?px = "px\<lparr>server_buf := server_buf px @ d\<rparr>"
      have "slow_server_loop (ev_flag ev) 0 ?px = (Ok x, px')"
        using assms Inr d Server by (auto simp: slow_step_def split: prod.splits)
      from slow_server_loop_flow [OF this] obtain b where
        "sent (px_client px') = sent (px_client px) @ b" "b @ server_buf px' = server_buf px @ d" by auto
      then have "relayed (limit_notice c) px px' d" by (rule relayed_chunk)
      then show ?thesis using Server Inr by simp
    qed
  qed
qed (use assms in \<open>simp add: slow_step_def\<close>)

lemma slow_server_loop_result: "fst (slow_server_loop flags i px) \<noteq> Panic \<and> fst (slow_server_loop flags i px) \<noteq> Pending"
proof (induction flags i px rule: slow_server_loop.induct)
  case (1 flags i px)
  then show ?case using slow_server_message_result
    by (auto simp: slow_server_loop.simps [of flags i px] split: prod.splits sum.splits option.splits outcome.splits)
      (metis fst_conv)+
qed

lemma slow_step_result: "fst (slow_step c ev ij px) \<noteq> Panic \<and> fst (slow_step c ev ij px) \<noteq> Pending"
  using slow_server_loop_result
  by (auto simp: slow_step_def split: sum.splits list.splits side.splits prod.splits) (metis fst_conv)+

lemma slow_loop_flow:
  assumes "slow_loop c evs ij px = (r, px', rest)" "\<And>e. r \<noteq> Err e"
  shows "\<exists>used. evs = used @ rest \<and> (r = Pending \<longrightarrow> rest = []) \<and> relayed (limit_notice c) px px' (input Server used)"
  using assms
proof (induction evs arbitrary: ij px)
  case Nil
  then show ?case by (auto simp: relayed_same)
next
  case (Cons ev evs)
  obtain r1 ij1 px1 where st: "slow_step c ev ij px = (r1, ij1, px1)" by (metis prod_cases3)
  then obtain x where x: "r1 = Ok x" using Cons.prems slow_step_result [of c ev ij px] by (cases r1) auto
  note f = slow_step_flow [OF st [unfolded x]]
  show ?case
  proof (cases x)
    case (Some y)
    then have "r = Ok y" "px' = px1" "rest = evs" using Cons.prems st x by auto
    then show ?thesis using f by (intro exI [of _ "[ev]"]) simp
  next
    case None
    then have "slow_loop c evs ij1 px1 = (r, px', rest)" using Cons.prems st x by simp
    from Cons.IH [OF this Cons.prems(2)] obtain used where u: "evs = used @ rest" "r = Pending \<longrightarrow> rest = []"
      "relayed (limit_notice c) px1 px' (input Server used)" by blast
    have "relayed (limit_notice c) px px' (input Server ([ev] @ used))"
      unfolding input_append by (rule relayed_trans [OF f u(3)])
    then show ?thesis using u(1,2) by (intro exI [of _ "[ev] @ used"]) simp
  qed
qed


section \<open>Switching\<close>

lemma fast_step_exit:
  assumes "fast_step ev p px = (Ok (Some x), p', px')"
  shows "x = ClientDisconnected \<and> px_scanner px' = px_scanner px \<or>
    x = SwitchToSlow \<and> p \<and> server_buf px' = [] \<and>
      (\<exists>d. ev_side ev = Server \<and> ev_read ev = Inr d \<and> scan_checked (px_scanner px) (server_buf px @ d) = Some (px_scanner px', True))"
  using assms
  by (auto simp: fast_step_def Let_def split: sum.splits list.splits side.splits option.splits prod.splits if_splits
      dest!: to_client_fields)

lemma fast_step_pending:
  assumes "fast_step ev p px = (Ok x, p', px')"
  shows "p' \<longrightarrow> p \<or> (ev_side ev = Client \<and> ev_flag ev 0)"
  using assms
  by (auto simp: fast_step_def Let_def split: sum.splits list.splits side.splits prod.splits if_splits option.splits)

lemma slow_server_message_exit:
  assumes "slow_server_message f raw px = (Ok (Some x), px')"
  shows "x = SwitchToFast \<and> \<not> f \<and> raw ! 0 = byte_of CHR ''Z'' \<and> length raw = 6 \<and> raw ! 5 = byte_of CHR ''I''
    \<and> transaction_status (px_scanner px') = byte_of CHR ''I''"
  using assms
  by (auto simp: slow_server_message_def split: prod.splits sum.splits if_splits option.splits dest!: to_client_fields)

lemma slow_server_loop_exit:
  assumes "slow_server_loop flags i px = (Ok (Some x), px')"
  shows "x = SwitchToFast \<and> (\<exists>j. \<not> flags j) \<and> transaction_status (px_scanner px') = byte_of CHR ''I''
    \<and> (\<exists>before. sent (px_client px') = before @ build_ready_for_query (byte_of CHR ''I''))"
  using assms
proof (induction flags i px rule: slow_server_loop.induct)
  case (1 flags i px)
  consider (stop) "try_read_message_with_raw (server_buf px) = (Inr None, server_buf px)"
    | (err) e where "try_read_message_with_raw (server_buf px) = (Inl e, server_buf px)"
    | (msg) m raw rest where "try_read_message_with_raw (server_buf px) = (Inr (Some (m, raw)), rest)"
    by (metis raw_reader.reader_cases surj_pair)
  then show ?case
  proof cases
    case (msg m raw rest)
    obtain r1 px1 where m1: "slow_server_message (flags i) raw (px\<lparr>server_buf := rest\<rparr>) = (r1, px1)" by fastforce
    note st = slow_server_loop_step [OF msg, of flags i]
    show ?thesis
    proof (cases "r1 = Ok None")
      case True
      then have "slow_server_loop flags (Suc i) px1 = (Ok (Some x), px')" using 1(2) m1 st by simp
      then show ?thesis using 1(1) [OF msg [symmetric] refl refl refl m1 [symmetric] True refl] by blast
    next
      case False
      then have r1: "r1 = Ok (Some x)" "px' = px1" using 1(2) m1 st by (auto split: outcome.splits option.splits)
      note e = slow_server_message_exit [OF m1 [unfolded r1(1)]]
      obtain len where raw: "raw = msg_type m # put_i32 (usize_as_i32 len) @ payload m" "length (payload m) + 4 = len"
        using with_raw_SomeE [OF msg] by metis
      then have "length (payload m) = 1" "len = 5" using e by simp_all
      then obtain b where "payload m = [b]" by (metis length_0_conv length_Suc_conv One_nat_def)
      then have "raw = build_ready_for_query (byte_of CHR ''I'')"
        using raw e \<open>len = 5\<close> by (simp add: build_ready_for_query_def usize_as_i32_def nth_append)
      then show ?thesis using e slow_server_message_sent [OF m1 [unfolded r1(1)]] r1(2) by auto
    qed
  qed (use 1(2) in \<open>auto simp: slow_server_loop.simps [of flags i px]\<close>)
qed


lemma track_idle_status: "track (b, st, i) d = (b', st', i') \<Longrightarrow> (i \<longrightarrow> st = byte_of CHR ''I'') \<Longrightarrow> i' \<longrightarrow> st' = byte_of CHR ''I''"
proof (induction d arbitrary: b st i)
  case (Cons x d)
  then show ?case by (cases b) auto
qed simp

lemma scan_idle_status:
  assumes "scanner_wf s" "snd (scan s d)"
  shows "transaction_status (fst (scan s d)) = byte_of CHR ''I''"
proof -
  obtain b st i where t: "track (boundary_of s, transaction_status s, False) d = (b, st, i)" by (metis prod_cases3)
  then show ?thesis using scan_refines [OF assms(1), of d] assms(2) track_idle_status [OF t] by (auto split: prod.splits)
qed

lemma fast_step_scanner_wf:
  assumes "fast_step ev p px = (Ok x, p', px')" "scanner_wf (px_scanner px)"
  shows "scanner_wf (px_scanner px')"
  using assms(1) scan_wf [OF assms(2)] assms(2)
  by (auto simp: fast_step_def Let_def scan_in_range split: sum.splits list.splits side.splits prod.splits if_splits
      dest!: to_client_fields to_server_fields) (metis fst_conv)+

lemma fast_loop_exit:
  assumes "fast_loop evs p px = (Ok x, px', rest)" "scanner_wf (px_scanner px)"
  shows "scanner_wf (px_scanner px') \<and> (x = ClientDisconnected \<or>
    x = SwitchToSlow \<and> server_buf px' = [] \<and> transaction_status (px_scanner px') = byte_of CHR ''I''
    \<and> (p \<or> (\<exists>ev used. evs = used @ rest \<and> ev \<in> set used \<and> ev_side ev = Client \<and> ev_flag ev 0)))"
  using assms
proof (induction evs arbitrary: p px)
  case (Cons ev evs)
  obtain r1 p1 px1 where st: "fast_step ev p px = (r1, p1, px1)" by (metis prod_cases3)
  then obtain y where y: "r1 = Ok y" using Cons.prems(1) by (cases r1) auto
  note wf = fast_step_scanner_wf [OF st [unfolded y] Cons.prems(2)]
  show ?case
  proof (cases y)
    case (Some z)
    then have "x = z" "px' = px1" "rest = evs" using Cons.prems(1) st y by auto
    then show ?thesis using fast_step_exit [of ev p px z p1 px1] st y Some wf
      scan_idle_status [OF Cons.prems(2)] scan_in_range [OF Cons.prems(2)] by auto (metis fst_conv snd_conv)
  next
    case None
    then have "fast_loop evs p1 px1 = (Ok x, px', rest)" using Cons.prems st y by simp
    from Cons.IH [OF this wf] show ?thesis
    proof (elim conjE disjE exE)
      fix ev' used
      assume "evs = used @ rest" "ev' \<in> set used" "ev_side ev' = Client" "ev_flag ev' 0"
      then have "ev # evs = (ev # used) @ rest \<and> ev' \<in> set (ev # used) \<and> ev_side ev' = Client \<and> ev_flag ev' 0" by simp
      moreover assume "x = SwitchToSlow" "server_buf px' = []" "transaction_status (px_scanner px') = byte_of CHR ''I''"
        "scanner_wf (px_scanner px')"
      ultimately show ?thesis by blast
    next
      assume a: "x = SwitchToSlow" "server_buf px' = []" "transaction_status (px_scanner px') = byte_of CHR ''I''"
        "scanner_wf (px_scanner px')" "p1"
      obtain used where "evs = used @ rest"
        using fast_loop_flow [OF \<open>fast_loop evs p1 px1 = (Ok x, px', rest)\<close>] by auto
      then have "ev # evs = (ev # used) @ rest" by simp
      then show ?thesis using fast_step_pending [OF st [unfolded y]] a by (metis list.set_intros(1))
    qed simp
  qed
qed simp

lemma slow_step_exit:
  assumes "slow_step c ev ij px = (Ok (Some x), ij', px')"
  shows "x = ClientDisconnected \<or>
    x = SwitchToFast \<and> transaction_status (px_scanner px') = byte_of CHR ''I'' \<and> ev_side ev = Server \<and> (\<exists>j. \<not> ev_flag ev j)
    \<and> (\<exists>before. sent (px_client px') = before @ build_ready_for_query (byte_of CHR ''I''))"
  using assms slow_server_loop_exit
  by (auto simp: slow_step_def split: sum.splits list.splits side.splits prod.splits)

lemma slow_loop_exit:
  assumes "slow_loop c evs ij px = (Ok x, px', rest)"
  shows "x = ClientDisconnected \<or>
    x = SwitchToFast \<and> transaction_status (px_scanner px') = byte_of CHR ''I''
    \<and> (\<exists>before. sent (px_client px') = before @ build_ready_for_query (byte_of CHR ''I''))
    \<and> (\<exists>used ev j. evs = used @ ev # rest \<and> ev_side ev = Server \<and> \<not> ev_flag ev j)"
  using assms
proof (induction evs arbitrary: ij px)
  case (Cons ev evs)
  obtain r1 ij1 px1 where st: "slow_step c ev ij px = (r1, ij1, px1)" by (metis prod_cases3)
  then obtain y where y: "r1 = Ok y" using Cons.prems(1) by (cases r1) auto
  show ?case
  proof (cases y)
    case (Some z)
    then have "x = z" "px' = px1" "rest = evs" using Cons.prems(1) st y by auto
    then show ?thesis using slow_step_exit [OF st [unfolded y Some]] by (metis append_Nil)
  next
    case None
    then have "slow_loop c evs ij1 px1 = (Ok x, px', rest)" using Cons.prems st y by simp
    from Cons.IH [OF this] show ?thesis by (metis append_Cons)
  qed
qed simp

text \<open>
  C17. fast_proxy_loop hands over to the slow loop only after a client read saw the over-limit
  flag set and with the last transaction status seen being idle, and by then the client has been
  sent exactly the server bytes buffered at the start followed by every byte read from the server,
  with nothing left in the buffer; it never asks for a switch to fast mode.
\<close>

theorem switch_to_slow_only_when_idle:
  assumes "fast_proxy_loop evs px = (Ok x, px', rest)" "scanner_wf (px_scanner px)"
  shows "x = ClientDisconnected \<or>
    x = SwitchToSlow \<and> transaction_status (px_scanner px') = byte_of CHR ''I'' \<and> server_buf px' = []
    \<and> (\<exists>used. evs = used @ rest \<and> sent (px_client px') = sent (px_client px) @ server_buf px @ input Server used
        \<and> (\<exists>ev\<in>set used. ev_side ev = Client \<and> ev_flag ev 0))"
proof -
  have l: "fast_loop evs False px = (Ok x, px', rest)" using assms(1) by (simp add: fast_proxy_loop_def)
  obtain used where u: "evs = used @ rest"
    "sent (px_client px') @ server_buf px' = sent (px_client px) @ server_buf px @ input Server used"
    using fast_loop_flow [OF l] by blast
  show ?thesis using fast_loop_exit [OF l assms(2)] u by auto
qed

text \<open>
  C18. slow_proxy_loop hands back to the fast loop only when the over-limit flag was seen clear
  and right after forwarding an idle ReadyForQuery message to the client.
\<close>

theorem switch_to_fast_only_when_idle:
  assumes "slow_proxy_loop c evs px = (Ok x, px', rest)"
  shows "x = ClientDisconnected \<or>
    x = SwitchToFast \<and> transaction_status (px_scanner px') = byte_of CHR ''I''
    \<and> (\<exists>before. sent (px_client px') = before @ build_ready_for_query (byte_of CHR ''I''))
    \<and> (\<exists>used ev j. evs = used @ ev # rest \<and> ev_side ev = Server \<and> \<not> ev_flag ev j)"
  using slow_loop_exit [of c evs False px x px' rest] assms by (simp add: slow_proxy_loop_def)


section \<open>The whole proxy phase\<close>

lemma fast_exit_kind: "fast_loop evs p px = (Ok x, px', rest) \<Longrightarrow> x \<noteq> SwitchToFast"
proof (induction evs arbitrary: p px)
  case (Cons ev evs)
  then show ?case using fast_step_exit [of ev p px]
    by (auto split: prod.splits outcome.splits option.splits)
qed simp

lemma fast_loop_no_panic: "scanner_wf (px_scanner px) \<Longrightarrow> fst (fast_loop evs p px) \<noteq> Panic"
proof (induction evs arbitrary: p px)
  case (Cons ev evs)
  obtain r1 p1 px1 where st: "fast_step ev p px = (r1, p1, px1)" by (metis prod_cases3)
  have "r1 \<noteq> Panic" using st Cons.prems
    by (auto simp: fast_step_def Let_def scan_in_range split: sum.splits list.splits side.splits prod.splits if_splits)
  moreover have "scanner_wf (px_scanner px1)" if "r1 = Ok None"
    using fast_step_scanner_wf [OF st [unfolded that] Cons.prems] .
  ultimately show ?case using Cons.IH st by (auto split: outcome.splits option.splits)
qed simp

lemma slow_loop_no_panic: "fst (slow_loop c evs ij px) \<noteq> Panic"
proof (induction evs arbitrary: ij px)
  case (Cons ev evs)
  then show ?case using slow_step_result [of c ev ij px]
    by (auto split: prod.splits outcome.splits option.splits)
qed simp

lemma fast_proxy_cases:
  obtains (left) px' rest where "fast_proxy_loop evs px = (Ok ClientDisconnected, px', rest)"
  | (slow) px' rest where "fast_proxy_loop evs px = (Ok SwitchToSlow, px', rest)"
  | (err) e px' rest where "fast_proxy_loop evs px = (Err e, px', rest)"
  | (panic) px' rest where "fast_proxy_loop evs px = (Panic, px', rest)"
  | (pend) px' rest where "fast_proxy_loop evs px = (Pending, px', rest)"
proof -
  obtain r px' rest where e: "fast_loop evs False px = (r, px', rest)" by (metis prod_cases3)
  have "r \<noteq> Ok SwitchToFast" using fast_exit_kind [of evs False px] e by auto
  then show ?thesis using e that unfolding fast_proxy_loop_def
    by (cases r; metis proxy_loop_exit.exhaust)
qed

lemma slow_proxy_cases:
  obtains (left) px' rest where "slow_proxy_loop c evs px = (Ok ClientDisconnected, px', rest)"
  | (fast) px' rest where "slow_proxy_loop c evs px = (Ok SwitchToFast, px', rest)"
  | (err) e px' rest where "slow_proxy_loop c evs px = (Err e, px', rest)"
  | (pend) px' rest where "slow_proxy_loop c evs px = (Pending, px', rest)"
proof -
  obtain r px' rest where e: "slow_loop c evs False px = (r, px', rest)" by (metis prod_cases3)
  have "r \<noteq> Panic" using slow_loop_no_panic [of c evs False px] e by simp
  moreover have "r \<noteq> Ok SwitchToSlow" using slow_loop_exit [of c evs False px] e by auto
  ultimately show ?thesis using e that unfolding slow_proxy_loop_def
    by (cases r; metis proxy_loop_exit.exhaust)
qed

text \<open>The slow loop keeps the scanner well formed: it only sets the transaction status.\<close>

lemma slow_server_loop_wf:
  "slow_server_loop flags i px = (r, px') \<Longrightarrow> scanner_wf (px_scanner px) \<Longrightarrow> scanner_wf (px_scanner px')"
proof (induction flags i px rule: slow_server_loop.induct)
  case (1 flags i px)
  have m: "scanner_wf (px_scanner px2)" if "slow_server_message f raw px1 = (r1, px2)" "scanner_wf (px_scanner px1)" for f raw px1 r1 px2
    using that by (auto simp: slow_server_message_def scanner_wf_def split: if_splits prod.splits sum.splits option.splits dest!: to_client_fields)
  show ?case using 1 m
    by (fastforce simp: slow_server_loop.simps [of flags i px] split: prod.splits sum.splits option.splits outcome.splits)
qed

lemma slow_client_loop_scanner: "slow_client_loop c sizes i ij px = (r, ij', px') \<Longrightarrow> px_scanner px' = px_scanner px"
proof (induction c sizes i ij px rule: slow_client_loop.induct)
  case (1 c sizes i ij px)
  then show ?case
    by (fastforce simp: slow_client_loop.simps [of c sizes i ij px] split: prod.splits sum.splits option.splits dest: slow_client_message_bufs)
qed

lemma slow_loop_wf: "slow_loop c evs ij px = (r, px', rest) \<Longrightarrow> scanner_wf (px_scanner px) \<Longrightarrow> scanner_wf (px_scanner px')"
proof (induction evs arbitrary: ij px)
  case (Cons ev evs)
  obtain r1 ij1 px1 where st: "slow_step c ev ij px = (r1, ij1, px1)" by (metis prod_cases3)
  have "scanner_wf (px_scanner px1)"
    using st Cons.prems(2)
    by (auto simp: slow_step_def split: sum.splits list.splits side.splits prod.splits
        dest!: slow_client_loop_scanner slow_server_loop_wf)
  then show ?case using Cons st by (auto split: outcome.splits option.splits)
qed simp

lemma proxy_phase_no_panic: "scanner_wf (px_scanner px) \<Longrightarrow> fst (proxy_phase c evs px) \<noteq> Panic"
proof (induction c evs px rule: proxy_phase.induct)
  case (1 c evs px)
  show ?case
  proof (cases evs px rule: fast_proxy_cases)
    case (panic px1 rest)
    then show ?thesis using fast_loop_no_panic [OF 1(2), of evs False] by (simp add: fast_proxy_loop_def)
  next
    case (slow px1 evs1)
    have wf: "scanner_wf (px_scanner px1)" using slow fast_loop_exit [OF _ 1(2)] by (simp add: fast_proxy_loop_def)
    show ?thesis
    proof (cases c evs1 px1 rule: slow_proxy_cases)
      case (fast px2 evs2)
      then have "scanner_wf (px_scanner px2)" using slow_loop_wf wf by (simp add: slow_proxy_loop_def)
      then show ?thesis using 1(1) slow fast by (simp add: proxy_phase.simps [of c evs px])
    qed (use slow in \<open>simp_all add: proxy_phase.simps [of c evs px]\<close>)
  qed (simp_all add: proxy_phase.simps [of c evs px])
qed

text \<open>
  C30. Started with a well-formed scanner such as the new one of handle_client, the proxy phase
  never panics, whatever the peers send: no unreachable! arm is reached, no slice, copy or index
  of MessageBoundaryScanner::scan lies out of range, and neither do raw[0] and raw[5] of the slow
  loop's ReadyForQuery inspection; the slices of try_read_message_with_raw lie in range for every
  buffer.
\<close>

theorem proxy_phase_never_panics:
  assumes "scanner_wf (px_scanner px)"
  shows "fst (proxy_phase c evs px) \<noteq> Panic \<and> read_raw_checked buf = Some (try_read_message_with_raw buf)"
  using proxy_phase_no_panic [OF assms] read_raw_in_range by simp

section \<open>Enforcement over a stream of reads\<close>

lemma enforce_const_index: "enforce c (\<lambda>_. k) i ij ms = enforce c (\<lambda>_. k) j ij ms"
proof (induction ms arbitrary: i j ij)
  case (Cons x ms)
  obtain m raw where x: "x = (m, raw)" by fastforce
  show ?case using Cons.IH [of "Suc i" _ "Suc j"] unfolding x by (simp cong: verdict.case_cong)
qed simp

lemma enforce_append:
  assumes "enforce c (\<lambda>_. k) i ij ms = (fs, ns, ij1)" "enforce c (\<lambda>_. k) j ij1 ms' = (fs', ns', ij2)"
  shows "enforce c (\<lambda>_. k) i ij (ms @ ms') = (fs @ fs', ns @ ns', ij2)"
  using assms(1)
proof (induction ms arbitrary: i ij fs ns)
  case Nil
  then show ?case using assms(2) enforce_const_index [of c k i ij1 ms' j] by simp
next
  case (Cons x ms)
  obtain f1 n1 b1 where 1: "enforce c (\<lambda>_. k) 0 ij [x] = (f1, n1, b1)" by (metis prod_cases3)
  obtain f2 n2 b2 where 2: "enforce c (\<lambda>_. k) (Suc i) b1 ms = (f2, n2, b2)" by (metis prod_cases3)
  have e: "fs = f1 @ f2" "ns = n1 @ n2" "b2 = ij1"
    using enforce_Cons [OF 1 2] Cons.prems by simp_all
  have "enforce c (\<lambda>_. k) (Suc i) b1 (ms @ ms') = (f2 @ fs', n2 @ ns', ij2)"
    using Cons.IH [of "Suc i" b1 f2 n2] 2 e(3) by simp
  then show ?case using enforce_Cons [OF 1] e by simp
qed

definition client_read :: "u64 option \<Rightarrow> event \<Rightarrow> bool" where
  "client_read k ev \<longleftrightarrow> ev_side ev = Client \<and> (\<exists>d. ev_read ev = Inr d \<and> d \<noteq> []) \<and> ev_size ev = (\<lambda>_. k)"

lemma slow_loop_client_reads:
  assumes "list_all (client_read k) evs" "unlimited px" "try_read_message_with_raw (client_buf px) = (Inr None, client_buf px)"
    and "drain try_read_message_with_raw (client_buf px @ input Client evs) = (ms, e, rest)"
    and "enforce c (\<lambda>_. k) 0 ij ms = (fs, ns, ij')"
  shows "\<exists>px' left. slow_loop c evs ij px = (case e of None \<Rightarrow> Pending | Some e \<Rightarrow> Err e, px', left)
    \<and> sent (px_server px') = sent (px_server px) @ concat fs
    \<and> sent (px_client px') = sent (px_client px) @ concat ns"
  using assms
proof (induction evs arbitrary: px ij ms fs ns)
  case Nil
  then have "ms = []" "e = None" using raw_reader.drain_stop [OF Nil(3)] by simp_all
  then show ?case using Nil(5) by simp
next
  case (Cons ev evs)
  obtain d where ev: "ev_side ev = Client" "ev_read ev = Inr d" "d \<noteq> []" "ev_size ev = (\<lambda>_. k)"
    using Cons.prems(1) by (auto simp: client_read_def)
  then obtain b bs where d: "d = b # bs" by (cases d) auto
  let ?px = "px\<lparr>client_buf := client_buf px @ d\<rparr>"
  obtain r1 ij1 px1 where l: "slow_client_loop c (\<lambda>_. k) 0 ij ?px = (r1, ij1, px1)" by (metis prod_cases3)
  have u: "unlimited ?px" using Cons.prems(2) by (simp add: unlimited_def)
  from slow_client_loop_enforces [OF l disjI2 [OF u]] u obtain ms1 fs1 ns1 where
    e1: "drain try_read_message_with_raw (client_buf px @ d) = (ms1, case r1 of Inl e \<Rightarrow> Some e | Inr _ \<Rightarrow> None, client_buf px1)"
      "enforce c (\<lambda>_. k) 0 ij ms1 = (fs1, ns1, ij1)" "sent (px_server px1) = sent (px_server px) @ concat fs1"
      "sent (px_client px1) = sent (px_client px) @ concat ns1" "unlimited px1" by auto
  show ?case
  proof (cases r1)
    case (Inl e0)
    then have "drain try_read_message_with_raw ((client_buf px @ d) @ input Client evs) = (ms1, Some e0, client_buf px1 @ input Client evs)"
      using e1(1) by (intro raw_reader.drain_append_error) simp
    then have m: "ms = ms1" "e = Some e0" using Cons.prems(4) ev by simp_all
    have "slow_loop c (ev # evs) ij px = (Err e0, px1, evs)"
      using l Inl ev d by (simp add: slow_step_def)
    then show ?thesis using e1 m Cons.prems(5) by auto
  next
    case (Inr x)
    have st: "slow_loop c (ev # evs) ij px = slow_loop c evs ij1 px1"
      using l Inr ev d by (simp add: slow_step_def)
    have d1: "drain try_read_message_with_raw (client_buf px @ d) = (ms1, None, client_buf px1)" using e1(1) Inr by simp
    obtain ms2 e2 rest2 where d2: "drain try_read_message_with_raw (client_buf px1 @ input Client evs) = (ms2, e2, rest2)"
      by (metis prod_cases3)
    obtain fs2 ns2 ij2 where f2: "enforce c (\<lambda>_. k) 0 ij1 ms2 = (fs2, ns2, ij2)" by (metis prod_cases3)
    have "ms = ms1 @ ms2" "e = e2" "rest = rest2"
      using raw_reader.drain_append [OF d1 d2] Cons.prems(4) ev by simp_all
    moreover have "fs = fs1 @ fs2" "ns = ns1 @ ns2" "ij' = ij2"
      using enforce_append [OF e1(2) f2] Cons.prems(5) calculation by simp_all
    ultimately show ?thesis
      using Cons.IH [of px1 ms2 ij1 fs2 ns2] Cons.prems(1) e1 raw_reader.drain_rest_incomplete [OF d1] d2 f2 st by auto
  qed
qed


text \<open>Where an over-limit frame comes from.\<close>

lemma enforce_frames:
  assumes "enforce c sizes i ij ms = (fs, ns, ij')" "f \<in> set fs" "\<forall>j. should_inject c (sizes j)"
  shows "(\<exists>(m, raw) \<in> set ms. f = raw \<and>
      (msg_type m \<noteq> byte_of CHR ''Q'' \<or>
       allow_shrink_operations_when_overlimit (monitor_cfg (sc_cfg c)) \<and>
       (\<exists>q. extract_query_text m = Some q \<and> is_shrink_operation (sc_upper c) q)))
    \<or> (\<exists>q. f = wrap_query q)"
  using assms(1,2)
proof (induction ms arbitrary: i ij fs ns ij')
  case (Cons x ms)
  obtain m raw where x: "x = (m, raw)" by fastforce
  obtain f1 n1 b1 where 1: "enforce c (\<lambda>_. sizes i) 0 ij [x] = (f1, n1, b1)" by (metis prod_cases3)
  obtain f2 n2 b2 where 2: "enforce c sizes (Suc i) b1 ms = (f2, n2, b2)" by (metis prod_cases3)
  have fs: "fs = f1 @ f2" using enforce_Cons [OF 1 2] Cons.prems(1) by simp
  show ?case
  proof (cases "f \<in> set f2")
    case True
    then show ?thesis using Cons.IH [OF 2] by auto
  next
    case False
    then have "f \<in> set f1" using fs Cons.prems(2) by simp
    then show ?thesis using 1 assms(3) x
      by (auto simp: verdict_of_def split: if_splits option.splits verdict.splits)
  qed
qed simp

text \<open>
  C1. While the known size of a session's database exceeds its limit, slow_proxy_loop never
  forwards an ordinary simple query as it is: every frame it writes to the server for the buffered
  client messages is either a query rewritten to start with SET TRANSACTION READ ONLY, or the
  unchanged frame of a message that is no simple query or whose text is an allowed shrink
  operation.
\<close>

theorem over_limit_queries_are_read_only:
  assumes "slow_client_loop c sizes i ij px = (r, ij', px')" "r = Inr () \<or> unlimited px"
    and "\<forall>j. should_inject c (sizes j)"
  shows "\<exists>fs. sent (px_server px') = sent (px_server px) @ concat fs
    \<and> (\<forall>f\<in>set fs. (\<exists>q. f = wrap_query q) \<or>
        (\<exists>ms e rest m. drain try_read_message_with_raw (client_buf px) = (ms, e, rest) \<and> (m, f) \<in> set ms \<and>
           (msg_type m \<noteq> byte_of CHR ''Q'' \<or>
            allow_shrink_operations_when_overlimit (monitor_cfg (sc_cfg c)) \<and>
            (\<exists>q. extract_query_text m = Some q \<and> is_shrink_operation (sc_upper c) q))))"
proof -
  from slow_client_loop_enforces [OF assms(1,2)] obtain ms fs ns where
    d: "drain try_read_message_with_raw (client_buf px) = (ms, case r of Inl e \<Rightarrow> Some e | Inr _ \<Rightarrow> None, client_buf px')"
    and e: "enforce c sizes i ij ms = (fs, ns, ij')" and s: "sent (px_server px') = sent (px_server px) @ concat fs"
    by blast
  show ?thesis using s d enforce_frames [OF e _ assms(3)] by (intro exI [of _ fs]) blast
qed

lemma extract_wire_query:
  assumes "wire_str t"
  shows "extract_query_text (new_message (byte_of CHR ''Q'') (as_bytes t @ [0])) = Some t"
  using assms takeWhile_cstr [of "as_bytes t" "[]"]
  by (simp add: extract_query_text_def new_message_def wire_str_def from_utf8_as_bytes)

text \<open>The wrapped query reads back as one query message whose text is prefixed.\<close>

theorem wrapped_query_reads_back:
  assumes "length q + 32 \<le> MAX_MESSAGE_SIZE" "wire_str q"
  shows "\<exists>m. try_read_message (wrap_query q @ rest) False = (Inr (Some m), rest)
    \<and> extract_query_text m = Some (''SET TRANSACTION READ ONLY; '' @ q)"
proof -
  let ?t = "''SET TRANSACTION READ ONLY; '' @ q"
  let ?m = "new_message (byte_of CHR ''Q'') (as_bytes ?t @ [0])"
  have pre: "wire_str ''SET TRANSACTION READ ONLY; ''" by (simp add: wire_str_def ascii_str_def byte_of_def)
  then have t: "wire_str ?t" using assms(2) unfolding wire_str_def as_bytes_append set_append
    by (metis Un_iff valid_str_append)
  have "try_read_message (wrap_query q @ rest) False = (Inr (Some ?m), rest)"
    using assms(1) read_frame [of "as_bytes ?t @ [0]" "byte_of CHR ''Q''" rest]
    by (simp add: wrap_query_def encode_def new_message_def byte_of_def)
  moreover note extract_wire_query [OF t]
  ultimately show ?thesis by blast
qed


section \<open>Below the limit the proxy is transparent\<close>

lemma drain_raw_concat:
  "drain try_read_message_with_raw buf = (ms, e, rest) \<Longrightarrow> buf = concat (map snd ms) @ rest"
proof (induction buf arbitrary: ms rule: length_induct)
  case (1 buf)
  show ?case
  proof (cases buf rule: raw_reader.reader_cases)
    case (message x b)
    obtain m raw where x: "x = (m, raw)" by fastforce
    obtain ms' where d: "drain try_read_message_with_raw b = (ms', e, rest)" "ms = x # ms'"
      using 1(2) raw_reader.drain_step [OF message(1)] by (auto split: prod.splits)
    have "buf = raw @ b" using with_raw_SomeE message(1) x by metis
    then show ?thesis using 1(1) message(2) d x by auto
  qed (use 1(2) in \<open>auto simp: raw_reader.drain_stop raw_reader.drain_error\<close>)
qed

lemma enforce_under_limit:
  "(\<And>j. \<not> should_inject c (sizes j)) \<Longrightarrow> fst (enforce c sizes i ij ms) = map snd ms"
proof (induction ms arbitrary: i ij)
  case (Cons x ms)
  obtain m raw where x: "x = (m, raw)" by fastforce
  have "verdict_of c (sizes i) m = Pass" using Cons.prems by (simp add: verdict_of_def)
  then show ?case using Cons.IH [OF Cons.prems, of "Suc i" False] x by (auto split: prod.splits)
qed simp

definition under_limit :: "slow_ctx \<Rightarrow> event \<Rightarrow> bool" where
  "under_limit c ev \<longleftrightarrow> (\<forall>j. \<not> should_inject c (ev_size ev j))"

definition forwarded :: "proxy \<Rightarrow> proxy \<Rightarrow> bytes \<Rightarrow> bool" where
  "forwarded px px' d \<longleftrightarrow> sent (px_server px') @ client_buf px' = sent (px_server px) @ client_buf px @ d"

lemma forwarded_trans: "forwarded px px1 d1 \<Longrightarrow> forwarded px1 px2 d2 \<Longrightarrow> forwarded px px2 (d1 @ d2)"
  unfolding forwarded_def by (metis append.assoc)

lemma slow_step_forwards:
  assumes "slow_step c ev ij px = (Ok x, ij', px')" "under_limit c ev"
  shows "forwarded px px' (input Client [ev])"
proof (cases "ev_read ev")
  case (Inr d)
  show ?thesis
  proof (cases "d = []")
    case True
    then show ?thesis using assms Inr by (auto simp: slow_step_def forwarded_def)
  next
    case False
    then obtain b bs where d: "d = b # bs" by (cases d) auto
    show ?thesis
    proof (cases "ev_side ev")
      case Client
      let ?px = "px\<lparr>client_buf := client_buf px @ d\<rparr>"
      obtain r1 ij1 px1 where l: "slow_client_loop c (ev_size ev) 0 ij ?px = (r1, ij1, px1)" by (metis prod_cases3)
      then have r: "r1 = Inr ()" "px' = px1"
        using assms Inr d Client by (auto simp: slow_step_def split: sum.splits)
      from slow_client_loop_enforces [OF l disjI1 [OF r(1)]] obtain ms fs ns where
        e: "enforce c (ev_size ev) 0 ij ms = (fs, ns, ij1)" "sent (px_server px1) = sent (px_server px) @ concat fs"
          "drain try_read_message_with_raw (client_buf px @ d) = (ms, None, client_buf px1)" using r(1) by auto
      have "fs = map snd ms"
        using enforce_under_limit [of c "ev_size ev" 0 ij ms] assms(2) e(1) by (simp add: under_limit_def)
      then show ?thesis using drain_raw_concat [OF e(3)] e(2) r(2) Client Inr by (simp add: forwarded_def)
    next
      case Server
      let ?px = "px\<lparr>server_buf := server_buf px @ d\<rparr>"
      have "slow_server_loop (ev_flag ev) 0 ?px = (Ok x, px')"
        using assms Inr d Server by (auto simp: slow_step_def split: prod.splits)
      from slow_server_loop_flow [OF this] show ?thesis using Server by (auto simp: forwarded_def)
    qed
  qed
qed (use assms in \<open>simp add: slow_step_def\<close>)

lemma slow_loop_forwards:
  assumes "slow_loop c evs ij px = (r, px', rest)" "\<And>e. r \<noteq> Err e" "list_all (under_limit c) evs"
  shows "\<exists>used. evs = used @ rest \<and> (r = Pending \<longrightarrow> rest = []) \<and> forwarded px px' (input Client used)
    \<and> relayed (limit_notice c) px px' (input Server used)"
  using assms
proof (induction evs arbitrary: ij px)
  case Nil
  then show ?case by (auto simp: forwarded_def relayed_same)
next
  case (Cons ev evs)
  obtain r1 ij1 px1 where st: "slow_step c ev ij px = (r1, ij1, px1)" by (metis prod_cases3)
  then obtain x where x: "r1 = Ok x" using Cons.prems slow_step_result [of c ev ij px] by (cases r1) auto
  note f = slow_step_flow [OF st [unfolded x]]
  have g: "forwarded px px1 (input Client [ev])" using slow_step_forwards [OF st [unfolded x]] Cons.prems(3) by simp
  show ?case
  proof (cases x)
    case (Some y)
    then have "r = Ok y" "px' = px1" "rest = evs" using Cons.prems st x by auto
    then show ?thesis using f g by (intro exI [of _ "[ev]"]) simp
  next
    case None
    then have l: "slow_loop c evs ij1 px1 = (r, px', rest)" using Cons.prems st x by simp
    have "list_all (under_limit c) evs" using Cons.prems(3) by simp
    from Cons.IH [OF l Cons.prems(2) this] obtain used where u: "evs = used @ rest" "r = Pending \<longrightarrow> rest = []"
      "forwarded px1 px' (input Client used)" "relayed (limit_notice c) px1 px' (input Server used)" by blast
    have "forwarded px px' (input Client ([ev] @ used))" "relayed (limit_notice c) px px' (input Server ([ev] @ used))"
      unfolding input_append by (rule forwarded_trans [OF g u(3)], rule relayed_trans [OF f u(4)])
    then show ?thesis using u(1,2) by (intro exI [of _ "[ev] @ used"]) simp
  qed
qed


section \<open>Flows through the whole proxy phase\<close>

text \<open>
  A relation between the proxy's state before and after a run of events, kept by both loops and
  composed along them, holds of the alternation of the loops. \<open>ok\<close> restricts the events considered.
\<close>

locale proxy_flow =
  fixes c :: slow_ctx
    and ok :: "event \<Rightarrow> bool"
    and flows :: "proxy \<Rightarrow> proxy \<Rightarrow> event list \<Rightarrow> bool"
  assumes flows_trans: "flows px px1 u \<Longrightarrow> flows px1 px2 v \<Longrightarrow> flows px px2 (u @ v)"
    and fast_flows: "fast_proxy_loop evs px = (r, px', rest) \<Longrightarrow> (\<And>e. r \<noteq> Err e) \<Longrightarrow> list_all ok evs \<Longrightarrow>
      \<exists>used. evs = used @ rest \<and> (r = Pending \<longrightarrow> rest = []) \<and> flows px px' used"
    and slow_flows: "slow_proxy_loop c evs px = (r, px', rest) \<Longrightarrow> (\<And>e. r \<noteq> Err e) \<Longrightarrow> list_all ok evs \<Longrightarrow>
      \<exists>used. evs = used @ rest \<and> (r = Pending \<longrightarrow> rest = []) \<and> flows px px' used"
begin

lemma phase_flows:
  assumes "proxy_phase c evs px = (r, px')" "\<And>e. r \<noteq> Err e" "list_all ok evs"
  shows "\<exists>used rest. evs = used @ rest \<and> (r = Pending \<longrightarrow> rest = []) \<and> flows px px' used"
  using assms
proof (induction "length evs" arbitrary: evs px rule: less_induct)
  case less
  show ?case
  proof (cases evs px rule: fast_proxy_cases)
    case (left px1 rest)
    then have "r = Ok ()" "px' = px1" using less(2) by (simp_all add: proxy_phase.simps [of c evs px])
    then show ?thesis using fast_flows [OF left] less(4) by auto
  next
    case (pend px1 rest)
    then have "r = Pending" "px' = px1" using less(2) by (simp_all add: proxy_phase.simps [of c evs px])
    then show ?thesis using fast_flows [OF pend] less(4) by auto
  next
    case (panic px1 rest)
    then have "r = Panic" "px' = px1" using less(2) by (simp_all add: proxy_phase.simps [of c evs px])
    then show ?thesis using fast_flows [OF panic] less(4) by auto
  next
    case (err e px1 rest)
    then show ?thesis using less(2,3) by (auto simp: proxy_phase.simps [of c evs px])
  next
    case (slow px1 evs1)
    obtain u1 where u1: "evs = u1 @ evs1" "flows px px1 u1" using fast_flows [OF slow] less(4) by auto
    then have ok1: "list_all ok evs1" using less(4) by simp
    have join: ?thesis if "evs1 = u @ rest" "r = Pending \<longrightarrow> rest = []" "flows px1 px' u" for u rest
      using flows_trans [OF u1(2) that(3)] u1(1) that(1,2) by (intro exI [of _ "u1 @ u"] exI [of _ rest]) simp
    show ?thesis
    proof (cases c evs1 px1 rule: slow_proxy_cases)
      case (left px2 rest)
      then have "r = Ok ()" "px' = px2" using less(2) slow by (simp_all add: proxy_phase.simps [of c evs px])
      then show ?thesis using slow_flows [OF left] join ok1 by auto
    next
      case (pend px2 rest)
      then have "r = Pending" "px' = px2" using less(2) slow by (simp_all add: proxy_phase.simps [of c evs px])
      then show ?thesis using slow_flows [OF pend] join ok1 by auto
    next
      case (err e px2 rest)
      then show ?thesis using less(2,3) slow by (auto simp: proxy_phase.simps [of c evs px])
    next
      case (fast px2 evs2)
      then have ph: "proxy_phase c evs2 px2 = (r, px')" using less(2) slow by (simp add: proxy_phase.simps [of c evs px])
      obtain u2 where u2: "evs1 = u2 @ evs2" "flows px1 px2 u2" using slow_flows [OF fast] ok1 by auto
      have "length evs2 < length evs"
        using fast_loop_consumes [OF slow [unfolded fast_proxy_loop_def], of SwitchToSlow]
          slow_loop_consumes [OF fast [unfolded slow_proxy_loop_def], of SwitchToFast] by simp
      from less(1) [OF this ph less(3)] obtain u3 rest where
        u3: "evs2 = u3 @ rest" "r = Pending \<longrightarrow> rest = []" "flows px2 px' u3" using ok1 u2(1) by auto
      show ?thesis using join [of "u2 @ u3" rest] flows_trans [OF u2(2) u3(3)] u2(1) u3(1,2) by simp
    qed
  qed
qed

end

interpretation server_flow: proxy_flow c "\<lambda>_. True" "\<lambda>px px' u. relayed (limit_notice c) px px' (input Server u)" for c
proof (unfold_locales, goal_cases)
  case (1 px px1 u px2 v)
  then show ?case using relayed_trans by simp
next
  case (2 evs px r px' rest)
  then show ?case using fast_loop_flow [of evs False px r px' rest "limit_notice c"]
    unfolding fast_proxy_loop_def by blast
next
  case (3 evs px r px' rest)
  then show ?case using slow_loop_flow [of c evs False px r px' rest] unfolding slow_proxy_loop_def by blast
qed

interpretation client_flow: proxy_flow c "under_limit c" "\<lambda>px px' u. forwarded px px' (input Client u)" for c
proof (unfold_locales, goal_cases)
  case (1 px px1 u px2 v)
  then show ?case using forwarded_trans by simp
next
  case (2 evs px r px' rest)
  then show ?case using fast_loop_flow [of evs False px r px' rest "[]"]
    unfolding fast_proxy_loop_def forwarded_def by blast
next
  case (3 evs px r px' rest)
  then show ?case using slow_loop_forwards [of c evs False px r px' rest] unfolding slow_proxy_loop_def by blast
qed

text \<open>
  C3. Across any alternation of the fast and the slow loop the client receives exactly the bytes
  the server sent, in order and without loss or duplication, apart from bytes still buffered and
  inserted copies of the over-limit notice, unless a read or write fails. Where in the stream a
  notice lies is not said: after a hand-over in the middle of a server message it is written
  inside that message.
\<close>

theorem server_bytes_reach_client:
  assumes "proxy_phase c evs px = (r, px')" "\<forall>e. r \<noteq> Err e"
  shows "\<exists>used rest. evs = used @ rest \<and> (r = Pending \<longrightarrow> rest = [])
    \<and> relayed (limit_notice c) px px' (input Server used)"
  using server_flow.phase_flows [OF assms(1)] assms(2) by (simp add: list.pred_True)

text \<open>
  C4. As long as the session is not over its limit, the server receives exactly the bytes the
  client sent, in order and without loss, through every switch between the fast and the slow loop,
  apart from bytes still buffered.
\<close>

theorem client_bytes_reach_server:
  assumes "proxy_phase c evs px = (r, px')" "\<forall>e. r \<noteq> Err e" "list_all (under_limit c) evs"
  shows "\<exists>used rest. evs = used @ rest \<and> (r = Pending \<longrightarrow> rest = [])
    \<and> sent (px_server px') @ client_buf px' = sent (px_server px) @ client_buf px @ input Client used"
  using client_flow.phase_flows [OF assms(1) _ assms(3)] assms(2) by (simp add: forwarded_def)

text \<open>
  C15. While no write fails and the known size stays the same, what slow_proxy_loop sends to the
  server and to the client for a stream of client bytes is the enforcement function applied to the
  messages of the whole stream, however the stream was cut into reads.
\<close>

theorem enforcement_ignores_segmentation:
  assumes "list_all (client_read k) evs" "unlimited px" "client_buf px = []"
    and "drain try_read_message_with_raw (input Client evs) = (ms, e, rest)"
    and "enforce c (\<lambda>_. k) 0 False ms = (fs, ns, ij')"
  shows "\<exists>px' left. slow_proxy_loop c evs px = (case e of None \<Rightarrow> Pending | Some e \<Rightarrow> Err e, px', left)
    \<and> sent (px_server px') = sent (px_server px) @ concat fs
    \<and> sent (px_client px') = sent (px_client px) @ concat ns"
proof -
  have "try_read_message_with_raw (client_buf px) = (Inr None, client_buf px)"
    using assms(3) by (simp add: try_read_message_with_raw_def)
  then show ?thesis unfolding slow_proxy_loop_def using assms by (intro slow_loop_client_reads) simp_all
qed

section \<open>Instances\<close>

definition px0 :: proxy where
  "px0 = \<lparr>px_client = \<lparr>sent = [], room = None\<rparr>, px_server = \<lparr>sent = [], room = None\<rparr>,
          client_buf = [], server_buf = [], px_scanner = scanner_new\<rparr>"

definition ctx0 :: slow_ctx where
  "ctx0 = \<lparr>sc_key = \<lparr>pk_host = ''db'', pk_port = 5432, pk_database = ''app'', pk_user = ''alice''\<rparr>,
           sc_cfg = default_config,
           sc_info = \<lparr>si_user = ''alice'', si_database = ''app'', si_password = [], si_max_db_size = Some 10,
                      si_extra_params = []\<rparr>,
           sc_upper = (\<lambda>c. [c])\<rparr>"

definition reads :: "side \<Rightarrow> bytes \<Rightarrow> bool \<Rightarrow> u64 option \<Rightarrow> event" where
  "reads sd d flag sz = \<lparr>ev_side = sd, ev_read = Inr d, ev_flag = (\<lambda>_. flag), ev_size = (\<lambda>_. sz)\<rparr>"

lemma reads_fields [simp]:
  "ev_side (reads sd d f z) = sd" "ev_read (reads sd d f z) = Inr d" "ev_flag (reads sd d f z) = (\<lambda>_. f)"
  "ev_size (reads sd d f z) = (\<lambda>_. z)"
  by (simp_all add: reads_def)

lemma ctx0_inject: "should_inject ctx0 (Some 50)" "\<not> should_inject ctx0 (Some 5)"
  by (simp_all add: should_inject_def session_limit_of_def ctx0_def word_less_nat_alt)

lemma px0_unlimited: "unlimited px0" "unlimited (px0\<lparr>client_buf := b\<rparr>)" "client_buf px0 = []"
    "scanner_wf (px_scanner px0)"
  by (simp_all add: unlimited_def px0_def)

lemma over_limit_queries_are_read_only_witness:
  "\<exists>r ij' px' fs. slow_client_loop ctx0 (\<lambda>_. Some 50) 0 False (px0\<lparr>client_buf := [81, 0, 0, 0, 6, 88, 0]\<rparr>) = (r, ij', px')
    \<and> sent (px_server px') = sent (px_server px0) @ concat fs
    \<and> (\<forall>f\<in>set fs. (\<exists>q. f = wrap_query q) \<or>
        (\<exists>ms e rest m. drain try_read_message_with_raw [81, 0, 0, 0, 6, 88, 0] = (ms, e, rest) \<and> (m, f) \<in> set ms \<and>
           (msg_type m \<noteq> byte_of CHR ''Q'' \<or>
            allow_shrink_operations_when_overlimit (monitor_cfg (sc_cfg ctx0)) \<and>
            (\<exists>q. extract_query_text m = Some q \<and> is_shrink_operation (sc_upper ctx0) q))))"
proof -
  let ?px = "px0\<lparr>client_buf := [81, 0, 0, 0, 6, 88, 0]\<rparr>"
  obtain r ij' px' where l: "slow_client_loop ctx0 (\<lambda>_. Some 50) 0 False ?px = (r, ij', px')" by (metis prod_cases3)
  from over_limit_queries_are_read_only [OF l] show ?thesis using l px0_unlimited ctx0_inject by simp
qed

lemma fast_reads:
  "fast_proxy_loop [reads Client [81, 0] False None] px0 =
     (Pending, px0\<lparr>px_server := \<lparr>sent = [81, 0], room = None\<rparr>\<rparr>, [])"
  "\<exists>sc. fast_proxy_loop [reads Server [75, 0] False None] px0 =
     (Pending, px0\<lparr>px_client := \<lparr>sent = [75, 0], room = None\<rparr>, px_scanner := sc\<rparr>, [])"
  by (simp_all add: fast_proxy_loop_def fast_step_def to_server_def to_client_def write_all_def px0_def Let_def scan_in_range
      split: prod.split)

lemma fast_loop_transparent_witness:
  "\<exists>used. [reads Client [81, 0] False None] = used @ []
    \<and> [81, 0] = sent (px_server px0) @ client_buf px0 @ input Client used"
  using fast_loop_transparent [OF fast_reads(1)] by (simp add: px0_def)

lemma server_bytes_reach_client_witness:
  "\<exists>px'. relayed (limit_notice ctx0) px0 px' (input Server [reads Server [75, 0] False None])"
proof -
  obtain sc where f: "fast_proxy_loop [reads Server [75, 0] False None] px0 =
     (Pending, px0\<lparr>px_client := \<lparr>sent = [75, 0], room = None\<rparr>, px_scanner := sc\<rparr>, [])"
    using fast_reads(2) by blast
  then have "proxy_phase ctx0 [reads Server [75, 0] False None] px0 =
     (Pending, px0\<lparr>px_client := \<lparr>sent = [75, 0], room = None\<rparr>, px_scanner := sc\<rparr>)"
    by (simp add: proxy_phase.simps [of ctx0 "[reads Server [75, 0] False None]" px0])
  from server_bytes_reach_client [OF this] show ?thesis by auto
qed

lemma client_bytes_reach_server_witness:
  "\<exists>px'. proxy_phase ctx0 [reads Client [81, 0] False None] px0 = (Pending, px')
    \<and> sent (px_server px') @ client_buf px' = [81, 0]"
proof -
  have p: "proxy_phase ctx0 [reads Client [81, 0] False None] px0 = (Pending, px0\<lparr>px_server := \<lparr>sent = [81, 0], room = None\<rparr>\<rparr>)"
    using fast_reads(1) by (simp add: proxy_phase.simps [of ctx0 "[reads Client [81, 0] False None]" px0])
  have "list_all (under_limit ctx0) [reads Client [81, 0] False None]"
    by (simp add: under_limit_def should_inject_def split: option.splits)
  from client_bytes_reach_server [OF p _ this] show ?thesis using p by (simp add: px0_def)
qed

lemma enforcement_ignores_segmentation_witness:
  "\<exists>ms e rest fs ns ij' px' left.
     drain try_read_message_with_raw [81, 0, 0, 0, 6, 88, 0] = (ms, e, rest)
     \<and> enforce ctx0 (\<lambda>_. Some 50) 0 False ms = (fs, ns, ij')
     \<and> slow_proxy_loop ctx0 [reads Client [81, 0, 0] True (Some 50), reads Client [0, 6, 88, 0] True (Some 50)] px0
         = (case e of None \<Rightarrow> Pending | Some e \<Rightarrow> Err e, px', left)
     \<and> sent (px_server px') = sent (px_server px0) @ concat fs"
proof -
  let ?evs = "[reads Client [81, 0, 0] True (Some 50), reads Client [0, 6, 88, 0] True (Some 50)]"
  obtain ms e rest where d: "drain try_read_message_with_raw (input Client ?evs) = (ms, e, rest)" by (metis prod_cases3)
  obtain fs ns ij' where f: "enforce ctx0 (\<lambda>_. Some 50) 0 False ms = (fs, ns, ij')" by (metis prod_cases3)
  have "list_all (client_read (Some 50)) ?evs" by (simp add: client_read_def)
  from enforcement_ignores_segmentation [OF this px0_unlimited(1,3) d f] d f show ?thesis by (simp del: drain.simps) blast
qed

lemma wrapped_query_reads_back_witness:
  "\<exists>m. try_read_message (wrap_query ''SELECT 1'' @ []) False = (Inr (Some m), [])
    \<and> extract_query_text m = Some (''SET TRANSACTION READ ONLY; '' @ ''SELECT 1'')"
  by (rule wrapped_query_reads_back) (simp_all add: MAX_MESSAGE_SIZE_def wire_str_def ascii_str_def byte_of_def)

lemma scan_idle_rfq: "\<exists>sc. scan scanner_new [90, 0, 0, 0, 5, 73] = (sc, True)"
proof -
  have "track (Header [], byte_of CHR ''I'', False) [90, 0, 0, 0, 5, 73] = (Header [], 73, True)"
    using track_messages [of "[\<lparr>msg_type = 90, payload = [73]\<rparr>]"]
    by (simp add: MAX_MESSAGE_SIZE_def rfq_statuses_def is_rfq_def byte_of_def encode_def put_i32_def usize_as_i32_def)
  then show ?thesis using scan_refines [of scanner_new "[90, 0, 0, 0, 5, 73]"] by (auto split: prod.splits)
qed

lemma switch_to_slow_only_when_idle_witness:
  "\<exists>px'. fast_proxy_loop [reads Client [81, 0] True None, reads Server [90, 0, 0, 0, 5, 73] True None] px0
      = (Ok SwitchToSlow, px', []) \<and> transaction_status (px_scanner px') = byte_of CHR ''I''"
proof -
  obtain sc where sc: "scan scanner_new [90, 0, 0, 0, 5, 73] = (sc, True)" using scan_idle_rfq by blast
  then obtain px' where f: "fast_proxy_loop [reads Client [81, 0] True None, reads Server [90, 0, 0, 0, 5, 73] True None] px0
      = (Ok SwitchToSlow, px', [])"
    by (simp add: fast_proxy_loop_def fast_step_def to_server_def to_client_def write_all_def px0_def Let_def scan_in_range)
  from switch_to_slow_only_when_idle [OF f px0_unlimited(4)] f show ?thesis by auto
qed

lemma proxy_phase_never_panics_witness:
  "fst (proxy_phase ctx0 [reads Client [81, 0] True None, reads Server [90, 0, 0, 0, 5, 73] True None,
      reads Server [90, 0, 0, 0, 4] True None] px0) \<noteq> Panic"
  using proxy_phase_never_panics [OF px0_unlimited(4)] by blast

lemma rfq_read: "try_read_message_with_raw [90, 0, 0, 0, 5, 73] =
    (Inr (Some (\<lparr>msg_type = 90, payload = [73]\<rparr>, [90, 0, 0, 0, 5, 73])), [])"
  using with_raw_frame [of "[73]" 90 "[]"] by (simp add: MAX_MESSAGE_SIZE_def put_i32_def usize_as_i32_def)

lemma switch_to_fast_only_when_idle_witness:
  "\<exists>px'. slow_proxy_loop ctx0 [reads Server [90, 0, 0, 0, 5, 73] False None] px0 = (Ok SwitchToFast, px', [])
    \<and> (\<exists>before. sent (px_client px') = before @ build_ready_for_query (byte_of CHR ''I''))"
proof -
  obtain px' where f: "slow_proxy_loop ctx0 [reads Server [90, 0, 0, 0, 5, 73] False None] px0 = (Ok SwitchToFast, px', [])"
    by (simp add: slow_proxy_loop_def slow_step_def slow_server_loop.simps px0_def rfq_read slow_server_message_def
        to_client_def write_all_def byte_of_def)
  from switch_to_fast_only_when_idle [OF f] f show ?thesis by auto
qed

end
