(* ===== verification/Enforcement.thy ===== *)
theory Enforcement
  imports Proxy
begin

text \<open>
  How a size limit takes effect in a running session (\<^verbatim>\<open>src/protocol/frontend.rs\<close>). The fast loop looks at the
  over-limit flag when the client sends something and hands over when a later read of the server holds an
  idle ReadyForQuery; from then on, while the flag stays set, the slow loop cuts the client's messages and
  rewrites simple queries. What the client sends up to the hand-over is relayed as it is. The hand-over
  happens after the read, wherever in a message that ends: the slow loop takes the next byte of either
  peer for the start of a message.
\<close>

section \<open>Handing over\<close>

text \<open>
  \<open>hands_over p sc evs\<close>: the fast loop, with \<open>p\<close> set when it already saw the flag, hands over at the last of
  the reads \<open>evs\<close> unless a write fails.
\<close>

fun hands_over :: "bool \<Rightarrow> scanner \<Rightarrow> event list \<Rightarrow> bool" where
  "hands_over p sc [] \<longleftrightarrow> False"
| "hands_over p sc (ev # evs) \<longleftrightarrow>
     (case ev_read ev of
        Inl _ \<Rightarrow> False
      | Inr d \<Rightarrow> d \<noteq> [] \<and>
          (case ev_side ev of
             Client \<Rightarrow> hands_over (p \<or> ev_flag ev 0) sc evs
           | Server \<Rightarrow> (case scan sc d of (sc', saw_idle) \<Rightarrow>
               if p \<and> saw_idle then evs = [] else hands_over p sc' evs)))"

lemma fast_step_client:
  assumes "ev_side ev = Client" "ev_read ev = Inr d" "d \<noteq> []" "fast_step ev p px = (r, p', px')" "\<And>e. r \<noteq> Err e"
  shows "r = Ok None \<and> p' = (p \<or> ev_flag ev 0) \<and> client_buf px' = [] \<and> server_buf px' = server_buf px
    \<and> px_scanner px' = px_scanner px"
  using assms by (cases d) (auto simp: fast_step_def Let_def split: prod.splits sum.splits dest!: to_server_fields)

lemma fast_step_server:
  assumes "ev_side ev = Server" "ev_read ev = Inr d" "d \<noteq> []" "fast_step ev p px = (r, p', px')" "\<And>e. r \<noteq> Err e"
    and "scanner_wf (px_scanner px)" "server_buf px = []" "scan (px_scanner px) d = (sc, saw)"
  shows "r = Ok (if p \<and> saw then Some SwitchToSlow else None) \<and> p' = p \<and> client_buf px' = client_buf px
    \<and> server_buf px' = [] \<and> px_scanner px' = sc"
  using assms
  by (cases d) (auto simp: fast_step_def Let_def scan_in_range split: prod.splits sum.splits if_splits dest!: to_client_fields)

lemma fast_loop_hands_over:
  assumes "hands_over p (px_scanner px) pre" "scanner_wf (px_scanner px)" "client_buf px = []" "server_buf px = []"
    and "fast_loop (pre @ evs) p px = (r, px', rest)" "\<And>e. r \<noteq> Err e"
  shows "r = Ok SwitchToSlow \<and> rest = evs \<and> client_buf px' = [] \<and> server_buf px' = []"
  using assms
proof (induction pre arbitrary: p px)
  case (Cons ev pre)
  obtain d where d: "ev_read ev = Inr d" "d \<noteq> []" using Cons.prems(1) by (auto split: sum.splits)
  obtain r1 p1 px1 where st: "fast_step ev p px = (r1, p1, px1)" by (metis prod_cases3)
  have ne: "r1 \<noteq> Err e" for e using Cons.prems(5) Cons.prems(6) [of e] st by auto
  show ?case
  proof (cases "ev_side ev")
    case Client
    note f = fast_step_client [OF Client d st ne]
    have l: "fast_loop (pre @ evs) p1 px1 = (r, px', rest)" using Cons.prems(5) st f by simp
    show ?thesis using Cons.IH [OF _ _ _ _ l Cons.prems(6)] Cons.prems(1-4) f d Client by simp
  next
    case Server
    obtain sc saw where sc: "scan (px_scanner px) d = (sc, saw)" by fastforce
    note f = fast_step_server [OF Server d st ne Cons.prems(2,4) sc]
    show ?thesis
    proof (cases "p \<and> saw")
      case True
      then show ?thesis using Cons.prems(1,3,5) st f sc d Server by auto
    next
      case False
      have l: "fast_loop (pre @ evs) p1 px1 = (r, px', rest)" using Cons.prems(5) st f False by simp
      have "scanner_wf (px_scanner px1)" using scan_wf [OF Cons.prems(2), of d] sc f by simp
      then show ?thesis using Cons.IH [OF _ _ _ _ l Cons.prems(6)] Cons.prems(1-4) f d Server sc False by auto
    qed
  qed
qed simp

text \<open>The hand-over, with what either peer was sent by then.\<close>

lemma hand_over:
  assumes "hands_over False (px_scanner px) pre" "scanner_wf (px_scanner px)" "client_buf px = []" "server_buf px = []"
    and "proxy_phase c (pre @ evs) px = (r, px')"
  shows "r \<in> range Err \<or> (\<exists>px1. fast_proxy_loop (pre @ evs) px = (Ok SwitchToSlow, px1, evs)
    \<and> client_buf px1 = [] \<and> server_buf px1 = []
    \<and> sent (px_server px1) = sent (px_server px) @ input Client pre \<and> sent (px_client px1) = sent (px_client px) @ input Server pre)"
proof -
  obtain r1 px1 rest where l: "fast_loop (pre @ evs) False px = (r1, px1, rest)" by (metis prod_cases3)
  show ?thesis
  proof (cases "r1 \<in> range Err")
    case True
    then show ?thesis using assms(5) l by (auto simp: proxy_phase.simps [of c "pre @ evs"] fast_proxy_loop_def)
  next
    case False
    then have ne: "r1 \<noteq> Err e" for e by auto
    note h = fast_loop_hands_over [OF assms(1-4) l ne]
    obtain used where "pre @ evs = used @ rest"
      "sent (px_server px1) @ client_buf px1 = sent (px_server px) @ client_buf px @ input Client used"
      "sent (px_client px1) @ server_buf px1 = sent (px_client px) @ server_buf px @ input Server used"
      using fast_loop_flow [OF l ne] by blast
    then show ?thesis using h l assms(3,4) by (simp add: fast_proxy_loop_def)
  qed
qed

section \<open>While the session is over its limit\<close>

definition over_event :: "slow_ctx \<Rightarrow> event \<Rightarrow> bool" where
  "over_event c ev \<longleftrightarrow> (\<forall>j. ev_flag ev j) \<and> (\<forall>j. should_inject c (ev_size ev j))"

text \<open>What becomes of a client message while the session is over its limit.\<close>

definition restricted :: "slow_ctx \<Rightarrow> pg_message \<times> bytes \<Rightarrow> bytes" where
  "restricted c x =
     (case x of (m, raw) \<Rightarrow>
        if msg_type m \<noteq> byte_of CHR ''Q'' then raw
        else case extract_query_text m of
          None \<Rightarrow> []
        | Some q \<Rightarrow>
            if is_shrink_operation (sc_upper c) q \<and> allow_shrink_operations_when_overlimit (monitor_cfg (sc_cfg c)) then raw
            else wrap_query q)"

lemma enforce_restricted:
  assumes "\<forall>j. should_inject c (sizes j)" "enforce c sizes i ij ms = (fs, ns, ij')"
  shows "concat fs = concat (map (restricted c) ms)"
  using assms(2)
proof (induction ms arbitrary: i ij fs ns)
  case (Cons x ms)
  obtain m raw where x: "x = (m, raw)" by fastforce
  have inj: "should_inject c (sizes i)" using assms(1) by blast
  have ex: "msg_type m \<noteq> byte_of CHR ''Q'' \<Longrightarrow> extract_query_text m = None" by (simp add: extract_query_text_def)
  show ?case
    using Cons.prems x inj ex
    by (auto simp: verdict_of_def restricted_def split: if_splits option.splits prod.splits dest!: Cons.IH)
qed simp

lemma slow_step_over:
  assumes "slow_step c ev ij px = (r, ij', px')" "\<And>e. r \<noteq> Err e" "over_event c ev"
    and "try_read_message_with_raw (client_buf px) = (Inr None, client_buf px)"
  shows "(r = Ok None \<or> r = Ok (Some ClientDisconnected))
    \<and> (\<exists>ms. drain try_read_message_with_raw (client_buf px @ input Client [ev]) = (ms, None, client_buf px')
        \<and> sent (px_server px') = sent (px_server px) @ concat (map (restricted c) ms))"
proof (cases "ev_read ev")
  case (Inl e)
  then show ?thesis using assms(1,2) by (auto simp: slow_step_def)
next
  case (Inr d)
  note stop = raw_reader.drain_stop [OF assms(4)]
  show ?thesis
  proof (cases d)
    case Nil
    then show ?thesis using assms(1) Inr stop by (auto simp: slow_step_def)
  next
    case d: (Cons b bs)
    show ?thesis
    proof (cases "ev_side ev")
      case Client
      let ?px = "px\<lparr>client_buf := client_buf px @ d\<rparr>"
      obtain r1 ij1 px1 where l: "slow_client_loop c (ev_size ev) 0 ij ?px = (r1, ij1, px1)" by (metis prod_cases3)
      have r: "r1 = Inr ()" "r = Ok None" "px' = px1" using assms(1,2) l Inr d Client by (auto simp: slow_step_def split: sum.splits)
      from slow_client_loop_enforces [OF l disjI1 [OF r(1)]] obtain ms fs ns where
        "drain try_read_message_with_raw (client_buf px @ d) = (ms, None, client_buf px1)"
        "enforce c (ev_size ev) 0 ij ms = (fs, ns, ij1)" "sent (px_server px1) = sent (px_server px) @ concat fs"
        using r(1) by auto
      then show ?thesis using r Client Inr enforce_restricted [of c "ev_size ev"] assms(3)
        by (auto simp: over_event_def)
    next
      case Server
      let ?px = "px\<lparr>server_buf := server_buf px @ d\<rparr>"
      have l: "slow_server_loop (ev_flag ev) 0 ?px = (r, px')"
        using assms(1) Inr d Server by (auto simp: slow_step_def split: prod.splits)
      then obtain y where y: "r = Ok y" using assms(2) slow_server_loop_result [of "ev_flag ev" 0 ?px] by (cases r) auto
      have "y = None" using slow_server_loop_exit [of "ev_flag ev" 0 ?px] l y assms(3) by (cases y) (auto simp: over_event_def)
      moreover have "px_server px' = px_server px" "client_buf px' = client_buf px"
        using slow_server_loop_flow [OF l [unfolded y]] by auto
      ultimately show ?thesis using y stop Server Inr by simp
    qed
  qed
qed

lemma slow_loop_over:
  assumes "slow_loop c evs ij px = (r, px', rest)" "\<And>e. r \<noteq> Err e" "list_all (over_event c) evs"
    and "try_read_message_with_raw (client_buf px) = (Inr None, client_buf px)"
  shows "(r = Pending \<or> r = Ok ClientDisconnected)
    \<and> (\<exists>used ms. evs = used @ rest \<and> (r = Pending \<longrightarrow> rest = [])
        \<and> drain try_read_message_with_raw (client_buf px @ input Client used) = (ms, None, client_buf px')
        \<and> sent (px_server px') = sent (px_server px) @ concat (map (restricted c) ms))"
  using assms
proof (induction evs arbitrary: ij px)
  case Nil
  then show ?case using raw_reader.drain_stop [OF Nil(4)] by simp
next
  case (Cons ev evs)
  obtain r1 ij1 px1 where st: "slow_step c ev ij px = (r1, ij1, px1)" by (metis prod_cases3)
  have ne: "r1 \<noteq> Err e" for e using Cons.prems(1) Cons.prems(2) [of e] st by auto
  from slow_step_over [OF st ne _ Cons.prems(4)] Cons.prems(3) obtain ms where
    s: "r1 = Ok None \<or> r1 = Ok (Some ClientDisconnected)"
      "drain try_read_message_with_raw (client_buf px @ input Client [ev]) = (ms, None, client_buf px1)"
      "sent (px_server px1) = sent (px_server px) @ concat (map (restricted c) ms)" by auto
  show ?case
  proof (cases "r1 = Ok None")
    case True
    then have "slow_loop c evs ij1 px1 = (r, px', rest)" using Cons.prems(1) st by simp
    from Cons.IH [OF this Cons.prems(2) _ raw_reader.drain_rest_incomplete [OF s(2)]] Cons.prems(3) obtain used ms' where
      u: "r = Pending \<or> r = Ok ClientDisconnected" "evs = used @ rest" "r = Pending \<longrightarrow> rest = []"
        "drain try_read_message_with_raw (client_buf px1 @ input Client used) = (ms', None, client_buf px')"
        "sent (px_server px') = sent (px_server px1) @ concat (map (restricted c) ms')" by auto
    have "drain try_read_message_with_raw (client_buf px @ input Client (ev # used)) = (ms @ ms', None, client_buf px')"
      using raw_reader.drain_append [OF s(2) u(4)] by simp
    moreover have "sent (px_server px') = sent (px_server px) @ concat (map (restricted c) (ms @ ms'))" using u(5) s(3) by simp
    moreover have "ev # evs = (ev # used) @ rest" using u(2) by simp
    ultimately show ?thesis using u(1,3) by blast
  next
    case False
    then have "r = Ok ClientDisconnected" "px' = px1" "rest = evs" using Cons.prems(1) st s(1) by auto
    then show ?thesis using s(2,3) by (intro conjI exI [of _ "[ev]"] exI [of _ ms]) simp_all
  qed
qed

text \<open>
  C2. How a limit takes effect in a running session. Take any reads of both peers up to the point
  where the fast loop hands over (a client read saw the over-limit flag set, and a later server
  read held an idle ReadyForQuery), then any mix of client and server reads during which the flag
  stays set and the known size exceeds the limit, and no failing read, write or malformed length.
  The server is sent exactly the client's bytes up to the hand-over as they are, then for each
  message of what the client sends afterwards, however it is cut into reads and whatever the
  server answers: a simple query made read-only, nothing for a query without readable text, and
  the unchanged frame of any other message or allowed shrink operation. The session never goes
  back to relaying queries raw.
\<close>

theorem over_limit_session_restricted:
  assumes "client_buf px = []" "server_buf px = []" "scanner_wf (px_scanner px)"
    and "hands_over False (px_scanner px) pre" "list_all (over_event c) evs"
    and "proxy_phase c (pre @ evs) px = (r, px')" "\<forall>e. r \<noteq> Err e"
  shows "(r = Ok () \<or> r = Pending)
    \<and> (\<exists>used rest ms. evs = used @ rest \<and> (r = Pending \<longrightarrow> rest = [])
        \<and> drain try_read_message_with_raw (input Client used) = (ms, None, client_buf px')
        \<and> sent (px_server px') = sent (px_server px) @ input Client pre @ concat (map (restricted c) ms))"
proof -
  obtain px1 where px1: "fast_proxy_loop (pre @ evs) px = (Ok SwitchToSlow, px1, evs)" "client_buf px1 = []"
    "sent (px_server px1) = sent (px_server px) @ input Client pre"
    using hand_over [OF assms(4,3,1,2,6)] assms(7) by auto
  obtain r2 px2 rest where l: "slow_loop c evs False px1 = (r2, px2, rest)" by (metis prod_cases3)
  have p: "proxy_phase c (pre @ evs) px = (case (r2, px2, rest) of (Ok ClientDisconnected, px, _) \<Rightarrow> (Ok (), px)
      | (Ok SwitchToSlow, px, _) \<Rightarrow> (Panic, px) | (Ok SwitchToFast, px, evs'') \<Rightarrow> proxy_phase c evs'' px
      | (Err e, px, _) \<Rightarrow> (Err e, px) | (Panic, px, _) \<Rightarrow> (Panic, px) | (Pending, px, _) \<Rightarrow> (Pending, px))"
    using px1(1) l by (simp add: proxy_phase.simps [of c "pre @ evs"] slow_proxy_loop_def)
  have ne: "r2 \<noteq> Err e" for e using p assms(6,7) by auto
  have "try_read_message_with_raw (client_buf px1) = (Inr None, client_buf px1)"
    using px1(2) by (simp add: try_read_message_with_raw_def)
  from slow_loop_over [OF l ne assms(5) this] obtain used ms where
    s: "r2 = Pending \<or> r2 = Ok ClientDisconnected" "evs = used @ rest" "r2 = Pending \<longrightarrow> rest = []"
      "drain try_read_message_with_raw (input Client used) = (ms, None, client_buf px2)"
      "sent (px_server px2) = sent (px_server px1) @ concat (map (restricted c) ms)" using px1(2) by auto
  have "px' = px2" "(r2 = Pending \<and> r = Pending) \<or> (r2 = Ok ClientDisconnected \<and> r = Ok ())" using s(1) p assms(6) by auto
  then show ?thesis using s(2-5) px1(3) by auto
qed

section \<open>A message that straddles the hand-over\<close>

lemma fast_step_unlimited:
  assumes "fast_step ev p px = (r, p', px')" "unlimited px" "ev_read ev = Inr d"
  shows "(\<forall>e. r \<noteq> Err e) \<and> unlimited px'"
  using assms
  by (cases d; cases "ev_side ev")
    (auto simp: fast_step_def unlimited_def to_server_def to_client_def write_all_def Let_def
      split: option.splits prod.splits if_splits)

lemma hands_over_unlimited:
  assumes "hands_over p (px_scanner px) pre" "scanner_wf (px_scanner px)" "client_buf px = []" "server_buf px = []" "unlimited px"
  shows "\<exists>px'. fast_loop (pre @ evs) p px = (Ok SwitchToSlow, px', evs) \<and> unlimited px'"
  using assms
proof (induction pre arbitrary: p px)
  case (Cons ev pre)
  obtain d where d: "ev_read ev = Inr d" "d \<noteq> []" using Cons.prems(1) by (auto split: sum.splits)
  obtain r1 p1 px1 where st: "fast_step ev p px = (r1, p1, px1)" by (metis prod_cases3)
  note u = fast_step_unlimited [OF st Cons.prems(5) d(1)]
  have ne: "r1 \<noteq> Err e" for e using u by blast
  show ?case
  proof (cases "ev_side ev")
    case Client
    note f = fast_step_client [OF Client d st ne]
    show ?thesis using Cons.IH [of p1 px1] Cons.prems(1-4) f d Client st u by simp
  next
    case Server
    obtain sc saw where sc: "scan (px_scanner px) d = (sc, saw)" by fastforce
    note f = fast_step_server [OF Server d st ne Cons.prems(2,4) sc]
    have "scanner_wf (px_scanner px1)" using scan_wf [OF Cons.prems(2), of d] sc f by simp
    then show ?thesis using Cons.IH [of p1 px1] Cons.prems(1-4) f d Server sc st u by (cases "p \<and> saw") auto
  qed
qed simp

lemma hand_over_unlimited:
  assumes "client_buf px = []" "server_buf px = []" "scanner_wf (px_scanner px)" "unlimited px" "hands_over False (px_scanner px) pre"
  obtains px1 where "fast_proxy_loop (pre @ evs) px = (Ok SwitchToSlow, px1, evs)" "unlimited px1" "client_buf px1 = []"
    "server_buf px1 = []" "sent (px_client px1) = sent (px_client px) @ input Server pre"
proof -
  obtain px1 where l: "fast_loop (pre @ evs) False px = (Ok SwitchToSlow, px1, evs)" "unlimited px1"
    using hands_over_unlimited [OF assms(5,3,1,2,4)] by blast
  have "client_buf px1 = []" "server_buf px1 = []" using fast_loop_hands_over [OF assms(5,3,1,2) l(1)] by simp_all
  moreover obtain used where "pre @ evs = used @ evs"
    "sent (px_client px1) @ server_buf px1 = sent (px_client px) @ server_buf px @ input Server used"
    using fast_loop_flow [OF l(1)] by blast
  ultimately show thesis using that l assms(2) by (simp add: fast_proxy_loop_def)
qed

text \<open>The next read of the server is cut from its first byte, also when the last one ended inside a message.\<close>

lemma hand_over_restarts_framing:
  assumes "client_buf px = []" "server_buf px = []" "scanner_wf (px_scanner px)" "unlimited px"
    and "hands_over False (px_scanner px) pre"
    and "ev_side ev = Server" "ev_read ev = Inr d" "try_read_message_with_raw d = (Inl e, d)"
  shows "\<exists>px'. proxy_phase c (pre @ ev # evs) px = (Err e, px') \<and> sent (px_client px') = sent (px_client px) @ input Server pre"
proof -
  obtain px1 where px1: "fast_proxy_loop (pre @ ev # evs) px = (Ok SwitchToSlow, px1, ev # evs)" "server_buf px1 = []"
    "sent (px_client px1) = sent (px_client px) @ input Server pre"
    using hand_over_unlimited [OF assms(1-5), of "ev # evs"] by blast
  have "d \<noteq> []" using assms(8) by (auto simp: try_read_message_with_raw_def)
  then have "slow_proxy_loop c (ev # evs) px1 = (Err e, px1\<lparr>server_buf := d\<rparr>, evs)"
    using assms(6-8) px1(2) by (cases d) (simp_all add: slow_proxy_loop_def slow_step_def slow_server_loop.simps)
  then show ?thesis using px1(1,3) by (simp add: proxy_phase.simps [of c "pre @ ev # evs"])
qed

text \<open>
  C34. The hand-over to the slow loop happens wherever the read with the idle ReadyForQuery ends,
  also inside a later message of the server: when the rest of that message arrives, the slow loop
  takes its first bytes for a message header; if they are not a valid one, the session ends in
  that error, although the server stream is well formed, and the client has been sent only the
  first part of the message.
\<close>

theorem hand_over_misreads_split_message:
  assumes "client_buf px = []" "server_buf px = []" "scanner_wf (px_scanner px)" "unlimited px"
    and "hands_over False (px_scanner px) pre" "input Server pre = w @ h" "h @ d = encode m []"
    and "ev_side ev = Server" "ev_read ev = Inr d" "try_read_message_with_raw d = (Inl e, d)"
  shows "\<exists>px'. proxy_phase c (pre @ ev # evs) px = (Err e, px')
    \<and> input Server (pre @ [ev]) = w @ encode m [] \<and> sent (px_client px') = sent (px_client px) @ w @ h"
proof -
  have "input Server (pre @ [ev]) = w @ encode m []" using assms(6-9) by simp
  then show ?thesis using hand_over_restarts_framing [OF assms(1-5,8-10), of c evs] assms(6) by simp
qed

text \<open>The notice for the first rewritten query follows the last byte relayed from the server.\<close>

theorem notice_follows_hand_over:
  assumes "client_buf px = []" "server_buf px = []" "scanner_wf (px_scanner px)" "unlimited px"
    and "hands_over False (px_scanner px) pre"
    and "ev_side ev = Client" "ev_read ev = Inr d" "over_event c ev"
    and "try_read_message_with_raw d = (Inr (Some (m, d)), [])" "msg_type m = byte_of CHR ''Q''"
    and "extract_query_text m = Some q" "\<not> is_shrink_operation (sc_upper c) q"
  shows "\<exists>px'. proxy_phase c (pre @ [ev]) px = (Pending, px')
    \<and> sent (px_client px') = sent (px_client px) @ input Server pre @ limit_notice c"
proof -
  obtain px1 where px1: "fast_proxy_loop (pre @ [ev]) px = (Ok SwitchToSlow, px1, [ev])" "unlimited px1" "client_buf px1 = []"
    "sent (px_client px1) = sent (px_client px) @ input Server pre"
    using hand_over_unlimited [OF assms(1-5), of "[ev]"] by blast
  have d: "d \<noteq> []" using assms(9) by (auto simp: try_read_message_with_raw_def)
  let ?px = "px1\<lparr>client_buf := d\<rparr>"
  obtain r1 ij1 px2 where l: "slow_client_loop c (ev_size ev) 0 False ?px = (r1, ij1, px2)" by (metis prod_cases3)
  have u: "unlimited ?px" using px1(2) by (simp add: unlimited_def)
  have dr: "drain try_read_message_with_raw d = ([(m, d)], None, [])"
    using raw_reader.drain_step [OF assms(9)] raw_reader.drain_stop [of "[]"] by (simp add: try_read_message_with_raw_def)
  from slow_client_loop_enforces [OF l disjI2 [OF u]] dr obtain fs ns where
    e: "r1 = Inr ()" "enforce c (ev_size ev) 0 False [(m, d)] = (fs, ns, ij1)"
      "sent (px_client px2) = sent (px_client px1) @ concat ns" by (cases r1) auto
  have "ns = [limit_notice c]"
    using e(2) assms(8,10-12) by (auto simp: verdict_of_def over_event_def)
  moreover have "slow_proxy_loop c [ev] px1 = (Pending, px2, [])"
    using l e(1) assms(6,7) px1(3) d by (cases d) (simp_all add: slow_proxy_loop_def slow_step_def)
  ultimately show ?thesis using px1(1,4) e(3) by (simp add: proxy_phase.simps [of c "pre @ [ev]"])
qed

section \<open>Instances\<close>

definition query0 :: bytes where
  "query0 = encode (new_message (byte_of CHR ''Q'') (as_bytes ''INSERT'' @ [0])) []"

definition rfq0 :: bytes where
  "rfq0 = [90, 0, 0, 0, 5, 73]"

lemma query0_read:
  "try_read_message_with_raw query0 = (Inr (Some (new_message (byte_of CHR ''Q'') (as_bytes ''INSERT'' @ [0]), query0)), [])"
  using with_raw_frame [of "as_bytes ''INSERT'' @ [0]" "byte_of CHR ''Q''" "[]"]
  by (simp add: query0_def encode_def new_message_def MAX_MESSAGE_SIZE_def byte_of_def)

lemma query0_text:
  "extract_query_text (new_message (byte_of CHR ''Q'') (as_bytes ''INSERT'' @ [0])) = Some ''INSERT''"
  "\<not> is_shrink_operation (sc_upper ctx0) ''INSERT''"
  by (rule extract_wire_query)
    (simp_all add: wire_str_def is_shrink_operation_def ctx0_def Let_def trim_ascii_str to_uppercase_ascii starts_with_def
      up_c_def ascii_up_def ascii_str_def white_space_def char_of_eq_iff byte_of_def)

lemma query0_nonempty: "query0 \<noteq> []"
  by (simp add: query0_def encode_def new_message_def)

lemma px0_start: "client_buf px0 = []" "server_buf px0 = []" "scanner_wf (px_scanner px0)" "unlimited px0"
  using px0_unlimited by (simp_all add: px0_def)

lemma hands_over0:
  assumes "snd (scan scanner_new d)" "d \<noteq> []"
  shows "hands_over False (px_scanner px0) [reads Client query0 True None, reads Server d True None]"
  using query0_nonempty assms by (auto simp: px0_def split: prod.split)

lemma rfq0_scans: "snd (scan scanner_new rfq0)" "snd (scan scanner_new (rfq0 @ [68, 0, 0, 0, 9]))"
  by (simp_all add: rfq0_def scan_def scan_loop.simps take_header_def open_message_def copy_at_def header_payload_len_def
      scanner_new_def from_be_bytes_def i32_as_usize_def byte_of_def Let_def)

lemma over_reads: "over_event ctx0 (reads sd d True (Some 50))"
  by (simp add: over_event_def should_inject_def session_limit_of_def ctx0_def)

lemma rfq0_read_over:
  assumes "unlimited px" "server_buf px = []"
  obtains px' where "slow_step c (reads Server rfq0 True z) ij px = (Ok None, ij, px')" "unlimited px'" "client_buf px' = client_buf px"
proof -
  have "try_read_message_with_raw [] = (Inr None, [])" by (simp add: try_read_message_with_raw_def)
  then show thesis using assms that
    by (simp add: slow_step_def slow_server_loop.simps rfq0_def rfq_read slow_server_message_def byte_at_def byte_of_def
        unlimited_def to_client_def write_all_def)
qed

lemma query0_drained:
  "drain try_read_message_with_raw query0 = ([(new_message (byte_of CHR ''Q'') (as_bytes ''INSERT'' @ [0]), query0)], None, [])"
  using raw_reader.drain_step [OF query0_read] raw_reader.drain_stop [of "[]"] by (simp add: try_read_message_with_raw_def)

lemma query0_read_over:
  assumes "unlimited px" "client_buf px = []"
  obtains ij' px' where "slow_step c (reads Client query0 True z) ij px = (Ok None, ij', px')"
proof -
  let ?px = "px\<lparr>client_buf := query0\<rparr>"
  obtain r1 ij1 px1 where l: "slow_client_loop c (\<lambda>_. z) 0 ij ?px = (r1, ij1, px1)" by (metis prod_cases3)
  have "unlimited ?px" using assms(1) by (simp add: unlimited_def)
  from slow_client_loop_enforces [OF l disjI2 [OF this]] query0_drained have "r1 = Inr ()" by (cases r1) auto
  then have "slow_step c (reads Client query0 True z) ij px = (Ok None, ij1, px1)"
    using l assms(2) query0_nonempty by (auto simp: slow_step_def split: list.split)
  then show thesis by (rule that)
qed

lemma over_limit_session_restricted_witness:
  "\<exists>px' rest ms. proxy_phase ctx0 ([reads Client query0 True None, reads Server rfq0 True None]
        @ [reads Server rfq0 True (Some 50), reads Client query0 True (Some 50)]) px0 = (Pending, px')
    \<and> drain try_read_message_with_raw query0 = (ms, None, rest)
    \<and> sent (px_server px') = query0 @ concat (map (restricted ctx0) ms) \<and> restricted ctx0 (hd ms) = wrap_query ''INSERT''"
proof -
  let ?pre = "[reads Client query0 True None, reads Server rfq0 True None]"
  let ?evs = "[reads Server rfq0 True (Some 50), reads Client query0 True (Some 50)]"
  have h: "hands_over False (px_scanner px0) ?pre" by (rule hands_over0 [OF rfq0_scans(1)]) (simp add: rfq0_def)
  have o: "list_all (over_event ctx0) ?evs" by (simp add: over_reads)
  obtain px1 where 1: "fast_proxy_loop (?pre @ ?evs) px0 = (Ok SwitchToSlow, px1, ?evs)" "unlimited px1" "client_buf px1 = []" "server_buf px1 = []"
    using hand_over_unlimited [OF px0_start h, of ?evs] by blast
  obtain px2 where 2: "slow_step ctx0 (hd ?evs) False px1 = (Ok None, False, px2)" "unlimited px2" "client_buf px2 = []"
    using rfq0_read_over [OF 1(2,4), of ctx0 "Some 50" False] 1(3) by auto
  obtain ij px' where 3: "slow_step ctx0 (last ?evs) False px2 = (Ok None, ij, px')"
    using query0_read_over [OF 2(2,3), of ctx0 "Some 50" False] by auto
  have p: "proxy_phase ctx0 (?pre @ ?evs) px0 = (Pending, px')"
    using 1(1) 2(1) 3 by (subst proxy_phase.simps) (simp add: slow_proxy_loop_def)
  have q: "restricted ctx0 (new_message (byte_of CHR ''Q'') (as_bytes ''INSERT'' @ [0]), query0) = wrap_query ''INSERT''"
    using query0_text by (simp add: restricted_def new_message_def)
  from over_limit_session_restricted [OF px0_start(1-3) h o p] obtain used rest ms where
    "?evs = used" "drain try_read_message_with_raw (input Client used) = (ms, None, client_buf px')"
    "sent (px_server px') = sent (px_server px0) @ input Client ?pre @ concat (map (restricted ctx0) ms)" by auto
  then show ?thesis using p query0_drained q by (auto simp: px0_def)
qed

text \<open>A DataRow whose payload starts with 255 is cut after its header: the server's bytes are well formed.\<close>

definition rest0 :: bytes where
  "rest0 = [255, 255, 255, 255, 255]"

lemma rest0_read: "\<exists>e. try_read_message_with_raw rest0 = (Inl e, rest0)"
  by (simp add: rest0_def try_read_message_with_raw_def from_be_bytes_def i32_as_usize_def valid_len_def
      MAX_MESSAGE_SIZE_def Let_def)

lemma hand_over_misreads_split_message_witness:
  "\<exists>px' e. proxy_phase ctx0 ([reads Client query0 True None, reads Server (rfq0 @ [68, 0, 0, 0, 9]) True None]
        @ [reads Server rest0 True None]) px0 = (Err e, px')
    \<and> sent (px_client px') = rfq0 @ [68, 0, 0, 0, 9] \<and> [68, 0, 0, 0, 9] @ rest0 = encode (new_message (byte_of CHR ''D'') rest0) []"
proof -
  let ?pre = "[reads Client query0 True None, reads Server (rfq0 @ [68, 0, 0, 0, 9]) True None]"
  have h: "hands_over False (px_scanner px0) ?pre" by (rule hands_over0 [OF rfq0_scans(2)]) simp
  obtain e where e: "try_read_message_with_raw rest0 = (Inl e, rest0)" using rest0_read by blast
  have m: "[68, 0, 0, 0, 9] @ rest0 = encode (new_message (byte_of CHR ''D'') rest0) []"
    by (simp add: rest0_def encode_def new_message_def put_i32_def usize_as_i32_def byte_of_def)
  have i: "input Server ?pre = rfq0 @ [68, 0, 0, 0, 9]" by simp
  from hand_over_misreads_split_message [OF px0_start h i m, of "reads Server rest0 True None" e ctx0 "[]"] e m
  show ?thesis by (auto simp: px0_def)
qed

lemma notice_follows_hand_over_witness:
  "\<exists>px'. proxy_phase ctx0 ([reads Client query0 True None, reads Server (rfq0 @ [68, 0, 0, 0, 9]) True None]
        @ [reads Client query0 True (Some 50)]) px0 = (Pending, px')
    \<and> sent (px_client px') = rfq0 @ [68, 0, 0, 0, 9] @ limit_notice ctx0"
proof -
  have h: "hands_over False (px_scanner px0) [reads Client query0 True None, reads Server (rfq0 @ [68, 0, 0, 0, 9]) True None]"
    by (rule hands_over0 [OF rfq0_scans(2)]) simp
  have m: "msg_type (new_message (byte_of CHR ''Q'') (as_bytes ''INSERT'' @ [0])) = byte_of CHR ''Q''" by (simp add: new_message_def)
  from notice_follows_hand_over [OF px0_start h _ _ over_reads query0_read m query0_text, of Client query0]
  show ?thesis by (simp add: px0_def)
qed

end
