(* ===== verification/Backend.thy ===== *)
theory Backend
  imports Net Wire Metrics
begin

text \<open>
  \<^verbatim>\<open>src/protocol/backend.rs\<close>: \<^verbatim>\<open>connect_backend\<close>, \<^verbatim>\<open>parse_error_fields\<close> and \<^verbatim>\<open>reset_connection\<close>.
  The TCP connection is a parameter (the error of the connect, or the new connection); the
  authentication functions of the \<^verbatim>\<open>postgres_protocol\<close> library are the fields of \<open>auth_lib\<close>, whose type
  parameter is the library's SCRAM state.
\<close>

section \<open>Error fields\<close>

function error_fields :: "bytes \<Rightarrow> string \<Rightarrow> string" where
  "error_fields bs msg =
     (case bs of
        [] \<Rightarrow> msg
      | f # rest \<Rightarrow>
          if f = 0 then msg
          else
            let val = takeWhile (\<lambda>b. b \<noteq> 0) rest;
                msg = (if f = byte_of CHR ''M'' then (case from_utf8 val of Some s \<Rightarrow> s | None \<Rightarrow> msg) else msg)
            in error_fields (tl (dropWhile (\<lambda>b. b \<noteq> 0) rest)) msg)"
  by pat_completeness auto
termination
proof (relation "measure (\<lambda>(bs, _). length bs)", goal_cases)
  case (2 bs msg f rest val m)
  have "length (tl (dropWhile (\<lambda>b. b \<noteq> 0) rest)) \<le> length rest"
    using length_dropWhile_le [of "\<lambda>b. b \<noteq> 0" rest] by simp
  then show ?case using 2 by simp
qed simp

declare error_fields.simps [simp del]

definition parse_error_fields :: "bytes \<Rightarrow> string" where
  "parse_error_fields bs =
     (let msg = error_fields bs [] in if msg = [] then ''unknown error'' else msg)"

section \<open>The authentication library\<close>

record 'sc auth_lib =
  al_password_message :: "bytes \<Rightarrow> pg_error + bytes"
  al_md5_hash :: "bytes \<Rightarrow> bytes \<Rightarrow> bytes \<Rightarrow> string"
  al_scram_new :: "bytes \<Rightarrow> 'sc"
  al_scram_message :: "'sc \<Rightarrow> bytes"
  al_scram_update :: "'sc \<Rightarrow> bytes \<Rightarrow> pg_error + 'sc"
  al_scram_finish :: "'sc \<Rightarrow> bytes \<Rightarrow> pg_error + unit"
  al_sasl_initial_response :: "string \<Rightarrow> bytes \<Rightarrow> pg_error + bytes"
  al_sasl_response :: "bytes \<Rightarrow> pg_error + bytes"

text \<open>\<^verbatim>\<open>lib(.., &mut buf)?; stream.write_all(&buf).await?; stream.flush().await?\<close>.\<close>

definition send_built :: "pg_error + bytes \<Rightarrow> conn \<Rightarrow> unit outcome \<times> conn" where
  "send_built built c =
     (case built of
        Inl e \<Rightarrow> (Err e, c)
      | Inr bs \<Rightarrow> (case send bs c of (Inl e, c) \<Rightarrow> (Err e, c) | (Inr _, c) \<Rightarrow> (Ok (), c)))"

section \<open>The SCRAM exchange\<close>

text \<open>
  The two inner read loops: one message at most is taken out of the buffer per read. \<open>accept\<close> says
  what an authentication message does: \<open>Inr v\<close> leaves the loop.
\<close>

function scram_wait :: "pg_error \<Rightarrow> (i32 \<Rightarrow> bytes \<Rightarrow> pg_error + 'v) \<Rightarrow> conn \<Rightarrow> 'v outcome \<times> conn" where
  "scram_wait eof accept c =
     (case read_more eof c of
        (Ok _, c1) \<Rightarrow>
          (case try_read_message (c_buf c1) False of
             (Inl e, rest) \<Rightarrow> (Err e, c1\<lparr>c_buf := rest\<rparr>)
           | (Inr None, rest) \<Rightarrow> scram_wait eof accept (c1\<lparr>c_buf := rest\<rparr>)
           | (Inr (Some m), rest) \<Rightarrow>
               if msg_type m = byte_of CHR ''R'' then
                 (case get_i32 (payload m) of
                    None \<Rightarrow> (Panic, c1\<lparr>c_buf := rest\<rparr>)
                  | Some ty \<Rightarrow>
                      (case accept ty (drop 4 (payload m)) of
                         Inr v \<Rightarrow> (Ok v, c1\<lparr>c_buf := rest\<rparr>)
                       | Inl e \<Rightarrow> (Err e, c1\<lparr>c_buf := rest\<rparr>)))
               else if msg_type m = byte_of CHR ''E'' then
                 (Err (BackendErrorDuringScram (parse_error_fields (payload m))), c1\<lparr>c_buf := rest\<rparr>)
               else scram_wait eof accept (c1\<lparr>c_buf := rest\<rparr>))
      | (Err e, c1) \<Rightarrow> (Err e, c1)
      | (Panic, c1) \<Rightarrow> (Panic, c1)
      | (Pending, c1) \<Rightarrow> (Pending, c1))"
  by pat_completeness auto
termination
  by (relation "measure (\<lambda>(_, _, c). length (c_reads c))") (auto dest!: read_more_Ok [OF sym])

declare scram_wait.simps [simp del]

definition accept_first :: "i32 \<Rightarrow> bytes \<Rightarrow> pg_error + bytes" where
  "accept_first ty body = (if ty = 11 then Inr body else Inl (UnexpectedAuthTypeDuringScram ty))"

definition accept_final :: "'sc auth_lib \<Rightarrow> 'sc \<Rightarrow> i32 \<Rightarrow> bytes \<Rightarrow> pg_error + unit" where
  "accept_final lib sc ty body =
     (if ty = 12 then al_scram_finish lib sc body
      else if ty = 0 then Inr ()
      else Inl (UnexpectedAuthTypeInScramFinal ty))"

fun split_nul :: "bytes \<Rightarrow> bytes \<Rightarrow> bytes list" where
  "split_nul acc [] = [acc]"
| "split_nul acc (b # bs) = (if b = 0 then acc # split_nul [] bs else split_nul (acc @ [b]) bs)"

definition mechanisms :: "bytes \<Rightarrow> string list" where
  "mechanisms body = List.map_filter (\<lambda>s. if s = [] then None else from_utf8 s) (split_nul [] body)"

definition scram_exchange :: "'sc auth_lib \<Rightarrow> string \<Rightarrow> bytes \<Rightarrow> conn \<Rightarrow> unit outcome \<times> conn" where
  "scram_exchange lib password body c =
     (if ''SCRAM-SHA-256'' \<notin> set (mechanisms body) then (Err NoScramSha256, c)
      else
        let scram = al_scram_new lib (as_bytes password)
        in case send_built (al_sasl_initial_response lib ''SCRAM-SHA-256'' (al_scram_message lib scram)) c of
             (Ok _, c) \<Rightarrow>
               (case scram_wait BackendDisconnectedDuringScram accept_first c of
                  (Ok server_first, c) \<Rightarrow>
                    (case al_scram_update lib scram server_first of
                       Inl e \<Rightarrow> (Err e, c)
                     | Inr scram \<Rightarrow>
                         (case send_built (al_sasl_response lib (al_scram_message lib scram)) c of
                            (Ok _, c) \<Rightarrow> scram_wait BackendDisconnectedDuringScramFinal (accept_final lib scram) c
                          | (r, c) \<Rightarrow> (r, c)))
                | (Err e, c) \<Rightarrow> (Err e, c)
                | (Panic, c) \<Rightarrow> (Panic, c)
                | (Pending, c) \<Rightarrow> (Pending, c))
           | (r, c) \<Rightarrow> (r, c))"

section \<open>Connecting\<close>

text \<open>
  One message of the authentication phase. \<open>Ok True\<close>: the connection is ready (\<^verbatim>\<open>return Ok(stream)\<close>);
  \<open>Ok False\<close>: go on; the second component is the variable \<^verbatim>\<open>authenticated\<close>.
\<close>

definition auth_message :: "'sc auth_lib \<Rightarrow> pool_key \<Rightarrow> string \<Rightarrow> pg_message \<Rightarrow> bool \<Rightarrow> conn
    \<Rightarrow> bool outcome \<times> bool \<times> conn" where
  "auth_message lib key password m authenticated c =
     (let go = (\<lambda>(r, c). (case r of Ok _ \<Rightarrow> Ok False | Err e \<Rightarrow> Err e | Panic \<Rightarrow> Panic | Pending \<Rightarrow> Pending, authenticated, c))
      in if msg_type m = byte_of CHR ''R'' then
           (if length (payload m) < 4 then (Err InvalidAuthMessage, authenticated, c)
            else case get_i32 (payload m) of
              None \<Rightarrow> (Err InvalidAuthMessage, authenticated, c)
            | Some auth_type \<Rightarrow>
                if auth_type = 0 then (Ok False, True, c)
                else if auth_type = 3 then go (send_built (al_password_message lib (as_bytes password)) c)
                else if auth_type = 5 then
                  (if length (payload m) < 8 then (Err InvalidMd5AuthMessage, authenticated, c)
                   else go (send_built (al_password_message lib (as_bytes
                          (al_md5_hash lib (as_bytes (pk_user key)) (as_bytes password) (take 4 (drop 4 (payload m)))))) c))
                else if auth_type = 10 then go (scram_exchange lib password (drop 4 (payload m)) c)
                else (Err (UnsupportedAuthType auth_type), authenticated, c))
         else if msg_type m = byte_of CHR ''E'' then
           (Err (BackendError (parse_error_fields (payload m))), authenticated, c)
         else if msg_type m = byte_of CHR ''Z'' then (Ok True, authenticated, c)
         else (Ok False, authenticated, c))"

lemma scram_wait_reads:
  "scram_wait eof accept c = (r, c') \<Longrightarrow> length (c_reads c') \<le> length (c_reads c) \<and> (r = Ok v \<longrightarrow> length (c_reads c') < length (c_reads c))"
proof (induction eof accept c rule: scram_wait.induct)
  case (1 eof accept c)
  obtain r1 c1 where rm: "read_more eof c = (r1, c1)" by fastforce
  show ?case
  proof (cases r1)
    case (Ok u)
    then obtain d rs where d: "c_reads c = Inr d # rs" "c1 = c\<lparr>c_reads := rs, c_buf := c_buf c @ d\<rparr>"
      using read_more_Ok rm by blast
    obtain t rest where t: "try_read_message (c_buf c1) False = (t, rest)" by fastforce
    have "length (c_reads (c1\<lparr>c_buf := rest\<rparr>)) < length (c_reads c)" using d by simp
    then show ?thesis using 1 rm Ok t
      by (auto simp: scram_wait.simps [of eof accept c] split: sum.splits option.splits if_splits) fastforce+
  qed (use 1 rm in \<open>auto simp: scram_wait.simps [of eof accept c] read_more_def split: list.splits sum.splits if_splits\<close>)
qed

lemma send_built_reads: "send_built b c = (r, c') \<Longrightarrow> c_reads c' = c_reads c \<and> c_buf c' = c_buf c"
  by (auto simp: send_built_def split: sum.splits prod.splits dest: send_fields)

lemma scram_exchange_reads:
  assumes "scram_exchange lib pw body c = (r, c')"
  shows "length (c_reads c') \<le> length (c_reads c) \<and> (r = Ok v \<longrightarrow> length (c_reads c') < length (c_reads c))"
proof -
  have sb: "c_reads c2 = c_reads c1" if "send_built b c1 = (r1, c2)" for b c1 r1 c2 using send_built_reads that by blast
  show ?thesis using assms
    by (auto simp: scram_exchange_def Let_def split: if_splits prod.splits outcome.splits sum.splits
        dest!: sb scram_wait_reads)
qed

lemma auth_message_reads:
  assumes "auth_message lib key pw m a c = (Ok x, a', c')"
  shows "length (c_reads c') < length (c_reads c) \<or> c_reads c' = c_reads c \<and> c_buf c' = c_buf c"
  using assms
  by (auto simp: auth_message_def Let_def split: if_splits option.splits prod.splits outcome.splits
      dest!: send_built_reads scram_exchange_reads)

text \<open>The inner \<^verbatim>\<open>while let\<close>: \<open>Ok True\<close> when the connection is ready, \<open>Ok False\<close> when the buffer is drained.\<close>

function auth_messages :: "'sc auth_lib \<Rightarrow> pool_key \<Rightarrow> string \<Rightarrow> bool \<Rightarrow> conn \<Rightarrow> bool outcome \<times> bool \<times> conn" where
  "auth_messages lib key password authenticated c =
     (case try_read_message (c_buf c) False of
        (Inl e, rest) \<Rightarrow> (Err e, authenticated, c\<lparr>c_buf := rest\<rparr>)
      | (Inr None, rest) \<Rightarrow> (Ok False, authenticated, c\<lparr>c_buf := rest\<rparr>)
      | (Inr (Some m), rest) \<Rightarrow>
          (case auth_message lib key password m authenticated (c\<lparr>c_buf := rest\<rparr>) of
             (Ok True, authenticated, c) \<Rightarrow> (Ok True, authenticated, c)
           | (Ok False, authenticated, c) \<Rightarrow> auth_messages lib key password authenticated c
           | (r, authenticated, c) \<Rightarrow> (r, authenticated, c)))"
  by pat_completeness auto
termination
  by (relation "measures [\<lambda>(lib, key, pw, a, c). length (c_reads c), \<lambda>(lib, key, pw, a, c). length (c_buf c)]")
    (auto dest!: auth_message_reads [OF sym] message_reader.progress [OF sym])

declare auth_messages.simps [simp del]

lemma auth_messages_reads:
  "auth_messages lib key pw a c = (Ok x, a', c') \<Longrightarrow> length (c_reads c') \<le> length (c_reads c)"
proof (induction lib key pw a c rule: auth_messages.induct)
  case (1 lib key pw a c)
  obtain t rest where t: "try_read_message (c_buf c) False = (t, rest)" by fastforce
  show ?case
  proof (cases "\<exists>m. t = Inr (Some m)")
    case True
    then obtain m where m: "t = Inr (Some m)" by blast
    obtain r a1 c1 where am: "auth_message lib key pw m a (c\<lparr>c_buf := rest\<rparr>) = (r, a1, c1)" by (metis prod_cases3)
    then obtain b where b: "r = Ok b"
      using 1(2) t m by (cases r) (auto simp: auth_messages.simps [of lib key pw a c])
    have le: "length (c_reads c1) \<le> length (c_reads c)" using auth_message_reads [OF am [unfolded b]] by auto
    show ?thesis
    proof (cases b)
      case False
      then have "auth_messages lib key pw a1 c1 = (Ok x, a', c')"
        using 1(2) t m am b by (simp add: auth_messages.simps [of lib key pw a c])
      then show ?thesis using 1(1) [OF t [symmetric] m refl am [symmetric]] b False le by fastforce
    qed (use 1(2) t m am b le in \<open>simp add: auth_messages.simps [of lib key pw a c]\<close>)
  qed (use 1(2) t in \<open>auto simp: auth_messages.simps [of lib key pw a c] split: sum.splits option.splits\<close>)
qed

text \<open>\<^verbatim>\<open>while !authenticated\<close>: \<open>Ok True\<close> when the connection became ready inside the loop.\<close>

function auth_loop :: "'sc auth_lib \<Rightarrow> pool_key \<Rightarrow> string \<Rightarrow> conn \<Rightarrow> bool outcome \<times> conn" where
  "auth_loop lib key password c =
     (case read_more BackendDisconnectedDuringAuth c of
        (Ok _, c1) \<Rightarrow>
          (case auth_messages lib key password False c1 of
             (Ok True, _, c2) \<Rightarrow> (Ok True, c2)
           | (Ok False, authenticated, c2) \<Rightarrow> if authenticated then (Ok False, c2) else auth_loop lib key password c2
           | (r, _, c2) \<Rightarrow> (r, c2))
      | (Err e, c1) \<Rightarrow> (Err e, c1)
      | (Panic, c1) \<Rightarrow> (Panic, c1)
      | (Pending, c1) \<Rightarrow> (Pending, c1))"
  by pat_completeness auto
termination
  by (relation "measure (\<lambda>(lib, key, pw, c). length (c_reads c))")
    (auto dest!: read_more_Ok [OF sym] auth_messages_reads [OF sym])

declare auth_loop.simps [simp del]

text \<open>
  Reading until ReadyForQuery, the tail of \<^verbatim>\<open>connect_backend\<close> and of \<^verbatim>\<open>reset_connection\<close>, which differ
  in their error texts.
\<close>

function ready_in_buffer :: "(string \<Rightarrow> pg_error) \<Rightarrow> conn \<Rightarrow> bool outcome \<times> conn" where
  "ready_in_buffer failed c =
     (case try_read_message (c_buf c) False of
        (Inl e, rest) \<Rightarrow> (Err e, c\<lparr>c_buf := rest\<rparr>)
      | (Inr None, rest) \<Rightarrow> (Ok False, c\<lparr>c_buf := rest\<rparr>)
      | (Inr (Some m), rest) \<Rightarrow>
          if msg_type m = byte_of CHR ''Z'' then (Ok True, c\<lparr>c_buf := rest\<rparr>)
          else if msg_type m = byte_of CHR ''E'' then
            (Err (failed (parse_error_fields (payload m))), c\<lparr>c_buf := rest\<rparr>)
          else ready_in_buffer failed (c\<lparr>c_buf := rest\<rparr>))"
  by pat_completeness auto
termination
  by (relation "measure (\<lambda>(_, c). length (c_buf c))") (auto dest!: message_reader.progress [OF sym])

declare ready_in_buffer.simps [simp del]

lemma ready_in_buffer_reads: "ready_in_buffer failed c = (r, c') \<Longrightarrow> c_reads c' = c_reads c \<and> c_sock c' = c_sock c"
proof (induction failed c rule: ready_in_buffer.induct)
  case (1 failed c)
  then show ?case
    by (auto simp: ready_in_buffer.simps [of failed c] split: prod.splits sum.splits option.splits if_splits)
qed

function until_ready :: "pg_error \<Rightarrow> (string \<Rightarrow> pg_error) \<Rightarrow> conn \<Rightarrow> unit outcome \<times> conn" where
  "until_ready eof failed c =
     (case read_more eof c of
        (Ok _, c1) \<Rightarrow>
          (case ready_in_buffer failed c1 of
             (Ok True, c2) \<Rightarrow> (Ok (), c2)
           | (Ok False, c2) \<Rightarrow> until_ready eof failed c2
           | (Err e, c2) \<Rightarrow> (Err e, c2)
           | (Panic, c2) \<Rightarrow> (Panic, c2)
           | (Pending, c2) \<Rightarrow> (Pending, c2))
      | (r, c1) \<Rightarrow> (r, c1))"
  by pat_completeness auto
termination
  by (relation "measure (\<lambda>(_, _, c). length (c_reads c))")
    (auto dest!: read_more_Ok [OF sym] ready_in_buffer_reads [OF sym])

declare until_ready.simps [simp del]

text \<open>\<open>tcp\<close> is the result of \<^verbatim>\<open>TcpStream::connect\<close> and \<^verbatim>\<open>set_nodelay\<close>.\<close>

definition connect_backend :: "'sc auth_lib \<Rightarrow> pg_error + conn \<Rightarrow> pool_key \<Rightarrow> string \<Rightarrow> (string \<times> string) list
    \<Rightarrow> unit outcome \<times> conn option" where
  "connect_backend lib tcp key password extra_params =
     (case tcp of
        Inl e \<Rightarrow> (Err e, None)
      | Inr c \<Rightarrow>
        (case send (build_startup_message (pk_user key) (pk_database key) extra_params) (c\<lparr>c_buf := []\<rparr>) of
           (Inl e, c) \<Rightarrow> (Err e, Some c)
         | (Inr _, c) \<Rightarrow>
             (case auth_loop lib key password c of
                (Ok True, c) \<Rightarrow> (Ok (), Some c)
              | (Ok False, c) \<Rightarrow>
                  (case until_ready BackendDisconnectedAfterAuth BackendErrorAfterAuth c of (r, c) \<Rightarrow> (r, Some c))
              | (Err e, c) \<Rightarrow> (Err e, Some c)
              | (Panic, c) \<Rightarrow> (Panic, Some c)
              | (Pending, c) \<Rightarrow> (Pending, Some c))))"

section \<open>Resetting\<close>

definition discard_all :: bytes where
  "discard_all = (let query = as_bytes ''DISCARD ALL'' @ [0]
     in byte_of CHR ''Q'' # put_i32 (usize_as_i32 (length query + 4)) @ query)"

definition reset_connection :: "conn \<Rightarrow> unit outcome \<times> conn" where
  "reset_connection c =
     (case send discard_all c of
        (Inl e, c) \<Rightarrow> (Err e, c)
      | (Inr _, c) \<Rightarrow> until_ready BackendDisconnectedDuringReset ResetFailed (c\<lparr>c_buf := []\<rparr>))"

section \<open>What decides a wait for ReadyForQuery\<close>

definition decisive :: "pg_message \<Rightarrow> bool" where
  "decisive m \<longleftrightarrow> msg_type m = byte_of CHR ''Z'' \<or> msg_type m = byte_of CHR ''E''"

definition ruling :: "(string \<Rightarrow> pg_error) \<Rightarrow> pg_message \<Rightarrow> unit outcome" where
  "ruling failed m =
     (if msg_type m = byte_of CHR ''Z'' then Ok () else Err (failed (parse_error_fields (payload m))))"

lemma ready_in_buffer_decides:
  assumes "drain (\<lambda>buf. try_read_message buf False) (c_buf c) = (ms, e, rest)"
  shows "case find decisive ms of
      Some m \<Rightarrow> (case ruling failed m of
                  Ok _ \<Rightarrow> fst (ready_in_buffer failed c) = Ok True | Err x \<Rightarrow> fst (ready_in_buffer failed c) = Err x | _ \<Rightarrow> False)
    | None \<Rightarrow> ready_in_buffer failed c = (case e of Some e \<Rightarrow> Err e | None \<Rightarrow> Ok False, c\<lparr>c_buf := rest\<rparr>)"
  using assms
proof (induction failed c arbitrary: ms rule: ready_in_buffer.induct)
  case (1 failed c)
  show ?case
  proof (cases "c_buf c" rule: message_reader.reader_cases)
    case stop
    then show ?thesis using 1(2) message_reader.drain_stop [OF stop]
      by (simp add: ready_in_buffer.simps [of failed c])
  next
    case (error x)
    then show ?thesis using 1(2) message_reader.drain_error [OF error]
      by (auto simp: ready_in_buffer.simps [of failed c])
  next
    case (message m b)
    obtain ms' where d: "drain (\<lambda>buf. try_read_message buf False) b = (ms', e, rest)" "ms = m # ms'"
      using 1(2) message_reader.drain_step [OF message(1)] by (auto split: prod.splits)
    show ?thesis
    proof (cases "decisive m")
      case True
      then show ?thesis using d message by (auto simp: ready_in_buffer.simps [of failed c] ruling_def decisive_def)
    next
      case False
      then have eq: "ready_in_buffer failed c = ready_in_buffer failed (c\<lparr>c_buf := b\<rparr>)"
        using message by (simp add: ready_in_buffer.simps [of failed c] decisive_def)
      have nz: "msg_type m \<noteq> byte_of CHR ''Z''" "msg_type m \<noteq> byte_of CHR ''E''"
        using False by (simp_all add: decisive_def)
      have fd: "find decisive ms = find decisive ms'" using d(2) False by simp
      show ?thesis unfolding eq fd
        using 1(1) [OF message(1) [symmetric] refl refl nz, of ms'] d(1) by (cases "find decisive ms'") simp_all
    qed
  qed
qed

lemma find_append: "find P (xs @ ys) = (case find P xs of Some x \<Rightarrow> Some x | None \<Rightarrow> find P ys)"
  by (induction xs) auto

lemma until_ready_decides:
  assumes "c_reads c = map Inr ds" "list_all (\<lambda>d. d \<noteq> []) ds"
    and "try_read_message (c_buf c) False = (Inr None, c_buf c)"
    and "drain (\<lambda>buf. try_read_message buf False) (c_buf c @ concat ds) = (ms, e, rest)"
  shows "fst (until_ready eof failed c) =
    (case find decisive ms of
       Some m \<Rightarrow> ruling failed m
     | None \<Rightarrow> (case e of Some e \<Rightarrow> Err e | None \<Rightarrow> Pending))"
  using assms
proof (induction ds arbitrary: c ms)
  case Nil
  then have "ms = []" "e = None" using message_reader.drain_stop [OF Nil(3)] by simp_all
  then show ?case using Nil(1) by (simp add: until_ready.simps [of eof failed c] read_more_def)
next
  case (Cons d ds)
  let ?c = "c\<lparr>c_reads := map Inr ds, c_buf := c_buf c @ d\<rparr>"
  have rm: "read_more eof c = (Ok (), ?c)" using Cons.prems(1,2) by (simp add: read_more_def)
  obtain ms1 e1 r1 where d1: "drain (\<lambda>buf. try_read_message buf False) (c_buf c @ d) = (ms1, e1, r1)" by (metis prod_cases3)
  note dec = ready_in_buffer_decides [of ?c ms1 e1 r1 failed]
  show ?case
  proof (cases "find decisive ms1")
    case (Some m)
    have "\<exists>more. ms = ms1 @ more"
    proof (cases e1)
      case None
      then show ?thesis using Cons.prems(4) d1 message_reader.drain_append [of "c_buf c @ d" ms1 r1 "concat ds"]
        by (metis append.assoc concat.simps(2) prod_cases3 fst_conv)
    next
      case (Some x)
      then show ?thesis using Cons.prems(4) d1 message_reader.drain_append_error [of "c_buf c @ d" ms1 x r1 "concat ds"] by auto
    qed
    then have "find decisive ms = Some m" using Some by (auto simp: find_append)
    then show ?thesis using rm dec d1 Some
      by (cases "ruling failed m") (auto simp: until_ready.simps [of eof failed c] split: prod.splits)
  next
    case None
    then have rb: "ready_in_buffer failed ?c = (case e1 of Some e \<Rightarrow> Err e | None \<Rightarrow> Ok False, ?c\<lparr>c_buf := r1\<rparr>)"
      using dec d1 by simp
    show ?thesis
    proof (cases e1)
      case (Some x)
      then have "drain (\<lambda>buf. try_read_message buf False) ((c_buf c @ d) @ concat ds) = (ms1, Some x, r1 @ concat ds)"
        using d1 by (intro message_reader.drain_append_error) simp
      then have "ms = ms1" "e = Some x" using Cons.prems(4) by simp_all
      then show ?thesis using rm rb None Some by (simp add: until_ready.simps [of eof failed c])
    next
      case none: None
      with d1 have d1': "drain (\<lambda>buf. try_read_message buf False) (c_buf c @ d) = (ms1, None, r1)" by simp
      obtain ms2 e2 r2 where d2: "drain (\<lambda>buf. try_read_message buf False) (r1 @ concat ds) = (ms2, e2, r2)" by (metis prod_cases3)
      have "ms = ms1 @ ms2" "e = e2" "rest = r2"
        using message_reader.drain_append [OF d1' d2] Cons.prems(4) by simp_all
      then show ?thesis
        using Cons.IH [of "?c\<lparr>c_buf := r1\<rparr>" ms2] Cons.prems(2) d2 message_reader.drain_rest_incomplete [OF d1'] rm rb none None
        by (simp add: until_ready.simps [of eof failed c] find_append)
    qed
  qed
qed

text \<open>Waiting only reads.\<close>

lemma read_more_sock: "read_more eof c = (r, c') \<Longrightarrow> c_sock c' = c_sock c"
  by (auto simp: read_more_def split: list.splits sum.splits if_splits)

lemma until_ready_sock: "until_ready eof failed c = (r, c') \<Longrightarrow> c_sock c' = c_sock c"
proof (induction eof failed c arbitrary: r c' rule: until_ready.induct)
  case (1 eof failed c)
  obtain r1 c1 where m: "read_more eof c = (r1, c1)" by fastforce
  obtain r2 c2 where b: "ready_in_buffer failed c1 = (r2, c2)" by fastforce
  have "c_sock c1 = c_sock c" "c_sock c2 = c_sock c1" using read_more_sock [OF m] ready_in_buffer_reads [OF b] by simp_all
  moreover have "c_sock c' = c_sock c2" if "r1 = Ok ()" "r2 = Ok False"
    using 1 m b that by (fastforce simp: until_ready.simps [of eof failed c])
  ultimately show ?case
    using 1(2) m b
    by (auto simp: until_ready.simps [of eof failed c] split: outcome.splits bool.splits)
qed

section \<open>Resetting: properties\<close>

lemma send_unlimited: "room (c_sock c) = None \<Longrightarrow> send bs c = (Inr (), c\<lparr>c_sock := (c_sock c)\<lparr>sent := sent (c_sock c) @ bs\<rparr>\<rparr>)"
  by (simp add: send_def write_all_def)

text \<open>
  C23. The result of reset_connection is decided by the first ReadyForQuery or error message of
  the server's reply, however the reply is cut into reads; without one it is an error of the
  reader or still waiting.
\<close>

theorem reset_decided_by_first_reply:
  assumes "room (c_sock c) = None" "c_reads c = map Inr ds" "list_all (\<lambda>d. d \<noteq> []) ds"
    and "drain (\<lambda>buf. try_read_message buf False) (concat ds) = (ms, e, rest)"
  shows "fst (reset_connection c) =
    (case find decisive ms of
       Some m \<Rightarrow> ruling ResetFailed m
     | None \<Rightarrow> (case e of Some e \<Rightarrow> Err e | None \<Rightarrow> Pending))"
proof -
  let ?c = "c\<lparr>c_sock := (c_sock c)\<lparr>sent := sent (c_sock c) @ discard_all\<rparr>, c_buf := []\<rparr>"
  have "try_read_message (c_buf ?c) False = (Inr None, c_buf ?c)" by (simp add: try_read_message_def)
  then show ?thesis
    using until_ready_decides [of ?c ds ms e rest] assms by (simp add: reset_connection_def send_unlimited)
qed

theorem reset_accepts_stale_ready:
  assumes "room (c_sock c) = None" "c_reads c = Inr (build_ready_for_query st) # replies"
  shows "\<exists>c'. reset_connection c = (Ok (), c') \<and> c_reads c' = replies
    \<and> sent (c_sock c') = sent (c_sock c) @ discard_all"
proof -
  have "try_read_message (build_ready_for_query st) False =
      (Inr (Some \<lparr>msg_type = byte_of CHR ''Z'', payload = [st]\<rparr>), [])"
    using fixed_builders_read_back(3) [of st "[]"] by simp
  moreover have "build_ready_for_query st \<noteq> []" by (simp add: build_ready_for_query_def)
  ultimately show ?thesis using assms
    by (simp add: reset_connection_def send_unlimited until_ready.simps read_more_def ready_in_buffer.simps)
qed

section \<open>Error texts\<close>

lemma error_fields_end: "error_fields [] msg = msg" "error_fields (0 # bs) msg = msg"
  by (simp_all add: error_fields.simps)

lemma error_fields_field:
  assumes "f \<noteq> 0" "wire_str s"
  shows "error_fields (f # cstr s @ rest) msg = error_fields rest (if f = byte_of CHR ''M'' then s else msg)"
proof -
  have z: "0 \<notin> set (as_bytes s)" using assms(2) by (simp add: wire_str_def)
  have "from_utf8 (as_bytes s) = Some s" using assms(2) by (simp add: wire_str_def from_utf8_as_bytes)
  then show ?thesis using assms(1)
    by (simp add: cstr_def error_fields.simps [of "f # as_bytes s @ 0 # rest"] takeWhile_cstr [OF z] dropWhile_cstr [OF z])
qed

theorem error_text_roundtrip:
  assumes "wire_str sev" "wire_str code" "wire_str msg" "msg \<noteq> []"
  shows "parse_error_fields (response_payload sev code msg) = msg"
proof -
  have p: "response_payload sev code msg = byte_of CHR ''S'' # cstr sev @ byte_of CHR ''V'' # cstr sev @
      byte_of CHR ''C'' # cstr code @ byte_of CHR ''M'' # cstr msg @ [0]"
    by (simp add: response_payload_def)
  have "error_fields (response_payload sev code msg) [] = msg"
    unfolding p using assms by (simp add: error_fields_field error_fields_end byte_of_def)
  then show ?thesis using assms(4) by (simp add: parse_error_fields_def)
qed

section \<open>Authentication: properties\<close>

lemma get_put_i32_only [simp]: "get_i32 (put_i32 w) = Some w"
  using get_put_i32 [of w "[]"] by simp

text \<open>A connection whose next read delivers exactly one message.\<close>

lemma auth_loop_single:
  assumes "c_reads c = Inr d # rs" "c_buf c = []" "d \<noteq> []" "try_read_message d False = (Inr (Some m), [])"
    and "auth_message lib key pw m False (c\<lparr>c_reads := rs, c_buf := []\<rparr>) = (Ok False, a, c')" "c_buf c' = []"
  shows "auth_loop lib key pw c = (if a then (Ok False, c') else auth_loop lib key pw c')"
proof -
  have n: "try_read_message [] False = (Inr None, [])" by (simp add: try_read_message_def)
  have "auth_messages lib key pw False (c\<lparr>c_reads := rs, c_buf := d\<rparr>) = auth_messages lib key pw a c'"
    using assms(4,5) by (simp add: auth_messages.simps [of lib key pw False "c\<lparr>c_reads := rs, c_buf := d\<rparr>"])
  moreover have "auth_messages lib key pw a c' = (Ok False, a, c')"
    using assms(6) n by (simp add: auth_messages.simps [of lib key pw a c'])
  ultimately show ?thesis
    using assms(1-3) by (simp add: auth_loop.simps [of lib key pw c] read_more_def)
qed

lemma request_not_empty [simp]:
  "build_auth_cleartext_request \<noteq> []" "build_auth_ok \<noteq> []" "build_ready_for_query st \<noteq> []" "build_error_response sev code msg \<noteq> []"
  by (simp_all add: build_auth_cleartext_request_def build_auth_ok_def build_ready_for_query_def build_error_response_def Let_def)

lemma cleartext_asked:
  assumes "room (c_sock c) = None" "c_buf c = []" "c_reads c = Inr build_auth_cleartext_request # rs"
    and "al_password_message lib (as_bytes pw) = Inr reply"
  shows "auth_loop lib key pw c =
    auth_loop lib key pw (c\<lparr>c_sock := (c_sock c)\<lparr>sent := sent (c_sock c) @ reply\<rparr>, c_reads := rs, c_buf := []\<rparr>)"
  using assms fixed_builders_read_back(2) [of "[]"]
  by (subst auth_loop_single [where a = False and m = "\<lparr>msg_type = byte_of CHR ''R'', payload = put_i32 3\<rparr>"
        and d = build_auth_cleartext_request and rs = rs
        and c' = "c\<lparr>c_sock := (c_sock c)\<lparr>sent := sent (c_sock c) @ reply\<rparr>, c_reads := rs, c_buf := []\<rparr>"])
    (simp_all add: auth_message_def Let_def send_built_def send_unlimited)

text \<open>
  A server that lets a client in with a cleartext password: how far its messages have come, 0 before the
  password request, 1 before AuthenticationOk, 2 before ReadyForQuery, 3 ready. Other messages than
  authentication requests, errors and ReadyForQuery (parameter status, key data, notices) may stand
  anywhere; 4 is any other conversation.
\<close>

definition login_step :: "nat \<Rightarrow> pg_message \<Rightarrow> nat" where
  "login_step n m =
     (if 3 \<le> n then n
      else if msg_type m \<notin> {byte_of CHR ''R'', byte_of CHR ''E'', byte_of CHR ''Z''} then n
      else if n = 0 \<and> msg_type m = byte_of CHR ''R'' \<and> payload m = put_i32 3 then 1
      else if n = 1 \<and> msg_type m = byte_of CHR ''R'' \<and> payload m = put_i32 0 then 2
      else if n = 2 \<and> msg_type m = byte_of CHR ''Z'' then 3
      else 4)"

definition admits :: "pg_message list \<Rightarrow> bool" where
  "admits ms \<longleftrightarrow> foldl login_step 0 ms = 3"

lemma login_over: "3 \<le> n \<Longrightarrow> foldl login_step n ms = n"
  by (induction ms) (simp_all add: login_step_def)

lemma login_step_mono: "n \<le> login_step n m"
  by (simp add: login_step_def)

lemma login_mono: "n \<le> foldl login_step n ms"
proof (induction ms arbitrary: n)
  case (Cons m ms)
  show ?case using le_trans [OF login_step_mono [of n m] Cons.IH] by simp
qed simp

lemma login_ready: "foldl login_step 2 ms = 3 \<Longrightarrow> \<exists>m. find decisive ms = Some m \<and> msg_type m = byte_of CHR ''Z''"
proof (induction ms)
  case (Cons m ms)
  show ?case
  proof (cases "decisive m \<or> msg_type m = byte_of CHR ''R''")
    case True
    then have "login_step 2 m = (if msg_type m = byte_of CHR ''Z'' then 3 else 4)" by (auto simp: login_step_def decisive_def byte_of_def)
    then have "msg_type m = byte_of CHR ''Z''" using Cons.prems login_over [of 4 ms] by (simp split: if_splits)
    then show ?thesis by (simp add: decisive_def)
  next
    case False
    then have "login_step 2 m = 2" by (auto simp: login_step_def decisive_def)
    then show ?thesis using Cons False by simp
  qed
qed simp

definition answers :: "bytes \<Rightarrow> nat \<Rightarrow> nat \<Rightarrow> conn \<Rightarrow> conn" where
  "answers reply n n' c =
     (if n = 0 \<and> 0 < n' then c\<lparr>c_sock := (c_sock c)\<lparr>sent := sent (c_sock c) @ reply\<rparr>\<rparr> else c)"

lemma login_message:
  assumes "n < 3" "login_step n m \<le> 3" "room (c_sock c) = None" "al_password_message lib (as_bytes pw) = Inr reply"
  shows "auth_message lib key pw m (n = 2) c =
    (Ok (login_step n m = 3), login_step n m = 2 \<or> login_step n m = 3, answers reply n (login_step n m) c)"
proof -
  have "put_i32 3 \<noteq> put_i32 0" by (simp add: put_i32_def)
  then show ?thesis using assms
    by (auto simp: auth_message_def login_step_def answers_def Let_def byte_of_def send_built_def send_unlimited split: if_splits)
qed

lemma answers_fields [simp]:
  "c_buf (answers reply n n' c) = c_buf c" "c_reads (answers reply n n' c) = c_reads c" "room (c_sock (answers reply n n' c)) = room (c_sock c)"
  by (simp_all add: answers_def)

lemma answers_trans: "n \<le> k \<Longrightarrow> k \<le> n' \<Longrightarrow> answers reply k n' (answers reply n k c) = answers reply n n' c"
  by (simp add: answers_def)

lemma answers_upd: "(answers reply n n' c)\<lparr>c_buf := b\<rparr> = answers reply n n' (c\<lparr>c_buf := b\<rparr>)"
  by (simp add: answers_def)

text \<open>The messages in the buffer are taken one by one; the rest of an unfinished one stays.\<close>

lemma login_messages:
  assumes "drain (\<lambda>buf. try_read_message buf False) (c_buf c) = (ms, e, rest)" "n < 3" "foldl login_step n ms = n'" "n' \<le> 3"
    and "e = None \<or> n' = 3" "room (c_sock c) = None" "al_password_message lib (as_bytes pw) = Inr reply"
  shows "\<exists>b a. auth_messages lib key pw (n = 2) c = (Ok (n' = 3), a, answers reply n n' (c\<lparr>c_buf := b\<rparr>))
    \<and> (n' < 3 \<longrightarrow> b = rest \<and> a = (n' = 2))"
  using assms(1-6)
proof (induction ms arbitrary: c n)
  case Nil
  then have "e = None" "n' = n" by auto
  with Nil have "try_read_message (c_buf c) False = (Inr None, c_buf c)" "rest = c_buf c"
    by (cases "c_buf c" rule: message_reader.reader_cases;
        auto simp: message_reader.drain_error message_reader.drain_stop dest: message_reader.drain_step split: prod.splits)+
  then show ?case using \<open>n' = n\<close> Nil(2) by (auto simp: auth_messages.simps [of _ _ _ _ c] answers_def)
next
  case (Cons m ms)
  obtain b where b: "try_read_message (c_buf c) False = (Inr (Some m), b)"
    "drain (\<lambda>buf. try_read_message buf False) b = (ms, e, rest)"
    using Cons.prems(1)
    by (cases "c_buf c" rule: message_reader.reader_cases)
      (auto simp: message_reader.drain_error message_reader.drain_stop message_reader.drain_step split: prod.splits)
  let ?k = "login_step n m" let ?c = "answers reply n ?k (c\<lparr>c_buf := b\<rparr>)"
  have k: "?k \<le> n'" "n \<le> ?k" using Cons.prems(3) login_mono [of ?k ms] login_step_mono [of n m] by simp_all
  have am: "auth_message lib key pw m (n = 2) (c\<lparr>c_buf := b\<rparr>) = (Ok (?k = 3), ?k = 2 \<or> ?k = 3, ?c)"
    by (rule login_message) (use Cons.prems(2,4,6) k assms(7) in simp_all)
  show ?case
  proof (cases "?k = 3")
    case True
    then have "n' = 3" using Cons.prems(3) login_over [of 3 ms] by simp
    then show ?thesis using am b True by (intro exI [of _ b] exI [of _ True]) (simp add: auth_messages.simps [of _ _ _ _ c])
  next
    case False
    then have "auth_messages lib key pw (n = 2) c = auth_messages lib key pw (?k = 2) ?c"
      using am b by (simp add: auth_messages.simps [of _ _ _ "n = 2" c])
    moreover obtain b' a where "auth_messages lib key pw (?k = 2) ?c = (Ok (n' = 3), a, answers reply ?k n' (?c\<lparr>c_buf := b'\<rparr>))"
      "n' < 3 \<longrightarrow> b' = rest \<and> a = (n' = 2)"
      using Cons.IH [of ?c ?k] Cons.prems(3-6) b(2) k False by auto
    ultimately show ?thesis using answers_trans [OF k(2,1)] by (auto simp: answers_upd)
  qed
qed

lemma login_loop:
  assumes "c_reads c = map Inr ds" "list_all (\<lambda>d. d \<noteq> []) ds" "try_read_message (c_buf c) False = (Inr None, c_buf c)"
    and "drain (\<lambda>buf. try_read_message buf False) (c_buf c @ concat ds) = (ms, e, rest)" "n < 2" "foldl login_step n ms = 3"
    and "room (c_sock c) = None" "al_password_message lib (as_bytes pw) = Inr reply"
  shows "\<exists>b c'. auth_loop lib key pw c = (Ok b, c') \<and> c_sock c' = c_sock (answers reply n 2 c)
    \<and> (b \<or> (\<exists>ds' ms' e' rest'. c_reads c' = map Inr ds' \<and> list_all (\<lambda>d. d \<noteq> []) ds' \<and> try_read_message (c_buf c') False = (Inr None, c_buf c')
        \<and> drain (\<lambda>buf. try_read_message buf False) (c_buf c' @ concat ds') = (ms', e', rest') \<and> foldl login_step 2 ms' = 3))"
  using assms(1-7)
proof (induction ds arbitrary: c ms n)
  case Nil
  then show ?case using message_reader.drain_stop [OF Nil(3)] by simp
next
  case (Cons d ds)
  let ?c = "c\<lparr>c_reads := map Inr ds, c_buf := c_buf c @ d\<rparr>"
  have rm: "read_more BackendDisconnectedDuringAuth c = (Ok (), ?c)" using Cons.prems(1,2) by (simp add: read_more_def)
  obtain ms1 e1 r1 where d1: "drain (\<lambda>buf. try_read_message buf False) (c_buf ?c) = (ms1, e1, r1)" by (metis prod_cases3)
  obtain ms2 where ms2: "ms = ms1 @ ms2" "e1 = None \<longrightarrow> drain (\<lambda>buf. try_read_message buf False) (r1 @ concat ds) = (ms2, e, rest)"
    "e1 \<noteq> None \<longrightarrow> ms2 = []"
  proof (cases e1)
    case None
    obtain ms2 e2 r2 where "drain (\<lambda>buf. try_read_message buf False) (r1 @ concat ds) = (ms2, e2, r2)" by (metis prod_cases3)
    then show ?thesis using that [of ms2] None d1 Cons.prems(4) message_reader.drain_append [of "c_buf c @ d" ms1 r1 "concat ds"] by simp
  next
    case (Some x)
    then show ?thesis using that [of "[]"] d1 Cons.prems(4) message_reader.drain_append_error [of "c_buf c @ d" ms1 x r1 "concat ds"] by simp
  qed
  let ?n = "foldl login_step n ms1"
  have n: "n \<le> ?n" "?n \<le> 3" "e1 = None \<or> ?n = 3"
    using login_mono [of n ms1] login_mono [of ?n ms2] Cons.prems(6) ms2 by (auto simp: foldl_append)
  obtain b a where am: "auth_messages lib key pw False ?c = (Ok (?n = 3), a, answers reply n ?n (?c\<lparr>c_buf := b\<rparr>))"
    "?n < 3 \<longrightarrow> b = r1 \<and> a = (?n = 2)"
    using login_messages [OF d1 _ refl n(2,3) _ assms(8), of key] Cons.prems(5,7) by auto
  let ?c' = "answers reply n ?n (?c\<lparr>c_buf := b\<rparr>)"
  consider "?n = 3" | "?n = 2" | "?n < 2" using n(2) by linarith
  then show ?case
  proof cases
    case 1
    then have "auth_loop lib key pw c = (Ok True, ?c')" using rm am(1) by (simp add: auth_loop.simps [of lib key pw c])
    moreover have "c_sock ?c' = c_sock (answers reply n 2 c)" using 1 by (simp add: answers_def)
    ultimately show ?thesis by blast
  next
    case 2
    then have "e1 = None" "a" "b = r1" using n(3) am(2) by auto
    then have "try_read_message r1 False = (Inr None, r1)" "foldl login_step 2 ms2 = 3"
      "drain (\<lambda>buf. try_read_message buf False) (r1 @ concat ds) = (ms2, e, rest)"
      using message_reader.drain_rest_incomplete d1 ms2 2 Cons.prems(6) by (auto simp: foldl_append)
    moreover have "auth_loop lib key pw c = (Ok False, ?c')" using rm am(1) 2 \<open>a\<close> by (simp add: auth_loop.simps [of lib key pw c])
    moreover have "c_sock ?c' = c_sock (answers reply n 2 c)" using 2 by (simp add: answers_def)
    ultimately show ?thesis using Cons.prems(2) \<open>b = r1\<close> by (intro exI [of _ False] exI [of _ ?c'] conjI disjI2 exI [of _ ds]) simp_all
  next
    case 3
    then have "e1 = None" "\<not> a" "b = r1" using n(3) am(2) by auto
    then have l: "auth_loop lib key pw c = auth_loop lib key pw ?c'" using rm am(1) 3 by (simp add: auth_loop.simps [of lib key pw c])
    have "c_sock (answers reply ?n 2 ?c') = c_sock (answers reply n 2 c)"
      using answers_trans [of n ?n 2 reply "?c\<lparr>c_buf := b\<rparr>"] n(1) 3 by (simp add: answers_def)
    then show ?thesis unfolding l
      using Cons.IH [of ?c' ms2 ?n] Cons.prems(2,6,7) 3 ms2 \<open>e1 = None\<close> \<open>b = r1\<close> message_reader.drain_rest_incomplete [of _ ms1 r1] d1
      by (simp add: foldl_append)
  qed
qed

lemma cleartext_connects:
  assumes "room (c_sock c) = None" "al_password_message lib (as_bytes pw) = Inr reply"
    and "c_reads c = map Inr ds" "list_all (\<lambda>d. d \<noteq> []) ds" "admits (fst (drain (\<lambda>buf. try_read_message buf False) (concat ds)))"
  shows "\<exists>c'. connect_backend lib (Inr c) key pw extra = (Ok (), Some c')
    \<and> c_sock c' = (c_sock c)\<lparr>sent := sent (c_sock c) @ build_startup_message (pk_user key) (pk_database key) extra @ reply\<rparr>"
proof -
  let ?s = "build_startup_message (pk_user key) (pk_database key) extra"
  let ?c = "c\<lparr>c_sock := (c_sock c)\<lparr>sent := sent (c_sock c) @ ?s\<rparr>, c_buf := []\<rparr>"
  obtain ms e rest where d: "drain (\<lambda>buf. try_read_message buf False) (concat ds) = (ms, e, rest)" by (metis prod_cases3)
  have "foldl login_step 0 ms = 3" "try_read_message [] False = (Inr None, [])"
    using assms(5) d by (simp_all add: admits_def try_read_message_def)
  from login_loop [of ?c ds ms e rest 0 lib pw reply key] this assms(1-4) d obtain b c1 where
    c1: "auth_loop lib key pw ?c = (Ok b, c1)" "c_sock c1 = c_sock (answers reply 0 2 ?c)"
      "b \<or> (\<exists>ds' ms' e' rest'. c_reads c1 = map Inr ds' \<and> list_all (\<lambda>d. d \<noteq> []) ds' \<and> try_read_message (c_buf c1) False = (Inr None, c_buf c1)
        \<and> drain (\<lambda>buf. try_read_message buf False) (c_buf c1 @ concat ds') = (ms', e', rest') \<and> foldl login_step 2 ms' = 3)"
    by auto
  have s: "c_sock c1 = (c_sock c)\<lparr>sent := sent (c_sock c) @ ?s @ reply\<rparr>" using c1(2) by (simp add: answers_def)
  have start: "send ?s (c\<lparr>c_buf := []\<rparr>) = (Inr (), ?c)" using send_unlimited [of "c\<lparr>c_buf := []\<rparr>"] assms(1) by simp
  show ?thesis
  proof (cases b)
    case True
    then show ?thesis using start c1(1) s by (simp add: connect_backend_def)
  next
    case False
    obtain r c2 where u: "until_ready BackendDisconnectedAfterAuth BackendErrorAfterAuth c1 = (r, c2)" by fastforce
    from False c1(3) obtain ds' ms' e' rest' where "c_reads c1 = map Inr ds'" "list_all (\<lambda>d. d \<noteq> []) ds'"
      "try_read_message (c_buf c1) False = (Inr None, c_buf c1)"
      "drain (\<lambda>buf. try_read_message buf False) (c_buf c1 @ concat ds') = (ms', e', rest')" "foldl login_step 2 ms' = 3" by blast
    from until_ready_decides [OF this(1-4), of BackendDisconnectedAfterAuth BackendErrorAfterAuth] login_ready [OF this(5)] u
    have "r = Ok ()" by (auto simp: ruling_def)
    then show ?thesis using start c1(1) False u until_ready_sock [OF u] s by (simp add: connect_backend_def)
  qed
qed

theorem connect_with_cleartext_password:
  assumes "room (c_sock c) = None" "sent (c_sock c) = []" "al_password_message lib (as_bytes pw) = Inr reply"
    and "c_reads c = map Inr ds" "list_all (\<lambda>d. d \<noteq> []) ds" "admits (fst (drain (\<lambda>buf. try_read_message buf False) (concat ds)))"
  shows "\<exists>c'. connect_backend lib (Inr c) key pw extra = (Ok (), Some c')
    \<and> sent (c_sock c') = build_startup_message (pk_user key) (pk_database key) extra @ reply"
  using cleartext_connects [OF assms(1,3-6), of key extra] assms(2) by auto

text \<open>A server that rejects the password: its message is the error.\<close>

lemma password_rejected:
  assumes "room (c_sock c) = None" "al_password_message lib (as_bytes pw) = Inr reply"
    and "c_reads c = Inr build_auth_cleartext_request # Inr (build_error_response sev code msg) # rs"
    and "wire_str sev" "wire_str code" "wire_str msg" "msg \<noteq> []"
    and "2 * length sev + length code + length msg + 13 \<le> MAX_MESSAGE_SIZE"
  shows "fst (connect_backend lib (Inr c) key pw extra) = Err (BackendError msg)"
proof -
  obtain k rs' b where c: "c = \<lparr>c_sock = k, c_reads = rs', c_buf = b\<rparr>" by (cases c)
  let ?s = "build_startup_message (pk_user key) (pk_database key) extra" and ?e = "build_error_response sev code msg"
  let ?c = "\<lambda>out rs. \<lparr>c_sock = k\<lparr>sent := sent k @ out\<rparr>, c_reads = rs, c_buf = []\<rparr>"
  have k: "room k = None" using assms(1) c by simp
  have e: "try_read_message ?e False = (Inr (Some \<lparr>msg_type = byte_of CHR ''E'', payload = response_payload sev code msg\<rparr>), [])"
    using builders_read_back [OF assms(8), of "[]" "[]" "[]"] by (simp add: MAX_MESSAGE_SIZE_def)
  have "auth_loop lib key pw (?c ?s rs') = auth_loop lib key pw (?c (?s @ reply) (Inr ?e # rs))"
    using cleartext_asked [OF _ _ _ assms(2), of "?c ?s rs'"] assms(3) k c by simp
  moreover have "fst (auth_loop lib key pw (?c (?s @ reply) (Inr ?e # rs))) = Err (BackendError msg)"
    using e error_text_roundtrip [OF assms(4-7)]
    by (simp add: auth_loop.simps read_more_def auth_messages.simps auth_message_def)
  ultimately show ?thesis using c k by (auto simp: connect_backend_def send_unlimited split: prod.splits)
qed

text \<open>
  In the last step of the SCRAM exchange an AuthenticationOk message ends the exchange without the
  server's signature being checked: the result does not depend on the library's \<^verbatim>\<open>finish\<close>.
\<close>

text \<open>
  C38. In the last step of a SCRAM exchange an AuthenticationOk message ends the exchange without
  the server's signature being verified.
\<close>

theorem scram_final_unverified:
  assumes "room (c_sock c) = None" "c_buf c = []" "''SCRAM-SHA-256'' \<in> set (mechanisms body)"
    and "c_reads c = [Inr (byte_of CHR ''R'' # put_i32 (usize_as_i32 (length first + 8)) @ put_i32 11 @ first), Inr build_auth_ok]"
    and "length first + 8 \<le> MAX_MESSAGE_SIZE"
    and "al_sasl_initial_response lib ''SCRAM-SHA-256'' (al_scram_message lib (al_scram_new lib (as_bytes pw))) = Inr b1"
    and "al_scram_update lib (al_scram_new lib (as_bytes pw)) first = Inr sc"
    and "al_sasl_response lib (al_scram_message lib sc) = Inr b2"
  shows "\<exists>c'. scram_exchange lib pw body c = (Ok (), c') \<and> sent (c_sock c') = sent (c_sock c) @ b1 @ b2"
proof -
  obtain k rs b where c: "c = \<lparr>c_sock = k, c_reads = rs, c_buf = b\<rparr>" by (cases c)
  let ?f = "byte_of CHR ''R'' # put_i32 (usize_as_i32 (length first + 8)) @ put_i32 11 @ first"
  have rb: "try_read_message ?f False = (Inr (Some \<lparr>msg_type = byte_of CHR ''R'', payload = put_i32 11 @ first\<rparr>), [])"
    using read_frame [of "put_i32 11 @ first" "byte_of CHR ''R''" "[]"] assms(5) by (simp add: ac_simps)
  have ok: "try_read_message build_auth_ok False = (Inr (Some \<lparr>msg_type = byte_of CHR ''R'', payload = put_i32 0\<rparr>), [])"
    using fixed_builders_read_back(1) [of "[]"] by simp
  have w1: "scram_wait BackendDisconnectedDuringScram accept_first \<lparr>c_sock = k', c_reads = [Inr ?f, r], c_buf = []\<rparr>
      = (Ok first, \<lparr>c_sock = k', c_reads = [r], c_buf = []\<rparr>)" for k' r
    by (simp add: scram_wait.simps read_more_def rb accept_first_def)
  have ne: "build_auth_ok \<noteq> []" by (simp add: build_auth_ok_def)
  have w2: "scram_wait BackendDisconnectedDuringScramFinal (accept_final lib sc) \<lparr>c_sock = k', c_reads = [Inr build_auth_ok], c_buf = []\<rparr>
      = (Ok (), \<lparr>c_sock = k', c_reads = [], c_buf = []\<rparr>)" for k'
    by (simp add: scram_wait.simps read_more_def ok ne accept_final_def)
  show ?thesis using assms c w1 w2
    by (simp add: scram_exchange_def Let_def send_built_def send_unlimited)
qed

theorem short_auth_message_panics:
  assumes "c_buf c = []" "c_reads c = Inr (byte_of CHR ''R'' # put_i32 (usize_as_i32 (length p + 4)) @ p) # rs" "length p < 4"
  shows "fst (scram_wait eof accept c) = Panic"
proof -
  have "try_read_message (byte_of CHR ''R'' # put_i32 (usize_as_i32 (length p + 4)) @ p) False =
      (Inr (Some \<lparr>msg_type = byte_of CHR ''R'', payload = p\<rparr>), [])"
    using read_frame [of p "byte_of CHR ''R''" "[]"] assms(3) by (simp add: MAX_MESSAGE_SIZE_def)
  moreover have "get_i32 p = None" using assms(3) get_i32_Some_length [of p] by (cases "get_i32 p") auto
  ultimately show ?thesis using assms by (simp add: scram_wait.simps read_more_def)
qed

section \<open>Instances\<close>

definition lib0 :: "unit auth_lib" where
  "lib0 = \<lparr>al_password_message = (\<lambda>pw. Inr (byte_of CHR ''p'' # put_i32 (usize_as_i32 (length pw + 5)) @ pw @ [0])),
           al_md5_hash = (\<lambda>_ _ _. ''md5''), al_scram_new = (\<lambda>_. ()), al_scram_message = (\<lambda>_. [1]),
           al_scram_update = (\<lambda>_ _. Inr ()), al_scram_finish = (\<lambda>_ _. Inl (LibError ''bad signature'')),
           al_sasl_initial_response = (\<lambda>_ m. Inr m), al_sasl_response = (\<lambda>m. Inr m)\<rparr>"

definition conn0 :: "(pg_error + bytes) list \<Rightarrow> conn" where
  "conn0 rs = \<lparr>c_sock = \<lparr>sent = [], room = None\<rparr>, c_reads = rs, c_buf = []\<rparr>"

lemma reset_decided_by_first_reply_witness:
  "\<exists>ms e rest. drain (\<lambda>buf. try_read_message buf False) [67, 0, 0] = (ms, e, rest) \<and>
     fst (reset_connection (conn0 [Inr [67, 0, 0]])) =
       (case find decisive ms of Some m \<Rightarrow> ruling ResetFailed m | None \<Rightarrow> (case e of Some e \<Rightarrow> Err e | None \<Rightarrow> Pending))"
proof -
  obtain ms e rest where d: "drain (\<lambda>buf. try_read_message buf False) (concat [[67, 0, 0]]) = (ms, e, rest)" by (metis prod_cases3)
  have "fst (reset_connection (conn0 [Inr [67, 0, 0]])) =
       (case find decisive ms of Some m \<Rightarrow> ruling ResetFailed m | None \<Rightarrow> (case e of Some e \<Rightarrow> Err e | None \<Rightarrow> Pending))"
    by (rule reset_decided_by_first_reply [OF _ _ _ d]) (simp_all add: conn0_def)
  then show ?thesis using d by auto
qed

lemma reset_accepts_stale_ready_witness:
  "\<exists>c'. reset_connection (conn0 [Inr (build_ready_for_query 73), Inr [67]]) = (Ok (), c') \<and> c_reads c' = [Inr [67]]"
  using reset_accepts_stale_ready [of "conn0 [Inr (build_ready_for_query 73), Inr [67]]" 73 "[Inr [67]]"]
  by (auto simp: conn0_def)

lemma error_text_roundtrip_witness: "parse_error_fields (response_payload ''FATAL'' ''28000'' ''no'') = ''no''"
  by (rule error_text_roundtrip) (simp_all add: wire_str_def ascii_str_def byte_of_def)

text \<open>A login with key data and a parameter status; the first read ends inside the key data.\<close>

definition login0 :: "bytes list" where
  "login0 = [build_auth_cleartext_request @ build_auth_ok @ take 3 (build_backend_key_data 1 2),
     drop 3 (build_backend_key_data 1 2) @ build_parameter_status ''TimeZone'' ''UTC'', build_ready_for_query 73]"

lemma login0_admits:
  "list_all (\<lambda>d. d \<noteq> []) login0" "admits (fst (drain (\<lambda>buf. try_read_message buf False) (concat login0)))"
proof -
  show "list_all (\<lambda>d. d \<noteq> []) login0" by (simp add: login0_def build_parameter_status_def Let_def)
  let ?rd = "\<lambda>buf. try_read_message buf False"
  have s: "?rd (build_parameter_status ''TimeZone'' ''UTC'' @ x)
      = (Inr (Some \<lparr>msg_type = byte_of CHR ''S'', payload = cstr ''TimeZone'' @ cstr ''UTC''\<rparr>), x)" for x
    using builders_read_back [of "[]" "[]" "[]" "''TimeZone''" "''UTC''" x] by (simp add: MAX_MESSAGE_SIZE_def)
  note step = message_reader.drain_step [OF fixed_builders_read_back(2)] message_reader.drain_step [OF fixed_builders_read_back(1)]
    message_reader.drain_step [OF fixed_builders_read_back(4)] message_reader.drain_step [OF s]
    message_reader.drain_step [OF fixed_builders_read_back(3) [where rest = "[]", simplified]]
  have n: "drain ?rd [] = ([], None, [])" by (rule message_reader.drain_stop) (simp add: try_read_message_def)
  have k: "concat login0 = build_auth_cleartext_request @ build_auth_ok @ build_backend_key_data 1 2
      @ build_parameter_status ''TimeZone'' ''UTC'' @ build_ready_for_query 73"
    by (simp add: login0_def)
  show "admits (fst (drain ?rd (concat login0)))"
    unfolding k by (simp add: step n admits_def login_step_def byte_of_def)
qed

lemma connect_with_cleartext_password_witness:
  "\<exists>c' reply. connect_backend lib0 (Inr (conn0 (map Inr login0)))
       \<lparr>pk_host = ''db'', pk_port = 5432, pk_database = ''app'', pk_user = ''alice''\<rparr> ''pw'' [] = (Ok (), Some c')
    \<and> sent (c_sock c') = build_startup_message ''alice'' ''app'' [] @ reply"
proof -
  obtain reply where "al_password_message lib0 (as_bytes ''pw'') = Inr reply" by (simp add: lib0_def)
  from connect_with_cleartext_password [OF _ _ this _ login0_admits, of "conn0 (map Inr login0)"
      "\<lparr>pk_host = ''db'', pk_port = 5432, pk_database = ''app'', pk_user = ''alice''\<rparr>" "[]"]
  show ?thesis by (auto simp: conn0_def)
qed

lemma scram_final_unverified_witness:
  "\<exists>c'. scram_exchange lib0 ''pw'' (as_bytes ''SCRAM-SHA-256'' @ [0, 0])
      (conn0 [Inr (byte_of CHR ''R'' # put_i32 (usize_as_i32 (length [5] + 8)) @ put_i32 11 @ [5]), Inr build_auth_ok]) = (Ok (), c')"
proof -
  have "''SCRAM-SHA-256'' \<in> set (mechanisms (as_bytes ''SCRAM-SHA-256'' @ [0, 0]))"
    using from_utf8_as_bytes [of "''SCRAM-SHA-256''"]
    by (simp add: mechanisms_def List.map_filter_def ascii_str_def byte_of_def)
  then show ?thesis
    using scram_final_unverified [of
        "conn0 [Inr (byte_of CHR ''R'' # put_i32 (usize_as_i32 (length [5] + 8)) @ put_i32 11 @ [5]), Inr build_auth_ok]"
        "as_bytes ''SCRAM-SHA-256'' @ [0, 0]" "[5]" lib0 "''pw''" "[1]" "()" "[1]"]
    by (simp add: conn0_def lib0_def MAX_MESSAGE_SIZE_def) blast
qed

lemma short_auth_message_panics_witness:
  "fst (scram_wait BackendDisconnectedDuringScram accept_first
     (conn0 [Inr (byte_of CHR ''R'' # put_i32 (usize_as_i32 (length ([] :: bytes) + 4)) @ [])])) = Panic"
  by (rule short_auth_message_panics [where p = "[]"]) (simp_all add: conn0_def)

end
