(* ===== verification/Startup.thy ===== *)
theory Startup
  imports Net Config Backend
begin

text \<open>
  The first two phases of \<^verbatim>\<open>handle_client\<close> (\<^verbatim>\<open>src/protocol/frontend.rs\<close>): reading the startup message
  (or an SSLRequest or CancelRequest) and the client's password.

  \<^verbatim>\<open>params\<close> is a \<^verbatim>\<open>HashMap\<close>; the order in which its iteration yields \<^verbatim>\<open>extra_params\<close> is not specified and
  is that of the association list here.
\<close>

section \<open>Startup\<close>

definition param :: "params \<Rightarrow> string \<Rightarrow> string option" where
  "param ps k = map_of ps k"

fun options_limit :: "(nat \<Rightarrow> nat list) \<Rightarrow> string list \<Rightarrow> u64 option outcome" where
  "options_limit u [] = Ok None"
| "options_limit u (part # parts) =
     (case strip_prefix part ''--max_db_size='' of
        Some val \<Rightarrow> parse_size_limit u val
      | None \<Rightarrow>
          (case strip_prefix part ''-c max_db_size='' of
             Some val \<Rightarrow> parse_size_limit u val
           | None \<Rightarrow> options_limit u parts))"

definition requested_limit :: "(nat \<Rightarrow> nat list) \<Rightarrow> params \<Rightarrow> u64 option outcome" where
  "requested_limit u ps =
     (case (case param ps ''max_db_size'' of Some v \<Rightarrow> parse_size_limit u v | None \<Rightarrow> Ok None) of
        Ok (Some l) \<Rightarrow> Ok (Some l)
      | Ok None \<Rightarrow>
          (case param ps ''options'' of
             Some opts \<Rightarrow> options_limit u (split_whitespace opts)
           | None \<Rightarrow> Ok None)
      | r \<Rightarrow> r)"

definition extra_of :: "params \<Rightarrow> (string \<times> string) list" where
  "extra_of ps = filter (\<lambda>(k, _). k \<notin> {''user'', ''database'', ''max_db_size'', ''options''}) ps"

definition startup_of :: "(nat \<Rightarrow> nat list) \<Rightarrow> params \<Rightarrow> startup_info outcome" where
  "startup_of u ps =
     (let user = (case param ps ''user'' of Some v \<Rightarrow> v | None \<Rightarrow> []);
          database = (case param ps ''database'' of Some v \<Rightarrow> v | None \<Rightarrow> user)
      in case requested_limit u ps of
           Ok max_db_size \<Rightarrow>
             Ok \<lparr>si_user = user, si_database = database, si_password = [], si_max_db_size = max_db_size,
                 si_extra_params = extra_of ps\<rparr>
         | Err e \<Rightarrow> Err e
         | Panic \<Rightarrow> Panic
         | Pending \<Rightarrow> Pending)"

datatype startup = Started startup_info | Cancelled

text \<open>
  The body of the startup loop on a non-empty buffer: \<open>Ok None\<close> is \<^verbatim>\<open>continue\<close>. The subtraction
  \<^verbatim>\<open>msg_len - 4\<close> of a length below 4 leaves \<^verbatim>\<open>split_to\<close> with a length beyond the buffer, which panics.
\<close>

definition startup_step :: "(nat \<Rightarrow> nat list) \<Rightarrow> bool \<Rightarrow> conn \<Rightarrow> startup option outcome \<times> conn" where
  "startup_step u tls c =
     (case get_i32 (c_buf c) of
        None \<Rightarrow> (Ok None, c)
      | Some len \<Rightarrow>
        if sint (usize_as_i32 (length (c_buf c))) < sint len then (Ok None, c)
        else
          let code = get_i32 (drop 4 (c_buf c))
          in if code = Some SSL_REQUEST_CODE then
               (if tls then
                  (case send [byte_of CHR ''S''] (c\<lparr>c_buf := drop 8 (c_buf c)\<rparr>) of
                     (Inl e, c) \<Rightarrow> (Err e, c) | (Inr _, c) \<Rightarrow> (Ok None, c))
                else
                  (case send [byte_of CHR ''N''] (c\<lparr>c_buf := drop 8 (c_buf c)\<rparr>) of
                     (Inl e, c) \<Rightarrow> (Err e, c) | (Inr _, c) \<Rightarrow> (Ok None, c\<lparr>c_buf := []\<rparr>)))
             else if code = Some CANCEL_REQUEST_CODE then (Ok (Some Cancelled), c)
             else if length (c_buf c) < i32_as_usize len then (Ok None, c)
             else if i32_as_usize len < 4 then (Panic, c\<lparr>c_buf := drop 4 (c_buf c)\<rparr>)
             else
               let p = take (i32_as_usize len - 4) (drop 4 (c_buf c));
                   c = c\<lparr>c_buf := drop (i32_as_usize len) (c_buf c)\<rparr>
               in case parse_startup_params p of
                    Ok (version, ps) \<Rightarrow>
                      if version \<noteq> 196608 then
                        (case send (build_error_response ''FATAL'' ''08004''
                              (''Unsupported protocol version: '' @ show_i32 version)) c of
                           (Inl e, c) \<Rightarrow> (Err e, c) | (Inr _, c) \<Rightarrow> (Err (UnsupportedProtocolVersion version), c))
                      else
                        (case startup_of u ps of
                           Ok info \<Rightarrow> (Ok (Some (Started info)), c)
                         | Err e \<Rightarrow> (Err e, c)
                         | Panic \<Rightarrow> (Panic, c)
                         | Pending \<Rightarrow> (Pending, c))
                  | Err e \<Rightarrow> (Err e, c)
                  | Panic \<Rightarrow> (Panic, c)
                  | Pending \<Rightarrow> (Pending, c))"

lemma startup_step_reads: "startup_step u tls c = (r, c') \<Longrightarrow> c_reads c' = c_reads c"
  by (auto simp: startup_step_def Let_def split: option.splits if_splits prod.splits sum.splits outcome.splits
      dest!: send_fields)

function startup_phase :: "(nat \<Rightarrow> nat list) \<Rightarrow> bool \<Rightarrow> conn \<Rightarrow> startup outcome \<times> conn" where
  "startup_phase u tls c =
     (case read_more ClientDisconnectedBeforeStartup c of
        (Ok _, c1) \<Rightarrow>
          (case startup_step u tls c1 of
             (Ok None, c2) \<Rightarrow> startup_phase u tls c2
           | (Ok (Some s), c2) \<Rightarrow> (Ok s, c2)
           | (Err e, c2) \<Rightarrow> (Err e, c2)
           | (Panic, c2) \<Rightarrow> (Panic, c2)
           | (Pending, c2) \<Rightarrow> (Pending, c2))
      | (Err e, c1) \<Rightarrow> (Err e, c1)
      | (Panic, c1) \<Rightarrow> (Panic, c1)
      | (Pending, c1) \<Rightarrow> (Pending, c1))"
  by pat_completeness auto
termination
  by (relation "measure (\<lambda>(_, _, c). length (c_reads c))")
    (auto dest!: read_more_Ok [OF sym] startup_step_reads [OF sym])

declare startup_phase.simps [simp del]

section \<open>The password\<close>

function password_loop :: "conn \<Rightarrow> string outcome \<times> conn" where
  "password_loop c =
     (case read_more ClientDisconnectedDuringAuth c of
        (Ok _, c1) \<Rightarrow>
          (case try_read_message (c_buf c1) False of
             (Inl e, rest) \<Rightarrow> (Err e, c1\<lparr>c_buf := rest\<rparr>)
           | (Inr None, rest) \<Rightarrow> password_loop (c1\<lparr>c_buf := rest\<rparr>)
           | (Inr (Some m), rest) \<Rightarrow>
               (if msg_type m = byte_of CHR ''p'' then
                  (if 0 \<in> set (payload m) then
                     (case from_utf8 (takeWhile (\<lambda>b. b \<noteq> 0) (payload m)) of
                        Some pw \<Rightarrow> Ok pw | None \<Rightarrow> Err Utf8Error)
                   else Err InvalidPasswordMessage)
                else Err (ExpectedPasswordMessage (msg_type m)), c1\<lparr>c_buf := rest\<rparr>))
      | (Err e, c1) \<Rightarrow> (Err e, c1)
      | (Panic, c1) \<Rightarrow> (Panic, c1)
      | (Pending, c1) \<Rightarrow> (Pending, c1))"
  by pat_completeness auto
termination
  by (relation "measure (\<lambda>c. length (c_reads c))") (auto dest!: read_more_Ok [OF sym])

declare password_loop.simps [simp del]

definition password_phase :: "conn \<Rightarrow> string outcome \<times> conn" where
  "password_phase c =
     (case send build_auth_cleartext_request c of
        (Inl e, c) \<Rightarrow> (Err e, c)
      | (Inr _, c) \<Rightarrow> password_loop c)"

section \<open>Startup: properties\<close>

text \<open>A startup packet with any parameters, in any order.\<close>

definition startup_packet :: "(string \<times> string) list \<Rightarrow> bytes" where
  "startup_packet kvs =
     (let p = put_i32 196608 @ concat (map (\<lambda>(k, v). cstr k @ cstr v) kvs) @ [0] in put_i32 (usize_as_i32 (length p + 4)) @ p)"

lemma startup_message_packet:
  "build_startup_message user db extra = startup_packet ((''user'', user) # (''database'', db) # extra)"
  by (simp add: build_startup_message_def startup_packet_def cstr_def Let_def)

lemma startup_step_waits:
  assumes "c_buf c @ d = put_i32 (usize_as_i32 (length p + 4)) @ p" "d \<noteq> []" "length p + 4 < 2147483648"
  shows "startup_step u tls c = (Ok None, c)"
proof (cases "length (c_buf c) < 4")
  case True
  then have "get_i32 (c_buf c) = None" using get_i32_Some_length [of "c_buf c"] by (cases "get_i32 (c_buf c)") auto
  then show ?thesis by (simp add: startup_step_def)
next
  case False
  have "get_i32 (c_buf c) = get_i32 (c_buf c @ d)" using False by (simp add: get_i32_append)
  then have g: "get_i32 (c_buf c) = Some (usize_as_i32 (length p + 4))" unfolding assms(1) by simp
  have len: "length (c_buf c) + length d = length p + 4" using arg_cong [OF assms(1), of length] by simp
  then have "length (c_buf c) < length p + 4" using assms(2) by (cases d) auto
  then have "sint (usize_as_i32 (length (c_buf c))) < sint (usize_as_i32 (length p + 4))"
    using assms(3) len by (simp add: usize_as_i32_def sint_word_of_nat_small del: of_nat_add)
  then show ?thesis by (simp add: startup_step_def g)
qed

lemma startup_step_complete:
  assumes "c_buf c = put_i32 (usize_as_i32 (length p + 4)) @ p" "length p + 4 < 2147483648" "p = put_i32 196608 @ q"
    and "parse_startup_params p = Ok (196608, ps)" "startup_of u ps = Ok info"
  shows "startup_step u tls c = (Ok (Some (Started info)), c\<lparr>c_buf := []\<rparr>)"
proof -
  have g: "get_i32 (c_buf c) = Some (usize_as_i32 (length p + 4))" using assms(1) by simp
  have code: "get_i32 p = Some 196608" using assms(3) by simp
  have i: "i32_as_usize (usize_as_i32 (length p + 4)) = length p + 4" using assms(2) by (rule i32_as_usize_small)
  have l: "length (c_buf c) = length p + 4" using assms(1) by simp
  have d: "drop 4 (c_buf c) = p" "drop (length p + 4) (c_buf c) = []" using assms(1) l by simp_all
  show ?thesis
    using assms(4,5) by (simp add: startup_step_def g code i l d Let_def SSL_REQUEST_CODE_def CANCEL_REQUEST_CODE_def)
qed

lemma startup_phase_chunks:
  assumes "c_buf c @ concat ds = put_i32 (usize_as_i32 (length p + 4)) @ p" "length p + 4 < 2147483648" "p = put_i32 196608 @ q"
    and "parse_startup_params p = Ok (196608, ps)" "startup_of u ps = Ok info"
    and "c_reads c = map Inr ds @ later" "list_all (\<lambda>d. d \<noteq> []) ds" "ds \<noteq> []"
  shows "startup_phase u tls c = (Ok (Started info), c\<lparr>c_reads := later, c_buf := []\<rparr>)"
  using assms(1,6-8)
proof (induction ds arbitrary: c)
  case (Cons d ds)
  let ?c = "c\<lparr>c_reads := map Inr ds @ later, c_buf := c_buf c @ d\<rparr>"
  have rm: "read_more ClientDisconnectedBeforeStartup c = (Ok (), ?c)" using Cons.prems by (simp add: read_more_def)
  show ?case
  proof (cases "ds = []")
    case True
    then have "c_buf ?c = put_i32 (usize_as_i32 (length p + 4)) @ p" using Cons.prems(1) by simp
    from startup_step_complete [OF this assms(2-5), of tls] show ?thesis
      using rm True by (simp add: startup_phase.simps [of u tls c])
  next
    case False
    then have ne: "concat ds \<noteq> []" using Cons.prems(3) by (cases ds) auto
    have "startup_step u tls ?c = (Ok None, ?c)"
      by (rule startup_step_waits [OF _ ne assms(2)]) (use Cons.prems(1) in simp)
    then show ?thesis
      using rm Cons.IH [of ?c] Cons.prems False by (simp add: startup_phase.simps [of u tls c])
  qed
qed simp

lemma startup_packet_chunks:
  assumes "\<forall>(k, v) \<in> set kvs. wire_str k \<and> k \<noteq> [] \<and> wire_str v" "length (startup_packet kvs) < 2147483648"
    and "startup_of u (param_table [] kvs) = Ok info"
    and "concat ds = startup_packet kvs" "list_all (\<lambda>d. d \<noteq> []) ds"
    and "c_buf c = []" "c_reads c = map Inr ds @ later"
  shows "startup_phase u tls c = (Ok (Started info), c\<lparr>c_reads := later, c_buf := []\<rparr>)"
proof -
  obtain p where p: "startup_packet kvs = put_i32 (usize_as_i32 (length p + 4)) @ p"
    "p = put_i32 196608 @ concat (map (\<lambda>(k, v). cstr k @ cstr v) kvs) @ [0]"
    by (simp add: startup_packet_def Let_def)
  have "parse_pairs (concat (map (\<lambda>(k, v). cstr k @ cstr v) kvs) @ 0 # []) [] = Ok (param_table [] kvs)"
    using assms(1) by (intro parse_pairs_roundtrip) simp
  then have "parse_startup_params p = Ok (196608, param_table [] kvs)"
    unfolding p(2) by (simp add: parse_startup_params_def del: concat.simps list.map)
  moreover have "ds \<noteq> []" using assms(4) p(1) by (auto dest!: arg_cong [where f = length])
  moreover have "length p + 4 < 2147483648" using assms(2) p(1) by simp
  ultimately show ?thesis
    using startup_phase_chunks [OF _ _ p(2)] assms p(1) by simp
qed

text \<open>A startup message is understood however its bytes are cut into reads.\<close>

theorem startup_any_segmentation:
  assumes "\<forall>(k, v) \<in> set kvs. wire_str k \<and> k \<noteq> [] \<and> wire_str v" "length (startup_packet kvs) < 2147483648"
    and "startup_of u (param_table [] kvs) = Ok info"
    and "concat ds = startup_packet kvs" "list_all (\<lambda>d. d \<noteq> []) ds"
    and "c_buf c = []" "c_reads c = map Inr ds @ later"
  shows "startup_phase u tls c = (Ok (Started info), c\<lparr>c_reads := later, c_buf := []\<rparr>)"
  by (rule startup_packet_chunks [OF assms])

definition ssl_request :: bytes where
  "ssl_request = put_i32 8 @ put_i32 SSL_REQUEST_CODE"

text \<open>
  An SSLRequest without TLS is answered with N; whatever the client sent behind it in the same
  read is thrown away.
\<close>

theorem ssl_request_refused:
  assumes "c_buf c = []" "c_reads c = Inr (ssl_request @ x) # later" "room (c_sock c) = None" "length x < 2147483000"
  shows "startup_phase u False c =
    startup_phase u False (c\<lparr>c_sock := (c_sock c)\<lparr>sent := sent (c_sock c) @ [byte_of CHR ''N'']\<rparr>, c_reads := later, c_buf := []\<rparr>)"
proof -
  obtain k rs b where c: "c = \<lparr>c_sock = k, c_reads = rs, c_buf = b\<rparr>" by (cases c)
  let ?c = "\<lparr>c_sock = k, c_reads = later, c_buf = ssl_request @ x\<rparr>"
  have ne: "ssl_request @ x \<noteq> []" by (simp add: ssl_request_def put_i32_def)
  have rm: "read_more ClientDisconnectedBeforeStartup c = (Ok (), ?c)"
    using assms(1,2) c ne by (simp add: read_more_def)
  have g: "get_i32 (ssl_request @ x) = Some 8" "get_i32 (drop 4 (ssl_request @ x)) = Some SSL_REQUEST_CODE"
    by (simp_all add: ssl_request_def)
  have "sint (usize_as_i32 (length (ssl_request @ x))) = int (length (ssl_request @ x))"
    unfolding usize_as_i32_def using assms(4) by (intro sint_word_of_nat_small) (simp add: ssl_request_def)
  then have "\<not> sint (usize_as_i32 (length (ssl_request @ x))) < sint (8 :: i32)" by (simp add: ssl_request_def)
  then have "startup_step u False ?c =
      (Ok None, \<lparr>c_sock = k\<lparr>sent := sent k @ [byte_of CHR ''N'']\<rparr>, c_reads = later, c_buf = []\<rparr>)"
    using g assms(3) c by (simp add: startup_step_def Let_def send_unlimited)
  then have "startup_phase u False c = startup_phase u False
      \<lparr>c_sock = k\<lparr>sent := sent k @ [byte_of CHR ''N'']\<rparr>, c_reads = later, c_buf = []\<rparr>"
    using rm by (simp add: startup_phase.simps [of u False c])
  then show ?thesis by (simp add: c)
qed

theorem short_startup_length_panics:
  assumes "c_buf c = []" "c_reads c = Inr (put_i32 (word_of_nat n)) # later" "n < 4"
  shows "fst (startup_phase u tls c) = Panic"
proof -
  let ?c = "c\<lparr>c_reads := later, c_buf := put_i32 (word_of_nat n)\<rparr>"
  have "put_i32 (word_of_nat n) \<noteq> []" by (simp add: put_i32_def)
  then have rm: "read_more ClientDisconnectedBeforeStartup c = (Ok (), ?c)" using assms by (simp add: read_more_def)
  have i: "i32_as_usize (word_of_nat n) = n" using i32_as_usize_small [of n] assms(3) by (simp add: usize_as_i32_def)
  have "sint (usize_as_i32 4) = 4" "sint (word_of_nat n :: i32) = int n"
    using assms(3) sint_word_of_nat_small [of 4] by (simp_all add: usize_as_i32_def sint_word_of_nat_small)
  then have "fst (startup_step u tls ?c) = Panic"
    using assms(3) i by (simp add: startup_step_def Let_def)
  then show ?thesis using rm by (auto simp: startup_phase.simps [of u tls c] split: prod.splits)
qed

text \<open>The branch for \<^verbatim>\<open>-c max_db_size=\<close> is never taken: a part of \<^verbatim>\<open>split_whitespace\<close> holds no space.\<close>

lemma options_limit_parts:
  "(\<And>p. p \<in> set parts \<Longrightarrow> \<not> starts_with p ''--max_db_size='' \<and> \<not> starts_with p ''-c max_db_size='') \<Longrightarrow>
     options_limit u parts = Ok None"
  by (induction parts) (auto simp: strip_prefix_def)

theorem dash_c_limit_ignored:
  assumes "\<forall>p \<in> set (split_whitespace opts). \<not> starts_with p ''--max_db_size=''"
  shows "requested_limit u [(''options'', opts)] = Ok None"
proof -
  have "\<not> starts_with p ''-c max_db_size=''" if "p \<in> set (split_whitespace opts)" for p
    using split_whitespace_no_prefix_with_space [OF that, of "''-c max_db_size=''"]
    by (auto simp: strip_prefix_def ascii_str_def split: if_splits)
  then show ?thesis using assms by (auto simp: requested_limit_def param_def intro!: options_limit_parts)
qed

section \<open>Passwords\<close>

text \<open>The password message may arrive in pieces; what follows it in the last read stays in the buffer.\<close>

lemma password_loop_pieces:
  assumes "wire_str pw" "length pw + 5 \<le> MAX_MESSAGE_SIZE"
    and "c_buf c @ concat ps @ l = encode (new_message (byte_of CHR ''p'') (as_bytes pw @ [0])) [] @ x" "length x < length l"
    and "c_reads c = map Inr ps @ Inr l # later" "list_all (\<lambda>d. d \<noteq> []) ps"
  shows "password_loop c = (Ok pw, c\<lparr>c_reads := later, c_buf := x\<rparr>)"
  using assms(3-6)
proof (induction ps arbitrary: c)
  case Nil
  let ?m = "new_message (byte_of CHR ''p'') (as_bytes pw @ [0])"
  have "try_read_message (encode ?m [] @ x) False = (Inr (Some ?m), x)"
    using read_frame [of "as_bytes pw @ [0]" "byte_of CHR ''p''" x] assms(2)
    by (simp add: encode_def new_message_def byte_of_def)
  moreover have "takeWhile (\<lambda>b. b \<noteq> 0) (as_bytes pw @ [0]) = as_bytes pw"
    using takeWhile_cstr [of "as_bytes pw" "[]"] assms(1) by (simp add: wire_str_def)
  moreover have "from_utf8 (as_bytes pw) = Some pw" using assms(1) by (simp add: wire_str_def from_utf8_as_bytes)
  moreover have "l \<noteq> []" using Nil(2) by auto
  ultimately show ?case using Nil by (simp add: password_loop.simps [of c] read_more_def new_message_def)
next
  case (Cons d ps)
  let ?m = "new_message (byte_of CHR ''p'') (as_bytes pw @ [0])"
  let ?c = "c\<lparr>c_reads := map Inr ps @ Inr l # later, c_buf := c_buf c @ d\<rparr>"
  have "try_read_message (c_buf ?c @ concat ps @ l) False = (Inr (Some ?m), x)"
    using read_frame [of "as_bytes pw @ [0]" "byte_of CHR ''p''" x] assms(2) Cons.prems(1)
    by (simp add: encode_def new_message_def byte_of_def)
  then have "try_read_message (c_buf ?c) False = (Inr None, c_buf ?c)"
    using Cons.prems(2) by (intro message_reader.prefix_incomplete [of _ "concat ps @ l" ?m x]) simp_all
  then have "password_loop c = password_loop ?c"
    using Cons.prems(3,4) by (simp add: password_loop.simps [of c] read_more_def)
  then show ?case using Cons.IH [of ?c] Cons.prems by simp
qed

lemma password_phase_pieces:
  assumes "wire_str pw" "length pw + 5 \<le> MAX_MESSAGE_SIZE" "c_buf c = []" "room (c_sock c) = None"
    and "c_reads c = map Inr ps @ Inr l # later" "list_all (\<lambda>d. d \<noteq> []) ps"
    and "concat ps @ l = encode (new_message (byte_of CHR ''p'') (as_bytes pw @ [0])) [] @ x" "length x < length l"
  shows "\<exists>c'. password_phase c = (Ok pw, c') \<and> c_buf c' = x \<and> c_reads c' = later
    \<and> c_sock c' = (c_sock c)\<lparr>sent := sent (c_sock c) @ build_auth_cleartext_request\<rparr>"
proof -
  let ?c = "c\<lparr>c_sock := (c_sock c)\<lparr>sent := sent (c_sock c) @ build_auth_cleartext_request\<rparr>\<rparr>"
  have "password_loop ?c = (Ok pw, ?c\<lparr>c_reads := later, c_buf := x\<rparr>)"
    by (rule password_loop_pieces [OF assms(1,2) _ assms(8) _ assms(6)]) (use assms(3,5,7) in simp_all)
  then show ?thesis using assms(4) by (simp add: password_phase_def send_unlimited)
qed

lemma password_phase_reads:
  assumes "wire_str pw" "length pw + 5 \<le> MAX_MESSAGE_SIZE" "c_buf c = []" "room (c_sock c) = None"
    and "c_reads c = Inr (encode (new_message (byte_of CHR ''p'') (as_bytes pw @ [0])) [] @ x) # later"
  shows "\<exists>c'. password_phase c = (Ok pw, c') \<and> c_buf c' = x \<and> c_reads c' = later
    \<and> c_sock c' = (c_sock c)\<lparr>sent := sent (c_sock c) @ build_auth_cleartext_request\<rparr>"
  using password_phase_pieces [OF assms(1-4), of "[]"] assms(5) by (simp add: encode_def new_message_def)

text \<open>The password of the client's password message is what \<^verbatim>\<open>acquire\<close> is called with.\<close>

theorem password_read_back:
  assumes "wire_str pw" "length pw + 5 \<le> MAX_MESSAGE_SIZE" "c_buf c = []" "room (c_sock c) = None"
    and "c_reads c = Inr (encode (new_message (byte_of CHR ''p'') (as_bytes pw @ [0])) [] @ x) # later"
  shows "\<exists>c'. password_phase c = (Ok pw, c') \<and> c_buf c' = x \<and> c_reads c' = later
    \<and> c_sock c' = (c_sock c)\<lparr>sent := sent (c_sock c) @ build_auth_cleartext_request\<rparr>"
  by (rule password_phase_reads [OF assms])

section \<open>Instances\<close>

definition startup0 :: bytes where
  "startup0 = build_startup_message ''bob'' ''app'' []"

definition info0 :: startup_info where
  "info0 = \<lparr>si_user = ''bob'', si_database = ''app'', si_password = [], si_max_db_size = None, si_extra_params = []\<rparr>"

definition kvs0 :: "(string \<times> string) list" where
  "kvs0 = [(''user'', ''bob''), (''database'', ''app'')]"

lemma startup0_of: "startup_of u (param_table [] kvs0) = Ok info0"
  by (simp add: kvs0_def startup_of_def param_def param_table_def requested_limit_def extra_of_def info0_def)

lemma startup0_length: "length startup0 = 31"
  by (simp add: startup0_def build_startup_message_def cstr_def)

lemma startup0_chunks:
  "concat [take 5 startup0, drop 5 startup0] = startup_packet kvs0"
  "list_all (\<lambda>d. d \<noteq> []) [take 5 startup0, drop 5 startup0]"
  "length (startup_packet kvs0) < 2147483648"
  using startup0_length by (auto simp: startup0_def kvs0_def startup_message_packet)

lemma startup0_wire: "wire_str ''bob''" "wire_str ''app''"
  by (simp_all add: wire_str_def ascii_str_def byte_of_def)

lemma kvs0_wire: "\<forall>(k, v) \<in> set kvs0. wire_str k \<and> k \<noteq> [] \<and> wire_str v"
  by (simp add: kvs0_def wire_str_def ascii_str_def byte_of_def)

lemma startup0_phase:
  assumes "c_buf c = []" "c_reads c = Inr (take 5 startup0) # Inr (drop 5 startup0) # later"
  shows "startup_phase u tls c = (Ok (Started info0), c\<lparr>c_reads := later, c_buf := []\<rparr>)"
  by (rule startup_packet_chunks [OF kvs0_wire startup0_chunks(3) startup0_of startup0_chunks(1,2)])
    (use assms in simp_all)

lemma startup_any_segmentation_witness:
  "startup_phase (\<lambda>c. [c]) False (conn0 [Inr (take 5 startup0), Inr (drop 5 startup0)]) =
     (Ok (Started info0), conn0 [])"
proof -
  let ?c = "conn0 [Inr (take 5 startup0), Inr (drop 5 startup0)]"
  have "startup_phase (\<lambda>c. [c]) False ?c = (Ok (Started info0), ?c\<lparr>c_reads := [], c_buf := []\<rparr>)"
    by (rule startup_any_segmentation [OF kvs0_wire startup0_chunks(3) startup0_of startup0_chunks(1,2)])
      (simp_all add: conn0_def)
  then show ?thesis by (simp add: conn0_def)
qed

lemma ssl_request_refused_witness:
  "startup_phase (\<lambda>c. [c]) False (conn0 [Inr (ssl_request @ startup0)]) =
     startup_phase (\<lambda>c. [c]) False ((conn0 [])\<lparr>c_sock := \<lparr>sent = [78], room = None\<rparr>\<rparr>)"
  using ssl_request_refused [of "conn0 [Inr (ssl_request @ startup0)]" startup0 "[]" "\<lambda>c. [c]"]
  by (simp add: conn0_def startup0_def build_startup_message_def cstr_def byte_of_def)

lemma short_startup_length_panics_witness:
  "fst (startup_phase (\<lambda>c. [c]) False (conn0 [Inr (put_i32 (word_of_nat 3))])) = Panic"
  by (rule short_startup_length_panics [where n = 3]) (simp_all add: conn0_def)

lemma dash_c_limit_ignored_witness:
  "requested_limit (\<lambda>c. [c]) [(''options'', ''-c max_db_size=5GB'')] = Ok None"
proof (rule dash_c_limit_ignored)
  have "split_ws_chars (chars ''-c max_db_size=5GB'')
      = [map of_char ''-c'', map of_char ''max_db_size=5GB'']"
    by (simp add: ascii_str_def split_ws_chars.simps white_space_def)
  then have "split_whitespace ''-c max_db_size=5GB'' = map of_chars [map of_char ''-c'', map of_char ''max_db_size=5GB'']"
    by (simp only: split_whitespace_def)
  also have "\<dots> = [of_chars (map of_char ''-c''), of_chars (map of_char ''max_db_size=5GB'')]" by (simp only: list.map)
  also have "\<dots> = [''-c'', ''max_db_size=5GB'']" by (subst (1 2) of_chars_ascii) (simp_all add: ascii_str_def)
  finally have "split_whitespace ''-c max_db_size=5GB'' = [''-c'', ''max_db_size=5GB'']" .
  then show "\<forall>p \<in> set (split_whitespace ''-c max_db_size=5GB''). \<not> starts_with p ''--max_db_size=''"
    by (simp add: starts_with_def)
qed

lemma password_read_back_witness:
  "\<exists>c'. password_phase (conn0 [Inr (encode (new_message (byte_of CHR ''p'') (as_bytes ''pw'' @ [0])) [] @ [88])]) = (Ok ''pw'', c')
    \<and> c_buf c' = [88]"
  using password_read_back [of "''pw''"
      "conn0 [Inr (encode (new_message (byte_of CHR ''p'') (as_bytes ''pw'' @ [0])) [] @ [88])]" "[88]" "[]"]
  by (auto simp: conn0_def wire_str_def ascii_str_def byte_of_def MAX_MESSAGE_SIZE_def)

end
