(* ===== verification/Client_Text.thy ===== *)
theory Client_Text
  imports Startup
begin

text \<open>
  What a client chooses ends up in the startup message \<^verbatim>\<open>connect_backend\<close> sends in its name, in pool keys and
  in error texts. Every text taken from a client (\<^verbatim>\<open>parse_startup_params\<close> of \<^verbatim>\<open>src/protocol/messages.rs\<close>, the
  startup and password phases of \<^verbatim>\<open>src/protocol/frontend.rs\<close>) is valid UTF-8 without a null byte, the
  invariant of a Rust string read from a C string, and parameter names are not empty; so the message to
  the server always reads back as the parameters it was built from.
\<close>

definition wire_params :: "params \<Rightarrow> bool" where
  "wire_params ps \<longleftrightarrow> (\<forall>(k, v) \<in> set ps. wire_str k \<and> k \<noteq> [] \<and> wire_str v)"

definition wire_info :: "startup_info \<Rightarrow> bool" where
  "wire_info info \<longleftrightarrow> wire_str (si_user info) \<and> wire_str (si_database info) \<and> wire_params (si_extra_params info)"

lemma from_utf8_wire: "from_utf8 (takeWhile (\<lambda>b. b \<noteq> 0) bs) = Some s \<Longrightarrow> wire_str s"
  using set_takeWhileD [of 0 "\<lambda>b. b \<noteq> 0" bs] by (auto simp: wire_str_def dest!: from_utf8_SomeD)

lemma wire_params_update: "wire_params ps \<Longrightarrow> wire_str k \<Longrightarrow> k \<noteq> [] \<Longrightarrow> wire_str v \<Longrightarrow> wire_params (AList.update k v ps)"
  by (induction ps) (auto simp: wire_params_def)

lemma parse_pairs_wire:
  "parse_pairs bs acc = Ok ps \<Longrightarrow> wire_params acc \<Longrightarrow> distinct (map fst acc) \<Longrightarrow> wire_params ps \<and> distinct (map fst ps)"
proof (induction bs acc rule: parse_pairs.induct)
  case (1 bs acc)
  show ?case
  proof (cases "bs = [] \<or> hd bs = 0")
    case True
    then show ?thesis using 1 by (simp add: parse_pairs.simps [of bs])
  next
    case False
    from 1(2) False obtain key b bs' val where
      k: "from_utf8 (takeWhile (\<lambda>b. b \<noteq> 0) bs) = Some key" "dropWhile (\<lambda>b. b \<noteq> 0) bs = b # bs'"
        "from_utf8 (takeWhile (\<lambda>b. b \<noteq> 0) bs') = Some val"
        "parse_pairs (drop 1 (dropWhile (\<lambda>b. b \<noteq> 0) bs')) (AList.update key val acc) = Ok ps"
      by (auto simp: parse_pairs.simps [of bs] split: option.splits list.splits)
    have "key \<noteq> []" using False from_utf8_SomeD [OF k(1)] by (cases bs) auto
    then have "wire_params (AList.update key val acc)"
      using 1(3) k(1,3) by (blast intro: wire_params_update from_utf8_wire)
    then show ?thesis using 1(1) [OF False k(1-3) k(4)] 1(4) by (simp add: distinct_update)
  qed
qed


lemma parse_startup_wire:
  "parse_startup_params p = Ok (v, ps) \<Longrightarrow> wire_params ps \<and> distinct (map fst ps)"
  using parse_pairs_wire [of "drop 4 p" "[]" ps]
  by (auto simp: parse_startup_params_def wire_params_def split: if_splits option.splits outcome.splits)

lemma param_wire: "wire_params ps \<Longrightarrow> param ps k = Some v \<Longrightarrow> wire_str v"
  by (auto simp: wire_params_def param_def dest!: map_of_SomeD)

lemma wire_str_Nil [simp]: "wire_str []"
  by (simp add: wire_str_def ascii_str_def)

lemma startup_of_fields:
  assumes "startup_of u ps = Ok info"
  shows "si_user info = (case param ps ''user'' of Some v \<Rightarrow> v | None \<Rightarrow> [])"
    and "si_database info = (case param ps ''database'' of Some v \<Rightarrow> v | None \<Rightarrow> si_user info)"
    and "si_extra_params info = extra_of ps"
  using assms by (auto simp: startup_of_def Let_def split: outcome.splits option.splits)

lemma startup_of_wire:
  assumes "startup_of u ps = Ok info" "wire_params ps"
  shows "wire_info info"
proof -
  have "wire_params (extra_of ps)" using assms(2) by (auto simp: wire_params_def extra_of_def)
  moreover have "wire_str (si_user info)"
    using param_wire [OF assms(2)] startup_of_fields(1) [OF assms(1)] by (auto split: option.splits)
  moreover from this have "wire_str (si_database info)"
    using param_wire [OF assms(2)] startup_of_fields(2) [OF assms(1)] by (auto split: option.splits)
  ultimately show ?thesis using startup_of_fields(3) [OF assms(1)] by (simp add: wire_info_def)
qed

lemma startup_step_wire: "startup_step u tls c = (Ok (Some (Started info)), c') \<Longrightarrow> wire_info info"
  by (auto simp: startup_step_def Let_def split: option.splits if_splits prod.splits sum.splits outcome.splits
      dest!: parse_startup_wire intro: startup_of_wire)

lemma startup_phase_wire: "startup_phase u tls c = (Ok (Started info), c') \<Longrightarrow> wire_info info"
proof (induction u tls c rule: startup_phase.induct)
  case (1 u tls c)
  obtain r1 c1 where m: "read_more ClientDisconnectedBeforeStartup c = (r1, c1)" by fastforce
  obtain r2 c2 where s: "startup_step u tls c1 = (r2, c2)" by fastforce
  have "r1 = Ok ()" "r2 = Ok None \<or> r2 = Ok (Some (Started info))"
    using 1(2) m s by (auto simp: startup_phase.simps [of u tls c] split: outcome.splits option.splits)
  then show ?case
    using 1 m s startup_step_wire [of u tls c1 info c2] by (auto simp: startup_phase.simps [of u tls c])
qed

lemma password_loop_wire: "password_loop c = (Ok pw, c') \<Longrightarrow> wire_str pw"
proof (induction c rule: password_loop.induct)
  case (1 c)
  obtain r1 c1 where m: "read_more ClientDisconnectedDuringAuth c = (r1, c1)" by fastforce
  obtain t rest where t: "try_read_message (c_buf c1) False = (t, rest)" by fastforce
  show ?case
  proof (cases "t = Inr None")
    case True
    then show ?thesis using 1 m t by (auto simp: password_loop.simps [of c] split: outcome.splits)
  next
    case False
    then show ?thesis using 1(2) m t
      by (auto simp: password_loop.simps [of c] split: outcome.splits sum.splits option.splits if_splits intro: from_utf8_wire)
  qed
qed

text \<open>
  C31. Every text the startup and password phases accept from a client is valid UTF-8 without a
  null byte, and parameter names are not empty.
\<close>

theorem client_strings_wire:
  assumes "startup_phase u tls c = (Ok (Started info), c1)" "password_phase c1 = (Ok pw, c2)"
  shows "wire_info info \<and> wire_str pw"
  using startup_phase_wire [OF assms(1)] assms(2) password_loop_wire
  by (auto simp: password_phase_def split: prod.splits sum.splits)

text \<open>
  The startup message sent to a server reads back as the client's names and parameters; only
  \<^verbatim>\<open>max_db_size\<close> and the whole of \<^verbatim>\<open>options\<close> are left out.
\<close>

definition forwarded_param :: "startup_info \<Rightarrow> params \<Rightarrow> string \<Rightarrow> string option" where
  "forwarded_param info ps k =
     (if k = ''user'' then Some (si_user info) else if k = ''database'' then Some (si_database info)
      else if k = ''max_db_size'' \<or> k = ''options'' then None else param ps k)"

lemma map_of_filter_keys: "map_of (filter (\<lambda>(k, _). k \<notin> S) ps) k = (if k \<in> S then None else map_of ps k)"
  by (induction ps) auto

lemma map_of_rev_distinct: "distinct (map fst xs) \<Longrightarrow> map_of (rev xs) = map_of xs"
proof (induction xs)
  case (Cons x xs)
  then have "map_of xs (fst x) = None" by (simp add: map_of_eq_None_iff)
  then show ?case using Cons by (auto simp: fun_eq_iff map_add_def split: option.splits)
qed simp

lemma forwarded_table:
  assumes "startup_of u ps = Ok info" "distinct (map fst ps)"
  shows "map_of (param_table [] ((''user'', si_user info) # (''database'', si_database info) # si_extra_params info)) k
    = forwarded_param info ps k"
proof -
  note e = startup_of_fields(3) [OF assms(1)]
  have d: "distinct (map fst (extra_of ps))" using assms(2) unfolding extra_of_def by (rule distinct_map_filter)
  have x: "map_of (rev (extra_of ps)) k =
      (if k \<in> {''user'', ''database'', ''max_db_size'', ''options''} then None else map_of ps k)"
    unfolding map_of_rev_distinct [OF d] by (simp only: extra_of_def map_of_filter_keys)
  show ?thesis
    by (simp add: map_of_param_table e map_add_def forwarded_param_def param_def x split: option.split)
qed

text \<open>
  C10. The startup message sent to the server in the name of a client reads back, with the same
  parser, as the user, the database and every other parameter the client sent, except max_db_size
  and options.
\<close>

theorem server_sees_client_parameters:
  assumes "parse_startup_params p = Ok (v, ps)" "startup_of u ps = Ok info"
    and "length (build_startup_message (si_user info) (si_database info) (si_extra_params info)) \<le> MAX_MESSAGE_SIZE"
  shows "\<exists>q ps'. try_read_message (build_startup_message (si_user info) (si_database info) (si_extra_params info)) True
      = (Inr (Some \<lparr>msg_type = 0, payload = q\<rparr>), [])
    \<and> parse_startup_params q = Ok (196608, ps') \<and> (\<forall>k. map_of ps' k = forwarded_param info ps k)"
proof -
  have w: "wire_info info" "distinct (map fst ps)"
    using parse_startup_wire [OF assms(1)] startup_of_wire [OF assms(2)] by blast+
  then show ?thesis
    using startup_message_roundtrip [OF _ _ _ assms(3)] forwarded_table [OF assms(2) w(2)]
    by (fastforce simp: wire_info_def wire_params_def)
qed

section \<open>Instances\<close>

lemma client_strings_wire_witness: "wire_info info0 \<and> wire_str ''pw''"
proof -
  let ?pw = "encode (new_message (byte_of CHR ''p'') (as_bytes ''pw'' @ [0])) []"
  let ?c = "conn0 [Inr (take 5 startup0), Inr (drop 5 startup0), Inr ?pw]"
  have s: "startup_phase (\<lambda>c. [c]) False ?c = (Ok (Started info0), ?c\<lparr>c_reads := [Inr ?pw], c_buf := []\<rparr>)"
    by (rule startup0_phase) (simp_all add: conn0_def)
  obtain c' where "password_phase (?c\<lparr>c_reads := [Inr ?pw], c_buf := []\<rparr>) = (Ok ''pw'', c')"
    using password_phase_reads [of "''pw''" "?c\<lparr>c_reads := [Inr ?pw], c_buf := []\<rparr>" "[]" "[]"]
    by (auto simp: conn0_def wire_str_def ascii_str_def byte_of_def MAX_MESSAGE_SIZE_def)
  from client_strings_wire [OF s this] show ?thesis .
qed

definition psql_info :: startup_info where
  "psql_info = info0\<lparr>si_extra_params := [(''application_name'', ''psql'')]\<rparr>"

lemma server_sees_client_parameters_witness:
  "\<exists>q ps'. try_read_message (build_startup_message ''bob'' ''app'' [(''application_name'', ''psql'')]) True
      = (Inr (Some \<lparr>msg_type = 0, payload = q\<rparr>), [])
    \<and> parse_startup_params q = Ok (196608, ps') \<and> map_of ps' ''application_name'' = Some ''psql''"
proof -
  let ?e = "[(''application_name'', ''psql'')]"
  let ?ps = "param_table [] ((''user'', ''bob'') # (''database'', ''app'') # ?e)"
  have e: "\<forall>(k, v) \<in> set ?e. wire_str k \<and> k \<noteq> [] \<and> wire_str v" by (simp add: wire_str_def ascii_str_def byte_of_def)
  have l: "length (build_startup_message ''bob'' ''app'' ?e) \<le> MAX_MESSAGE_SIZE"
    by (simp add: build_startup_message_def cstr_def MAX_MESSAGE_SIZE_def)
  obtain p where p: "parse_startup_params p = Ok (196608, ?ps)"
    using startup_message_roundtrip [OF startup0_wire e l] by blast
  have "startup_of (\<lambda>c. [c]) ?ps = Ok psql_info"
    by (simp add: startup_of_def param_def param_table_def requested_limit_def extra_of_def psql_info_def info0_def)
  from server_sees_client_parameters [OF p this] l show ?thesis
    by (force simp: psql_info_def info0_def forwarded_param_def param_def param_table_def)
qed

end
