(* ===== verification/Frontend.thy ===== *)
theory Frontend
  imports Proxy Monitor Startup
begin

text \<open>
  \<^verbatim>\<open>handle_client\<close> of \<^verbatim>\<open>src/protocol/frontend.rs\<close> as a whole: startup and password (of \<open>Startup\<close>),
  acquiring a backend connection, the greeting, the proxy phase (of \<open>Proxy\<close>) and the return of the
  connection; and the task that \<^verbatim>\<open>src/main.rs\<close> spawns around it. The parameters of a run are collected
  in \<open>client_run\<close>: what the client sends before the proxy phase, the passes of \<^verbatim>\<open>acquire\<close>, the events of
  the proxy phase, the result of the reset on release, and the outgoing side of each backend stream.
  Besides its result a run returns \<open>peers\<close>, what the two ends were sent.
\<close>

section \<open>Error texts sent to the client\<close>

text \<open>
  The \<^verbatim>\<open>Display\<close> text of an error. The errors shown to a client are those \<^verbatim>\<open>acquire\<close> returns, which
  never include a UTF-8 error, whose text names a byte position.
\<close>

fun show_error :: "pg_error \<Rightarrow> string" where
  "show_error (InvalidStartupLength n) = ''Invalid startup message length: '' @ show_nat n"
| "show_error (InvalidMessageLength n t) =
     ''Invalid message length: '' @ show_nat n @ '' for type '' @ [CHR 0x27] @ of_chars [unat t] @ [CHR 0x27]"
| "show_error StartupPayloadTooShort = ''Startup payload too short''"
| "show_error Utf8Error = ''invalid utf-8''"
| "show_error (IoError s) = s"
| "show_error (LibError s) = s"
| "show_error ClientDisconnectedBeforeStartup = ''Client disconnected before startup''"
| "show_error (UnsupportedProtocolVersion v) = ''Unsupported protocol version: '' @ show_i32 v"
| "show_error ClientDisconnectedDuringAuth = ''Client disconnected during auth''"
| "show_error InvalidPasswordMessage = ''Invalid password message''"
| "show_error (ExpectedPasswordMessage t) =
     ''Expected password message, got '' @ [CHR 0x27] @ of_chars [unat t] @ [CHR 0x27]"
| "show_error (BackendConnectionFailed e) = ''Backend connection failed: '' @ show_error e"
| "show_error BackendDisconnectedDuringAuth = ''Backend disconnected during auth''"
| "show_error InvalidAuthMessage = ''Invalid auth message''"
| "show_error InvalidMd5AuthMessage = ''Invalid MD5 auth message''"
| "show_error NoScramSha256 =
     ''Server requires SASL but doesn'' @ [CHR 0x27] @ ''t support SCRAM-SHA-256''"
| "show_error BackendDisconnectedDuringScram = ''Backend disconnected during SCRAM''"
| "show_error (UnexpectedAuthTypeDuringScram t) = ''Unexpected auth type during SCRAM: '' @ show_i32 t"
| "show_error (BackendErrorDuringScram s) = ''Backend error during SCRAM: '' @ s"
| "show_error BackendDisconnectedDuringScramFinal = ''Backend disconnected during SCRAM final''"
| "show_error (UnexpectedAuthTypeInScramFinal t) = ''Unexpected auth type in SCRAM final: '' @ show_i32 t"
| "show_error (UnsupportedAuthType t) = ''Unsupported auth type: '' @ show_i32 t"
| "show_error (BackendError s) = ''Backend error: '' @ s"
| "show_error BackendDisconnectedAfterAuth = ''Backend disconnected after auth''"
| "show_error (BackendErrorAfterAuth s) = ''Backend error after auth: '' @ s"
| "show_error BackendDisconnectedDuringReset = ''Backend disconnected during reset''"
| "show_error (ResetFailed s) = ''Reset failed: '' @ s"
| "show_error PoolTimeoutGlobal = ''Connection pool timeout: global limit reached''"
| "show_error PoolTimeoutPerPool = ''Connection pool timeout: per-pool limit reached''"
| "show_error PoolTimeout = ''Connection pool timeout''"
| "show_error (FailedToConnect k e) = ''Failed to connect to backend '' @ k @ '': '' @ show_error e"
| "show_error TlsPathsNotSet = ''TLS enabled but cert_path or key_path not set''"
| "show_error NoPrivateKey = ''No private key found in key file''"
| "show_error (WithContext s e) = s"

section \<open>The greeting\<close>

definition params_to_send :: "(string \<times> string) list" where
  "params_to_send =
     [(''server_version'', ''16.0''), (''server_encoding'', ''UTF8''), (''client_encoding'', ''UTF8''),
      (''DateStyle'', ''ISO, MDY''), (''TimeZone'', ''UTC''), (''integer_datetimes'', ''on''),
      (''standard_conforming_strings'', ''on'')]"

text \<open>The writes of phase 3 after a connection was acquired, in order, up to the first that fails.\<close>

definition greeting :: "i32 \<Rightarrow> i32 \<Rightarrow> bytes list" where
  "greeting pid secret =
     [build_auth_ok] @ map (\<lambda>(n, v). build_parameter_status n v) params_to_send
     @ [build_backend_key_data pid secret, build_ready_for_query (byte_of CHR ''I'')]"

fun send_each :: "bytes list \<Rightarrow> conn \<Rightarrow> (pg_error + unit) \<times> conn" where
  "send_each [] c = (Inr (), c)"
| "send_each (b # bs) c =
     (case send b c of (Inl e, c) \<Rightarrow> (Inl e, c) | (Inr _, c) \<Rightarrow> send_each bs c)"

section \<open>A client session\<close>

record shared =
  sh_pool :: pool_manager
  sh_mon :: db_monitor

text \<open>
  A pass of \<^verbatim>\<open>acquire\<close> with the attempt to connect it may make: \<open>d_tcp\<close> is the result of
  \<^verbatim>\<open>TcpStream::connect\<close> with what the server will send, \<open>d_stream\<close> the number of the new socket, which no
  other connection has.
\<close>

record dial =
  d_now :: nat
  d_wake :: wake
  d_tcp :: "pg_error + conn"
  d_stream :: stream

definition round_of :: "'sc auth_lib \<Rightarrow> dial \<Rightarrow> round" where
  "round_of lib d =
     \<lparr>r_now = d_now d, r_wake = d_wake d,
      r_connect = (\<lambda>k pw extra.
        case fst (connect_backend lib (d_tcp d) k pw extra) of
          Ok _ \<Rightarrow> Ok (d_stream d) | Err e \<Rightarrow> Err e | Panic \<Rightarrow> Panic | Pending \<Rightarrow> Pending)\<rparr>"

record client_run =
  cr_nodelay :: "pg_error + unit"
  cr_conn :: conn
  cr_tls :: bool
  cr_start :: nat
  cr_dials :: "dial list"
  cr_pid :: i32
  cr_secret :: i32
  cr_events :: "event list"
  cr_pooled_sock :: "stream \<Rightarrow> sock"
  cr_release_now :: nat
  cr_reset_reads :: "(pg_error + bytes) list"

text \<open>
  The outgoing side of an acquired connection: of a new one as \<^verbatim>\<open>connect_backend\<close> left it, of a pooled one
  as earlier clients left it.
\<close>

definition server_sock :: "'sc auth_lib \<Rightarrow> client_run \<Rightarrow> pool_key \<Rightarrow> string \<Rightarrow> (string \<times> string) list \<Rightarrow> stream \<Rightarrow> sock" where
  "server_sock lib run k pw extra s =
     (case find (\<lambda>d. d_stream d = s) (cr_dials run) of
        None \<Rightarrow> cr_pooled_sock run s
      | Some d \<Rightarrow> (case snd (connect_backend lib (d_tcp d) k pw extra) of
                     None \<Rightarrow> cr_pooled_sock run s
                   | Some c \<Rightarrow> c_sock c))"

text \<open>\<^verbatim>\<open>release\<close> with the call of \<^verbatim>\<open>reset_connection\<close> it makes.\<close>

definition release_connection :: "pool_key \<Rightarrow> stream \<Rightarrow> nat \<Rightarrow> conn \<Rightarrow> pool_manager
    \<Rightarrow> unit outcome \<times> conn \<times> pool_manager" where
  "release_connection k s now c pm =
     (case release_begin k pm of
        (False, pm) \<Rightarrow> (Ok (), c, pm)
      | (True, pm) \<Rightarrow>
        (case reset_connection c of
           (Ok _, c) \<Rightarrow> (Ok (), c, snd (release_end k s now (Inr ()) pm))
         | (Err e, c) \<Rightarrow> (Ok (), c, snd (release_end k s now (Inl e) pm))
         | (Panic, c) \<Rightarrow> (Panic, c, pm)
         | (Pending, c) \<Rightarrow> (Pending, c, pm)))"

text \<open>
  The outgoing side of the client, and of the backend connection if the session had one; \<open>unread\<close> is
  what the server sends after the part that was read, on a connection that went through \<^verbatim>\<open>release\<close>.
\<close>

record peers =
  to_cl :: sock
  to_srv :: "sock option"
  unread :: "(pg_error + bytes) list"

definition only_client :: "conn \<Rightarrow> peers" where
  "only_client c = \<lparr>to_cl = c_sock c, to_srv = None, unread = []\<rparr>"

definition pool_key_of :: "config \<Rightarrow> startup_info \<Rightarrow> pool_key" where
  "pool_key_of cfg info =
     \<lparr>pk_host = upstream_host cfg, pk_port = upstream_port cfg, pk_database = si_database info,
      pk_user = si_user info\<rparr>"

definition effective_limit :: "config \<Rightarrow> startup_info \<Rightarrow> u64" where
  "effective_limit cfg info = (case session_limit_of cfg info of Some l \<Rightarrow> l | None \<Rightarrow> 0)"

text \<open>The end of a session whose proxy phase returned.\<close>

definition session_end :: "client_run \<Rightarrow> pool_key \<Rightarrow> stream \<Rightarrow> u64 \<Rightarrow> proxy \<Rightarrow> shared \<Rightarrow> unit outcome \<times> peers \<times> shared" where
  "session_end run key s session_id px sh =
     (let sh = sh\<lparr>sh_mon := unregister_session session_id (sh_mon sh)\<rparr>
      in case release_connection key s (cr_release_now run)
                \<lparr>c_sock = px_server px, c_reads = cr_reset_reads run, c_buf = []\<rparr> (sh_pool sh) of
           (r, srv, pm) \<Rightarrow>
             (r, \<lparr>to_cl = px_client px, to_srv = Some (c_sock srv), unread = c_reads srv\<rparr>, sh\<lparr>sh_pool := pm\<rparr>))"

text \<open>From the acquired connection to the end of the session.\<close>

definition serve_session :: "(nat \<Rightarrow> nat list) \<Rightarrow> config \<Rightarrow> client_run \<Rightarrow> startup_info \<Rightarrow> stream \<Rightarrow> sock \<Rightarrow> conn \<Rightarrow> shared
    \<Rightarrow> unit outcome \<times> peers \<times> shared" where
  "serve_session u cfg run info s srv c sh =
     (let key = pool_key_of cfg info;
          sh = (case si_max_db_size info of
                  Some max_size \<Rightarrow> sh\<lparr>sh_mon := register_limit (pk_database key) max_size (sh_mon sh)\<rparr>
                | None \<Rightarrow> sh)
      in case send_each (greeting (cr_pid run) (cr_secret run)) c of
           (Inl e, c) \<Rightarrow> (Err e, \<lparr>to_cl = c_sock c, to_srv = Some srv, unread = []\<rparr>, sh)
         | (Inr _, c) \<Rightarrow>
             (case register_session (pk_database key) (effective_limit cfg info) (sh_mon sh) of
                ((session_id, flag), mon) \<Rightarrow>
                  let sh = sh\<lparr>sh_mon := mon\<rparr>;
                      px = \<lparr>px_client = c_sock c, px_server = srv, client_buf = [], server_buf = [],
                            px_scanner = scanner_new\<rparr>;
                      ctx = \<lparr>sc_key = key, sc_cfg = cfg, sc_info = info, sc_upper = u\<rparr>
                  in case proxy_phase ctx (cr_events run) px of
                       (Ok _, px) \<Rightarrow> session_end run key s session_id px sh
                     | (r, px) \<Rightarrow> (r, \<lparr>to_cl = px_client px, to_srv = Some (px_server px), unread = []\<rparr>, sh)))"

definition handle_client :: "(nat \<Rightarrow> nat list) \<Rightarrow> 'sc auth_lib \<Rightarrow> config \<Rightarrow> client_run \<Rightarrow> shared
    \<Rightarrow> unit outcome \<times> peers \<times> shared" where
  "handle_client u lib cfg run sh =
     (case cr_nodelay run of Inl e \<Rightarrow> (Err e, only_client (cr_conn run), sh) | Inr _ \<Rightarrow>
      case startup_phase u (cr_tls run) (cr_conn run) of
        (Ok Cancelled, c) \<Rightarrow> (Ok (), only_client c, sh)
      | (Ok (Started info), c) \<Rightarrow>
          (case password_phase c of
             (Ok password, c) \<Rightarrow>
               let info = info\<lparr>si_password := password\<rparr>; key = pool_key_of cfg info
               in (case acquire cfg (cr_start run) (map (round_of lib) (cr_dials run)) key (si_password info)
                          (si_extra_params info) (sh_pool sh) of
                     (Ok s, pm) \<Rightarrow>
                       serve_session u cfg run info s
                         (server_sock lib run key (si_password info) (si_extra_params info) s) c (sh\<lparr>sh_pool := pm\<rparr>)
                   | (Err e, pm) \<Rightarrow>
                       (case send (build_error_response ''FATAL'' ''28000'' (''Backend auth failed: '' @ show_error e)) c of
                          (Inl e', c) \<Rightarrow> (Err e', only_client c, sh\<lparr>sh_pool := pm\<rparr>)
                        | (Inr _, c) \<Rightarrow> (Err (BackendConnectionFailed e), only_client c, sh\<lparr>sh_pool := pm\<rparr>))
                   | (Panic, pm) \<Rightarrow> (Panic, only_client c, sh\<lparr>sh_pool := pm\<rparr>)
                   | (Pending, pm) \<Rightarrow> (Pending, only_client c, sh\<lparr>sh_pool := pm\<rparr>))
           | (Err e, c) \<Rightarrow> (Err e, only_client c, sh)
           | (Panic, c) \<Rightarrow> (Panic, only_client c, sh)
           | (Pending, c) \<Rightarrow> (Pending, only_client c, sh))
      | (Err e, c) \<Rightarrow> (Err e, only_client c, sh)
      | (Panic, c) \<Rightarrow> (Panic, only_client c, sh)
      | (Pending, c) \<Rightarrow> (Pending, only_client c, sh))"

text \<open>
  The task \<^verbatim>\<open>main\<close> spawns per client: both client metrics go up, the active one goes down when
  \<^verbatim>\<open>handle_client\<close> returns; a panic unwinds past the decrement.
\<close>

definition client_task :: "(nat \<Rightarrow> nat list) \<Rightarrow> 'sc auth_lib \<Rightarrow> config \<Rightarrow> client_run \<Rightarrow> metrics \<times> shared \<Rightarrow> metrics \<times> shared" where
  "client_task u lib cfg run msh =
     (case msh of (m, sh) \<Rightarrow>
        let m = m\<lparr>client_connections_total := client_connections_total m + 1,
                  client_connections_active := client_connections_active m + 1\<rparr>
        in case handle_client u lib cfg run sh of
             (Ok _, _, sh) \<Rightarrow> (m\<lparr>client_connections_active := client_connections_active m - 1\<rparr>, sh)
           | (Err _, _, sh) \<Rightarrow> (m\<lparr>client_connections_active := client_connections_active m - 1\<rparr>, sh)
           | (_, _, sh) \<Rightarrow> (m, sh))"

section \<open>Sessions: properties\<close>

lemma acquire_outstanding:
  "acquire cfg st rs k pw ex pm = (r, pm') \<Longrightarrow> outstanding pm' = outstanding pm + (case r of Ok _ \<Rightarrow> 1 | _ \<Rightarrow> 0)"
  unfolding acquire_def by (drule outstanding_acquire_loop) simp

lemma register_limit_sessions [simp]:
  "sessions (register_limit d l mon) = sessions mon" "session_id_counter (register_limit d l mon) = session_id_counter mon"
  by (simp_all add: register_limit_def)

lemma register_unregister:
  assumes "register_session d l mon = ((i, f), mon')" "session_id_counter mon \<notin> fst ` set (sessions mon)"
  shows "sessions (unregister_session i mon') = sessions mon"
  using assms by (auto simp: register_session_def Let_def unregister_session_def delete_update_fresh)

lemma register_unregister_limit:
  assumes "register_session d l (register_limit d' l' mon) = ((i, f), mon')"
    and "session_id_counter mon \<notin> fst ` set (sessions mon)"
  shows "sessions (unregister_session i mon') = sessions mon"
  using register_unregister [OF assms(1)] assms(2) by simp

definition fresh_id :: "shared \<Rightarrow> bool" where
  "fresh_id sh \<longleftrightarrow> session_id_counter (sh_mon sh) \<notin> fst ` set (sessions (sh_mon sh))"

text \<open>A release that returns is \<open>release\<close> of \<open>Pool\<close>; it never panics and never fails.\<close>

lemma release_connection_Ok:
  "release_connection k s now c pm = (Ok v, c', pm') \<Longrightarrow> \<exists>reset. pm' = release k s now reset pm"
  by (auto simp: release_connection_def release_def split: prod.splits bool.splits outcome.splits)

lemma release_connection_no_Err: "release_connection k s now c pm \<noteq> (Err e, c', pm')"
  by (auto simp: release_connection_def split: prod.split bool.split outcome.split)

lemma serve_session_Ok:
  assumes "serve_session u cfg run info s srv c sh = (Ok v, ps, sh')"
  shows "outstanding (sh_pool sh') = outstanding (sh_pool sh) - 1
    \<and> (fresh_id sh \<longrightarrow> sessions (sh_mon sh') = sessions (sh_mon sh))"
  using assms
  by (auto simp: serve_session_def session_end_def Let_def fresh_id_def outstanding_release
      split: option.splits prod.splits sum.splits outcome.splits
      dest: register_unregister register_unregister_limit dest!: release_connection_Ok)

lemma handle_client_Ok:
  assumes "handle_client u lib cfg run sh = (Ok v, ps, sh')"
  shows "outstanding (sh_pool sh') = outstanding (sh_pool sh)
    \<and> (fresh_id sh \<longrightarrow> sessions (sh_mon sh') = sessions (sh_mon sh))"
  using assms
  by (auto simp: handle_client_def Let_def fresh_id_def
      split: sum.splits prod.splits outcome.splits startup.splits dest!: serve_session_Ok acquire_outstanding)

text \<open>A client that is served to its end leaves the pool's ledger and the session registry as they were.\<close>

theorem served_client_leaves_nothing:
  assumes "handle_client u lib cfg run sh = (Ok v, ps, sh')"
  shows "outstanding (sh_pool sh') = outstanding (sh_pool sh)
    \<and> (fresh_id sh \<longrightarrow> sessions (sh_mon sh') = sessions (sh_mon sh))"
  by (rule handle_client_Ok [OF assms])

lemma serve_session_fails:
  assumes "serve_session u cfg run info s srv c sh = (Err e, ps, sh')"
  shows "sh_pool sh' = sh_pool sh"
  using assms
  by (auto simp: serve_session_def session_end_def Let_def release_connection_no_Err
      split: option.splits prod.splits sum.splits outcome.splits)

text \<open>The call of \<^verbatim>\<open>acquire\<close> a client makes.\<close>

definition acquires :: "'sc auth_lib \<Rightarrow> config \<Rightarrow> client_run \<Rightarrow> startup_info \<Rightarrow> string \<Rightarrow> shared \<Rightarrow> stream outcome \<times> pool_manager" where
  "acquires lib cfg run info pw sh =
     acquire cfg (cr_start run) (map (round_of lib) (cr_dials run)) (pool_key_of cfg info) pw (si_extra_params info) (sh_pool sh)"

lemma pool_key_of_password [simp]: "pool_key_of cfg (info\<lparr>si_password := pw\<rparr>) = pool_key_of cfg info"
  by (simp add: pool_key_of_def)

lemma handle_client_acquired:
  assumes "cr_nodelay run = Inr ()" "startup_phase u (cr_tls run) (cr_conn run) = (Ok (Started info), c)"
    and "password_phase c = (Ok pw, c')" "acquires lib cfg run info pw sh = (Ok s, pm)"
  shows "handle_client u lib cfg run sh =
    serve_session u cfg run (info\<lparr>si_password := pw\<rparr>) s
      (server_sock lib run (pool_key_of cfg info) pw (si_extra_params info) s) c' (sh\<lparr>sh_pool := pm\<rparr>)"
  using assms by (simp add: handle_client_def acquires_def)

text \<open>The gauge of active clients returns to its value unless the client's task panics or is still running.\<close>

theorem client_gauge:
  "client_connections_active (fst (client_task u lib cfg run (m, sh))) = client_connections_active m +
      (if fst (handle_client u lib cfg run sh) \<in> {Panic, Pending} then 1 else 0)
    \<and> client_connections_total (fst (client_task u lib cfg run (m, sh))) = client_connections_total m + 1"
  by (auto simp: client_task_def Let_def split: prod.splits outcome.splits)

end
