(* ===== verification/Conversations.thy ===== *)
theory Conversations
  imports Frontend
begin

text \<open>
  Runs of \<open>handle_client\<close> from the client's first byte to the end of its session: the served client, the
  first client of a pool, the refused one, and those a silent server keeps waiting. The section on
  instances has the concrete runs the examples of this and later theories use.
\<close>

section \<open>Quiet sessions\<close>

text \<open>A read that delivers bytes; one of the client does so while the session's over-limit flag is clear.\<close>

definition quiet :: "event \<Rightarrow> bool" where
  "quiet ev \<longleftrightarrow> (\<exists>d. ev_read ev = Inr d \<and> d \<noteq> []) \<and> (ev_side ev = Client \<longrightarrow> \<not> ev_flag ev 0)"

lemma fast_step_quiet:
  assumes "quiet ev" "scanner_wf (px_scanner px)" "room (px_client px) = None" "room (px_server px) = None"
    and "client_buf px = []" "server_buf px = []"
  shows "\<exists>px'. fast_step ev False px = (Ok None, False, px') \<and> scanner_wf (px_scanner px')
    \<and> sent (px_client px') = sent (px_client px) @ input Server [ev] \<and> room (px_client px') = None
    \<and> sent (px_server px') = sent (px_server px) @ input Client [ev] \<and> room (px_server px') = None
    \<and> client_buf px' = [] \<and> server_buf px' = []"
proof -
  obtain b d where d: "ev_read ev = Inr (b # d)" using assms(1) by (auto simp: quiet_def neq_Nil_conv)
  have f: "ev_side ev = Client \<Longrightarrow> \<not> ev_flag ev 0" using assms(1) by (simp add: quiet_def)
  have w: "scanner_wf (fst (scan (px_scanner px) (b # d)))" using scan_wf [OF assms(2)] by simp
  show ?thesis
    using assms(2-6) d f w
    by (cases "ev_side ev")
      (auto simp: fast_step_def to_server_def to_client_def write_all_def Let_def scan_in_range split: prod.split)
qed

lemma input_Cons: "input sd (ev # evs) = input sd [ev] @ input sd evs"
  by simp

lemma fast_loop_quiet:
  assumes "list_all quiet evs" "ev_read e = Inr []" "scanner_wf (px_scanner px)"
    and "room (px_client px) = None" "room (px_server px) = None" "client_buf px = []" "server_buf px = []"
  shows "\<exists>px'. fast_loop (evs @ e # rest) False px = (Ok ClientDisconnected, px', rest)
    \<and> sent (px_client px') = sent (px_client px) @ input Server evs
    \<and> sent (px_server px') = sent (px_server px) @ input Client evs \<and> room (px_server px') = None"
  using assms(1,3-7)
proof (induction evs arbitrary: px)
  case Nil
  then show ?case using assms(2) by (simp add: fast_step_def)
next
  case (Cons ev evs)
  then obtain px1 where 1: "fast_step ev False px = (Ok None, False, px1)" "scanner_wf (px_scanner px1)"
    "sent (px_client px1) = sent (px_client px) @ input Server [ev]" "room (px_client px1) = None"
    "sent (px_server px1) = sent (px_server px) @ input Client [ev]" "room (px_server px1) = None"
    "client_buf px1 = []" "server_buf px1 = []"
    using fast_step_quiet [of ev px] by (auto simp del: input.simps)
  then obtain px' where "fast_loop (evs @ e # rest) False px1 = (Ok ClientDisconnected, px', rest)"
    "sent (px_client px') = sent (px_client px1) @ input Server evs"
    "sent (px_server px') = sent (px_server px1) @ input Client evs" "room (px_server px') = None"
    using Cons.IH [of px1] Cons.prems(1) by auto
  then show ?case using 1 by (simp add: input_Cons [of _ ev evs] del: input.simps)
qed

lemma send_each_unlimited:
  "room (c_sock c) = None \<Longrightarrow>
     send_each bs c = (Inr (), c\<lparr>c_sock := (c_sock c)\<lparr>sent := sent (c_sock c) @ concat bs\<rparr>\<rparr>)"
  by (induction bs arbitrary: c) (simp_all add: send_unlimited)

text \<open>The server answers \<^verbatim>\<open>DISCARD ALL\<close>: a ReadyForQuery or error message is among what it sends, in any pieces.\<close>

definition answered :: "(pg_error + bytes) list \<Rightarrow> bool" where
  "answered rs \<longleftrightarrow> (\<exists>ds. rs = map Inr ds \<and> list_all (\<lambda>d. d \<noteq> []) ds
     \<and> find decisive (fst (drain (\<lambda>buf. try_read_message buf False) (concat ds))) \<noteq> None)"

lemma reset_answered:
  assumes "room (c_sock c) = None" "answered (c_reads c)"
  shows "\<exists>r c'. reset_connection c = (r, c') \<and> (r = Ok () \<or> r \<in> range Err) \<and> sent (c_sock c') = sent (c_sock c) @ discard_all"
proof -
  obtain ds where ds: "c_reads c = map Inr ds" "list_all (\<lambda>d. d \<noteq> []) ds"
    "find decisive (fst (drain (\<lambda>buf. try_read_message buf False) (concat ds))) \<noteq> None"
    using assms(2) unfolding answered_def by blast
  obtain ms e rest where d: "drain (\<lambda>buf. try_read_message buf False) (concat ds) = (ms, e, rest)" by (metis prod_cases3)
  let ?c = "c\<lparr>c_sock := (c_sock c)\<lparr>sent := sent (c_sock c) @ discard_all\<rparr>, c_buf := []\<rparr>"
  obtain r c' where u: "until_ready BackendDisconnectedDuringReset ResetFailed ?c = (r, c')" by fastforce
  have "try_read_message (c_buf ?c) False = (Inr None, c_buf ?c)" by (simp add: try_read_message_def)
  then have "r = Ok () \<or> r \<in> range Err"
    using until_ready_decides [of ?c ds ms e rest BackendDisconnectedDuringReset ResetFailed] ds d u
    by (auto simp: ruling_def split: if_splits)
  moreover have "reset_connection c = (r, c')" using u assms(1) by (simp add: reset_connection_def send_unlimited)
  ultimately show ?thesis using until_ready_sock [OF u] by simp
qed

lemma release_answered:
  assumes "get_pool pm k \<noteq> None" "room (c_sock c) = None" "answered (c_reads c)"
  shows "\<exists>c' pm'. release_connection k s now c pm = (Ok (), c', pm') \<and> sent (c_sock c') = sent (c_sock c) @ discard_all"
  using reset_answered [OF assms(2,3)] assms(1)
  by (auto simp: release_connection_def release_begin_def split: prod.split)

lemma serve_session_ends:
  assumes "room (c_sock c) = None" "room srv = None"
    and "cr_events run = evs @ e # rest" "list_all quiet evs" "ev_read e = Inr []"
  shows "\<exists>(px :: proxy) i mon. serve_session u cfg run info s srv c sh =
      session_end run (pool_key_of cfg info) s i px (sh\<lparr>sh_mon := mon\<rparr>)
    \<and> sent (px_client px) = sent (c_sock c) @ concat (greeting (cr_pid run) (cr_secret run)) @ input Server evs
    \<and> sent (px_server px) = sent srv @ input Client evs \<and> room (px_server px) = None"
proof -
  let ?g = "concat (greeting (cr_pid run) (cr_secret run))"
  let ?px = "\<lparr>px_client = (c_sock c)\<lparr>sent := sent (c_sock c) @ ?g\<rparr>, px_server = srv,
    client_buf = [], server_buf = [], px_scanner = scanner_new\<rparr>"
  obtain px' where px': "fast_loop (evs @ e # rest) False ?px = (Ok ClientDisconnected, px', rest)"
    "sent (px_client px') = (sent (c_sock c) @ ?g) @ input Server evs"
    "sent (px_server px') = sent srv @ input Client evs" "room (px_server px') = None"
    using fast_loop_quiet [OF assms(4,5), of ?px rest] assms(1,2) by auto
  have p: "proxy_phase ctx (cr_events run) ?px = (Ok (), px')" for ctx
    using assms(3) px'(1) by (simp add: proxy_phase.simps [of ctx "evs @ e # rest"] fast_proxy_loop_def)
  let ?mon = "case si_max_db_size info of Some l \<Rightarrow> register_limit (pk_database (pool_key_of cfg info)) l (sh_mon sh) | None \<Rightarrow> sh_mon sh"
  obtain i fl mon where m: "register_session (pk_database (pool_key_of cfg info)) (effective_limit cfg info) ?mon = ((i, fl), mon)"
    by (metis surj_pair)
  have "serve_session u cfg run info s srv c sh = session_end run (pool_key_of cfg info) s i px' (sh\<lparr>sh_mon := mon\<rparr>)"
    using p send_each_unlimited [OF assms(1)] m
    by (auto simp: serve_session_def Let_def split: option.splits)
  then show ?thesis using px'(2-4) unfolding append.assoc by blast
qed

text \<open>
  The run of a client up to the call of \<^verbatim>\<open>acquire\<close>: a startup packet with the parameters \<open>kvs\<close> and a
  password message, each in any pieces but not in one read together; \<open>x\<close> is what follows the password in
  the last of its reads.
\<close>

definition well_sent :: "client_run \<Rightarrow> (string \<times> string) list \<Rightarrow> string \<Rightarrow> bytes \<Rightarrow> bool" where
  "well_sent run kvs pw x \<longleftrightarrow>
     (\<exists>ds ps l later. concat ds = startup_packet kvs \<and> list_all (\<lambda>d. d \<noteq> []) ds
        \<and> concat ps @ l = encode (new_message (byte_of CHR ''p'') (as_bytes pw @ [0])) [] @ x \<and> list_all (\<lambda>d. d \<noteq> []) ps
        \<and> length x < length l \<and> c_reads (cr_conn run) = map Inr ds @ map Inr ps @ Inr l # later)
     \<and> (\<forall>(k, v) \<in> set kvs. wire_str k \<and> k \<noteq> [] \<and> wire_str v) \<and> length (startup_packet kvs) < 2147483648
     \<and> wire_str pw \<and> length pw + 5 \<le> MAX_MESSAGE_SIZE
     \<and> cr_nodelay run = Inr () \<and> c_buf (cr_conn run) = [] \<and> room (c_sock (cr_conn run)) = None"

lemma admitted_client:
  assumes "well_sent run kvs pw x" "startup_of u (param_table [] kvs) = Ok info"
  shows "\<exists>c c'. startup_phase u (cr_tls run) (cr_conn run) = (Ok (Started info), c) \<and> password_phase c = (Ok pw, c')
    \<and> c_sock c' = (c_sock (cr_conn run))\<lparr>sent := sent (c_sock (cr_conn run)) @ build_auth_cleartext_request\<rparr>"
proof -
  let ?c = "cr_conn run"
  obtain ds ps l later where ds: "concat ds = startup_packet kvs" "list_all (\<lambda>d. d \<noteq> []) ds"
    "concat ps @ l = encode (new_message (byte_of CHR ''p'') (as_bytes pw @ [0])) [] @ x" "list_all (\<lambda>d. d \<noteq> []) ps"
    "length x < length l" "c_reads ?c = map Inr ds @ map Inr ps @ Inr l # later" using assms(1) unfolding well_sent_def by blast
  have w: "\<forall>(k, v) \<in> set kvs. wire_str k \<and> k \<noteq> [] \<and> wire_str v" "length (startup_packet kvs) < 2147483648"
    "wire_str pw" "length pw + 5 \<le> MAX_MESSAGE_SIZE" "c_buf ?c = []" "room (c_sock ?c) = None"
    using assms(1) unfolding well_sent_def by blast+
  let ?c1 = "?c\<lparr>c_reads := map Inr ps @ Inr l # later, c_buf := []\<rparr>"
  have 1: "startup_phase u (cr_tls run) ?c = (Ok (Started info), ?c1)"
    by (rule startup_packet_chunks [OF w(1,2) assms(2) ds(1,2) w(5) ds(6)])
  have "\<exists>c'. password_phase ?c1 = (Ok pw, c')
      \<and> c_sock c' = (c_sock ?c)\<lparr>sent := sent (c_sock ?c) @ build_auth_cleartext_request\<rparr>"
    using password_phase_pieces [OF w(3,4) _ _ _ ds(4,3,5), of ?c1 later] w(6) by auto
  then show ?thesis using 1 by blast
qed

lemma handle_client_ends:
  assumes "well_sent run kvs pw x"
    and "startup_of u (param_table [] kvs) = Ok info"
    and "acquires lib cfg run info pw sh = (Ok s, pm)"
    and "srv = server_sock lib run (pool_key_of cfg info) pw (si_extra_params info) s" "room srv = None"
    and "cr_events run = evs @ e # rest" "list_all quiet evs" "ev_read e = Inr []"
  shows "\<exists>(px :: proxy) i mon.
      handle_client u lib cfg run sh = session_end run (pool_key_of cfg info) s i px (sh\<lparr>sh_pool := pm, sh_mon := mon\<rparr>)
    \<and> sent (px_client px) = sent (c_sock (cr_conn run)) @ build_auth_cleartext_request
        @ concat (greeting (cr_pid run) (cr_secret run)) @ input Server evs
    \<and> sent (px_server px) = sent srv @ input Client evs \<and> room (px_server px) = None
    \<and> get_pool pm (pool_key_of cfg info) \<noteq> None"
proof -
  obtain c c' where c: "startup_phase u (cr_tls run) (cr_conn run) = (Ok (Started info), c)"
    "password_phase c = (Ok pw, c')"
    "c_sock c' = (c_sock (cr_conn run))\<lparr>sent := sent (c_sock (cr_conn run)) @ build_auth_cleartext_request\<rparr>"
    using admitted_client [OF assms(1,2)] by metis
  have r: "room (c_sock c') = None" "cr_nodelay run = Inr ()" using c(3) assms(1) by (simp_all add: well_sent_def)
  have "get_pool pm (pool_key_of cfg info) \<noteq> None"
    using assms(3) acquire_keeps_pool unfolding acquires_def by blast
  then show ?thesis
    using serve_session_ends [OF r(1) assms(5-8), of u cfg "info\<lparr>si_password := pw\<rparr>" s "sh\<lparr>sh_pool := pm\<rparr>"] c(3)
    unfolding handle_client_acquired [OF r(2) c(1,2) assms(3)] assms(4) [symmetric] by simp
qed

lemma session_end_answered:
  assumes "room (px_server px) = None" "answered (cr_reset_reads run)" "get_pool (sh_pool sh) key \<noteq> None"
  shows "\<exists>ps sh'. session_end run key s i px sh = (Ok (), ps, sh') \<and> to_cl ps = px_client px
    \<and> (\<exists>k. to_srv ps = Some k \<and> sent k = sent (px_server px) @ discard_all)"
  using release_answered [OF assms(3), of "\<lparr>c_sock = px_server px, c_reads = cr_reset_reads run, c_buf = []\<rparr>" s "cr_release_now run"]
    assms(1,2)
  by (auto simp: session_end_def Let_def)

text \<open>
  A client whose startup message arrives in any pieces and whose password message is well formed is
  served to the end when \<^verbatim>\<open>acquire\<close> succeeds: it is sent the password request, the greeting and what
  the server sends; the server is sent what the client sends after the greeting, but not the bytes
  \<open>x\<close> that arrived in one read with the password.
\<close>

lemma served_result:
  assumes "well_sent run kvs pw x"
    and "startup_of u (param_table [] kvs) = Ok info"
    and "acquires lib cfg run info pw sh = (Ok s, pm)"
    and "srv = server_sock lib run (pool_key_of cfg info) pw (si_extra_params info) s" "room srv = None"
    and "cr_events run = evs @ e # rest" "list_all quiet evs" "ev_read e = Inr []" "answered (cr_reset_reads run)"
  shows "\<exists>ps sh'. handle_client u lib cfg run sh = (Ok (), ps, sh')
    \<and> sent (to_cl ps) = sent (c_sock (cr_conn run)) @ build_auth_cleartext_request
        @ concat (greeting (cr_pid run) (cr_secret run)) @ input Server evs
    \<and> (\<exists>k. to_srv ps = Some k \<and> sent k = sent srv @ input Client evs @ discard_all)"
proof -
  obtain px :: proxy and i mon where
    "handle_client u lib cfg run sh = session_end run (pool_key_of cfg info) s i px (sh\<lparr>sh_pool := pm, sh_mon := mon\<rparr>)"
    "sent (px_client px) = sent (c_sock (cr_conn run)) @ build_auth_cleartext_request
        @ concat (greeting (cr_pid run) (cr_secret run)) @ input Server evs"
    "sent (px_server px) = sent srv @ input Client evs" "room (px_server px) = None" "get_pool pm (pool_key_of cfg info) \<noteq> None"
    using handle_client_ends [OF assms(1-8)] by blast
  then show ?thesis
    using session_end_answered [OF _ assms(9), of px "sh\<lparr>sh_pool := pm, sh_mon := mon\<rparr>" "pool_key_of cfg info" s i] by auto
qed

text \<open>
  C8. A client whose startup packet (any parameters, in any order) and password message each
  arrive in any pieces is served to the end when acquire succeeds, no write fails, the over-limit
  flag is clear at every read of the client, the peers send until one of them closes and the
  server answers DISCARD ALL: the client is sent the password request, the greeting and every byte
  the server sends, the server every byte the client sends after the greeting (bytes that arrive
  in one read with the end of the password are dropped) and then DISCARD ALL, and handle_client
  returns Ok.
\<close>

theorem client_is_served:
  assumes "well_sent run kvs pw x"
    and "startup_of u (param_table [] kvs) = Ok info"
    and "acquires lib cfg run info pw sh = (Ok s, pm)"
    and "srv = server_sock lib run (pool_key_of cfg info) pw (si_extra_params info) s" "room srv = None"
    and "cr_events run = evs @ e # rest" "list_all quiet evs" "ev_read e = Inr []" "answered (cr_reset_reads run)"
  shows "\<exists>ps sh'. handle_client u lib cfg run sh = (Ok (), ps, sh')
    \<and> sent (to_cl ps) = sent (c_sock (cr_conn run)) @ build_auth_cleartext_request
        @ concat (greeting (cr_pid run) (cr_secret run)) @ input Server evs
    \<and> (\<exists>k. to_srv ps = Some k \<and> sent k = sent srv @ input Client evs @ discard_all)"
  by (rule served_result [OF assms])

lemma refused_result:
  assumes "well_sent run kvs pw x"
    and "startup_of u (param_table [] kvs) = Ok info"
    and "acquires lib cfg run info pw sh = (Err e, pm)"
  shows "\<exists>ps. handle_client u lib cfg run sh = (Err (BackendConnectionFailed e), ps, sh\<lparr>sh_pool := pm\<rparr>)
    \<and> sent (to_cl ps) = sent (c_sock (cr_conn run)) @ build_auth_cleartext_request
        @ build_error_response ''FATAL'' ''28000'' (''Backend auth failed: '' @ show_error e)
    \<and> to_srv ps = None"
proof -
  obtain c c' where c: "startup_phase u (cr_tls run) (cr_conn run) = (Ok (Started info), c)"
    "password_phase c = (Ok pw, c')"
    "c_sock c' = (c_sock (cr_conn run))\<lparr>sent := sent (c_sock (cr_conn run)) @ build_auth_cleartext_request\<rparr>"
    using admitted_client [OF assms(1,2)] by metis
  have r: "room (c_sock c') = None" "cr_nodelay run = Inr ()" using c(3) assms(1) by (simp_all add: well_sent_def)
  then show ?thesis
    using c assms(3) send_unlimited [OF r(1)] by (simp add: handle_client_def only_client_def acquires_def)
qed

text \<open>When \<^verbatim>\<open>acquire\<close> fails, the client is sent the reason after the password request and nothing else.\<close>

theorem refused_client_sees_error:
  assumes "well_sent run kvs pw x"
    and "startup_of u (param_table [] kvs) = Ok info"
    and "acquires lib cfg run info pw sh = (Err e, pm)"
  shows "\<exists>ps. handle_client u lib cfg run sh = (Err (BackendConnectionFailed e), ps, sh\<lparr>sh_pool := pm\<rparr>)
    \<and> sent (to_cl ps) = sent (c_sock (cr_conn run)) @ build_auth_cleartext_request
        @ build_error_response ''FATAL'' ''28000'' (''Backend auth failed: '' @ show_error e)
    \<and> to_srv ps = None"
  by (rule refused_result [OF assms])

section \<open>The first client of a pool\<close>

text \<open>
  When no connection is pooled, the outcome for a client is decided by the server. One that asks for a
  cleartext password and accepts it is sent the startup message of the client's names, the password,
  the client's bytes and \<^verbatim>\<open>DISCARD ALL\<close>.
\<close>

lemma first_dial:
  assumes "vacant (pool_cfg cfg) (pool_key_of cfg info) (sh_pool sh)" "cr_dials run = d # ds"
  shows "fst (acquires lib cfg run info pw sh) =
    (case fst (connect_backend lib (d_tcp d) (pool_key_of cfg info) pw (si_extra_params info)) of
       Ok _ \<Rightarrow> Ok (d_stream d) | Err e \<Rightarrow> Err (FailedToConnect (display_key (pool_key_of cfg info)) e)
     | Panic \<Rightarrow> Panic | Pending \<Rightarrow> Pending)"
  using assms(2) by (simp add: acquires_def acquire_vacant [OF assms(1)] round_of_def split: outcome.split)

text \<open>
  C9. When no connection is pooled, both limits leave room, the over-limit flag is clear at every
  read of the client and the server logs the client in with a cleartext password, handle_client
  serves the client to the end: the server is sent exactly the startup message with the client's
  names and parameters, the client's password, the client's bytes and DISCARD ALL. The login is
  any byte stream, cut into reads in any way, whose messages are a cleartext password request,
  AuthenticationOk and ReadyForQuery in this order, with parameter status, key data or other
  messages anywhere between them.
\<close>

theorem first_client_is_served:
  assumes "well_sent run kvs pw x"
    and "startup_of u (param_table [] kvs) = Ok info"
    and "vacant (pool_cfg cfg) (pool_key_of cfg info) (sh_pool sh)" "cr_dials run = d # ds" "d_tcp d = Inr c"
    and "room (c_sock c) = None" "al_password_message lib (as_bytes pw) = Inr reply"
    and "c_reads c = map Inr login" "list_all (\<lambda>d. d \<noteq> []) login" "admits (fst (drain (\<lambda>buf. try_read_message buf False) (concat login)))"
    and "cr_events run = evs @ e # rest" "list_all quiet evs" "ev_read e = Inr []" "answered (cr_reset_reads run)"
  shows "\<exists>ps sh'. handle_client u lib cfg run sh = (Ok (), ps, sh')
    \<and> sent (to_cl ps) = sent (c_sock (cr_conn run)) @ build_auth_cleartext_request
        @ concat (greeting (cr_pid run) (cr_secret run)) @ input Server evs
    \<and> (\<exists>k. to_srv ps = Some k \<and> sent k = sent (c_sock c)
        @ build_startup_message (si_user info) (si_database info) (si_extra_params info) @ reply
        @ input Client evs @ discard_all)"
proof -
  let ?k = "pool_key_of cfg info"
  obtain c' where c': "connect_backend lib (Inr c) ?k pw (si_extra_params info) = (Ok (), Some c')"
    "c_sock c' = (c_sock c)\<lparr>sent := sent (c_sock c) @ build_startup_message (pk_user ?k) (pk_database ?k) (si_extra_params info) @ reply\<rparr>"
    using cleartext_connects [OF assms(6-10)] by blast
  obtain pm where a: "acquires lib cfg run info pw sh = (Ok (d_stream d), pm)"
    using first_dial [OF assms(3,4), of lib pw] c'(1) assms(5) by (cases "acquires lib cfg run info pw sh") simp
  have "server_sock lib run ?k pw (si_extra_params info) (d_stream d) = c_sock c'"
    using assms(4,5) c'(1) by (simp add: server_sock_def)
  then show ?thesis
    using served_result [OF assms(1,2) a, of "c_sock c'" evs e rest] assms(6,11-14) c'(2) by (simp add: pool_key_of_def)
qed

text \<open>A server that rejects the password: the client is told why, in the server's words.\<close>

text \<open>
  C25. When no connection is pooled and the server asks for a cleartext password and then rejects
  it with an error message (of the shape build_error_response produces), the client has been sent
  the password request and a FATAL error response that names the backend and repeats the server's
  text, and handle_client returns an error.
\<close>

theorem rejected_password_is_reported:
  assumes "well_sent run kvs pw x"
    and "startup_of u (param_table [] kvs) = Ok info"
    and "vacant (pool_cfg cfg) (pool_key_of cfg info) (sh_pool sh)" "cr_dials run = d # ds" "d_tcp d = Inr c"
    and "room (c_sock c) = None" "al_password_message lib (as_bytes pw) = Inr reply"
    and "c_reads c = Inr build_auth_cleartext_request # Inr (build_error_response sev code msg) # rs"
    and "wire_str sev" "wire_str code" "wire_str msg" "msg \<noteq> []"
    and "2 * length sev + length code + length msg + 13 \<le> MAX_MESSAGE_SIZE"
  shows "\<exists>e ps sh'. handle_client u lib cfg run sh = (Err e, ps, sh')
    \<and> sent (to_cl ps) = sent (c_sock (cr_conn run)) @ build_auth_cleartext_request
        @ build_error_response ''FATAL'' ''28000'' (''Backend auth failed: Failed to connect to backend ''
            @ display_key (pool_key_of cfg info) @ '': Backend error: '' @ msg)"
proof -
  let ?e = "FailedToConnect (display_key (pool_key_of cfg info)) (BackendError msg)"
  obtain pm where "acquires lib cfg run info pw sh = (Err ?e, pm)"
    using first_dial [OF assms(3,4), of lib pw] assms(5)
      password_rejected [OF assms(6-13), of "pool_key_of cfg info" "si_extra_params info"]
    by (cases "acquires lib cfg run info pw sh") simp
  from refused_result [OF assms(1,2) this] show ?thesis by auto
qed

text \<open>
  Neither connecting nor resetting has a time limit: a server that accepts the TCP connection and
  stays silent keeps the client waiting, and a server that never answers \<^verbatim>\<open>DISCARD ALL\<close> keeps the
  task of a client that has already left, with its connection counted as lent.
\<close>

lemma silent_server: "c_reads c = [] \<Longrightarrow> room (c_sock c) = None \<Longrightarrow> fst (connect_backend lib (Inr c) k pw ex) = Pending"
  by (simp add: connect_backend_def send_unlimited auth_loop.simps read_more_def)

lemma silent_release:
  assumes "get_pool pm k \<noteq> None" "room (c_sock c) = None" "c_reads c = []"
  shows "\<exists>c' pm'. release_connection k s now c pm = (Pending, c', pm') \<and> outstanding pm' = outstanding pm"
  using assms
  by (auto simp: release_connection_def release_begin_def reset_connection_def send_unlimited until_ready.simps read_more_def
      outstanding_def idle_streams_upd_same)

theorem silent_server_holds_client:
  assumes "well_sent run kvs pw x"
    and "startup_of u (param_table [] kvs) = Ok info"
    and "vacant (pool_cfg cfg) (pool_key_of cfg info) (sh_pool sh)" "cr_dials run = d # ds" "d_tcp d = Inr c"
    and "room (c_sock c) = None" "c_reads c = []"
  shows "fst (handle_client u lib cfg run sh) = Pending"
proof -
  obtain c1 c2 where c: "startup_phase u (cr_tls run) (cr_conn run) = (Ok (Started info), c1)" "password_phase c1 = (Ok pw, c2)"
    using admitted_client [OF assms(1,2)] by metis
  obtain pm where "acquires lib cfg run info pw sh = (Pending, pm)"
    using first_dial [OF assms(3,4), of lib pw] silent_server [OF assms(7,6), of lib "pool_key_of cfg info" pw "si_extra_params info"] assms(5)
    by (cases "acquires lib cfg run info pw sh") simp
  then show ?thesis using c assms(1) by (simp add: handle_client_def acquires_def well_sent_def)
qed

text \<open>
  C28. release has no time limit: when the server never answers DISCARD ALL, the task of a client
  that has already left never ends and its connection goes on being counted as lent.
\<close>

theorem unanswered_reset_keeps_connection:
  assumes "well_sent run kvs pw x"
    and "startup_of u (param_table [] kvs) = Ok info"
    and "acquires lib cfg run info pw sh = (Ok s, pm)"
    and "room (server_sock lib run (pool_key_of cfg info) pw (si_extra_params info) s) = None"
    and "cr_events run = evs @ e # rest" "list_all quiet evs" "ev_read e = Inr []" "cr_reset_reads run = []"
  shows "\<exists>ps sh'. handle_client u lib cfg run sh = (Pending, ps, sh')
    \<and> outstanding (sh_pool sh') = outstanding (sh_pool sh) + 1"
proof -
  let ?k = "pool_key_of cfg info"
  obtain px :: proxy and i mon where
    "handle_client u lib cfg run sh = session_end run ?k s i px (sh\<lparr>sh_pool := pm, sh_mon := mon\<rparr>)"
    "room (px_server px) = None" "get_pool pm ?k \<noteq> None"
    using handle_client_ends [OF assms(1-3) refl assms(4-7)] by blast
  moreover have "outstanding pm = outstanding (sh_pool sh) + 1"
    using acquire_outstanding assms(3) by (fastforce simp: acquires_def)
  ultimately show ?thesis
    using silent_release [of pm ?k "\<lparr>c_sock = px_server px, c_reads = [], c_buf = []\<rparr>" s "cr_release_now run"] assms(8)
    by (auto simp: session_end_def Let_def)
qed

text \<open>
  C21. A session that ends in an error after acquire succeeded never returns its connection: the
  counters go on counting it as lent.
\<close>

theorem failed_session_leaks_connection:
  assumes "handle_client u lib cfg run sh = (Err e, ps, sh')" "cr_nodelay run = Inr ()"
    and "startup_phase u (cr_tls run) (cr_conn run) = (Ok (Started info), c)"
    and "password_phase c = (Ok pw, c')" "acquires lib cfg run info pw sh = (Ok s, pm)"
  shows "outstanding (sh_pool sh') = outstanding (sh_pool sh) + 1"
proof -
  have "sh_pool sh' = pm"
    using assms(1) serve_session_fails unfolding handle_client_acquired [OF assms(2-5)] by fastforce
  then show ?thesis using acquire_outstanding assms(5) by (fastforce simp: acquires_def)
qed

section \<open>Instances\<close>

definition pw0 :: bytes where
  "pw0 = encode (new_message (byte_of CHR ''p'') (as_bytes ''pw'' @ [0])) []"

definition server0 :: conn where
  "server0 = conn0 (map Inr login0)"

definition run0 :: "event list \<Rightarrow> client_run" where
  "run0 evs =
     \<lparr>cr_nodelay = Inr (), cr_conn = conn0 [Inr (take 5 startup0), Inr (drop 5 startup0), Inr (take 3 pw0), Inr (drop 3 pw0)], cr_tls = False,
      cr_start = 0, cr_dials = [\<lparr>d_now = 0, d_wake = TimedOut, d_tcp = Inr server0, d_stream = 9\<rparr>],
      cr_pid = 1, cr_secret = 2, cr_events = evs, cr_pooled_sock = (\<lambda>_. \<lparr>sent = [], room = None\<rparr>),
      cr_release_now = 0, cr_reset_reads = [Inr (build_ready_for_query 73)]\<rparr>"

definition eof0 :: event where
  "eof0 = \<lparr>ev_side = Client, ev_read = Inr [], ev_flag = (\<lambda>_. False), ev_size = (\<lambda>_. None)\<rparr>"

definition broken0 :: event where
  "broken0 = \<lparr>ev_side = Client, ev_read = Inl (IoError ''reset by peer''), ev_flag = (\<lambda>_. False), ev_size = (\<lambda>_. None)\<rparr>"

definition shared0 :: shared where
  "shared0 = \<lparr>sh_pool = pool_manager_new metrics_new, sh_mon = monitor_new metrics_new\<rparr>"

lemma run0_startup:
  "startup_phase u False (cr_conn (run0 evs)) = (Ok (Started info0), conn0 [Inr (take 3 pw0), Inr (drop 3 pw0)])"
  using startup0_phase [of "cr_conn (run0 evs)" "[Inr (take 3 pw0), Inr (drop 3 pw0)]" u False] by (simp add: run0_def conn0_def)

lemma run0_password:
  "\<exists>c'. password_phase (conn0 [Inr (take 3 pw0), Inr (drop 3 pw0)]) = (Ok ''pw'', c') \<and> room (c_sock c') = None"
  using password_phase_pieces [of "''pw''" "conn0 [Inr (take 3 pw0), Inr (drop 3 pw0)]" "[take 3 pw0]" "drop 3 pw0" "[]" "[]"]
  by (auto simp: conn0_def pw0_def wire_str_def ascii_str_def byte_of_def MAX_MESSAGE_SIZE_def encode_def new_message_def)

lemma server0_connects:
  "\<exists>c reply. connect_backend lib0 (Inr server0) (pool_key_of default_config info0) ''pw'' [] = (Ok (), Some c)
     \<and> c_sock c = \<lparr>sent = build_startup_message ''bob'' ''app'' [] @ reply, room = None\<rparr>"
proof -
  obtain reply where "al_password_message lib0 (as_bytes ''pw'') = Inr reply" by (simp add: lib0_def)
  from cleartext_connects [OF _ this _ login0_admits, of server0 "pool_key_of default_config info0" "[]"] show ?thesis
    by (auto simp: server0_def conn0_def pool_key_of_def info0_def)
qed

lemma vacant0: "vacant (pool_cfg default_config) k (sh_pool shared0)"
  by (simp add: vacant_def shared0_def pool_manager_new_def get_pool_def default_config_def default_pool_config_def)

lemma run0_acquires: "\<exists>pm. acquires lib0 default_config (run0 evs) info0 ''pw'' shared0 = (Ok 9, pm)"
proof -
  have e: "si_extra_params info0 = []" by (simp add: info0_def)
  have "fst (acquires lib0 default_config (run0 evs) info0 ''pw'' shared0) = Ok 9"
    using server0_connects
    by (subst first_dial [OF vacant0, of "run0 evs" "\<lparr>d_now = 0, d_wake = TimedOut, d_tcp = Inr server0, d_stream = 9\<rparr>" "[]"])
      (auto simp: run0_def e)
  then show ?thesis by (cases "acquires lib0 default_config (run0 evs) info0 ''pw'' shared0") simp
qed

lemma run0_answered: "answered (cr_reset_reads (run0 evs))"
proof -
  have "drain (\<lambda>buf. try_read_message buf False) (build_ready_for_query 73) = ([\<lparr>msg_type = byte_of CHR ''Z'', payload = [73]\<rparr>], None, [])"
    using message_reader.drain_step [OF fixed_builders_read_back(3) [of 73 "[]"]] message_reader.drain_stop [of "[]"]
    by (simp add: try_read_message_def)
  then show ?thesis unfolding answered_def
    by (intro exI [of _ "[build_ready_for_query 73]"]) (simp add: run0_def decisive_def)
qed

lemma run0_served:
  "\<exists>c pm srv. handle_client u lib0 default_config (run0 evs) shared0 =
       serve_session u default_config (run0 evs) (info0\<lparr>si_password := ''pw''\<rparr>) 9 srv c (shared0\<lparr>sh_pool := pm\<rparr>)
     \<and> room (c_sock c) = None"
proof -
  obtain c where c: "password_phase (conn0 [Inr (take 3 pw0), Inr (drop 3 pw0)]) = (Ok ''pw'', c)" "room (c_sock c) = None"
    using run0_password by blast
  obtain pm where pm: "acquires lib0 default_config (run0 evs) info0 ''pw'' shared0 = (Ok 9, pm)" using run0_acquires by blast
  have f: "cr_nodelay (run0 evs) = Inr ()" "cr_tls (run0 evs) = False" by (simp_all add: run0_def)
  from handle_client_acquired [OF f(1) _ c(1) pm, of u] run0_startup [of u evs] f(2) c(2) show ?thesis by auto
qed

lemma proxy_eof: "proxy_phase ctx [eof0] px = (Ok (), px)"
  by (simp add: proxy_phase.simps fast_proxy_loop_def fast_step_def eof0_def)

lemma proxy_broken: "proxy_phase ctx [broken0] px = (Err (IoError ''reset by peer''), px)"
  by (simp add: proxy_phase.simps fast_proxy_loop_def fast_step_def broken0_def)

lemma run0_serve:
  assumes "room (c_sock c) = None"
  shows "fst (serve_session u cfg (run0 [broken0]) info s srv c sh) = Err (IoError ''reset by peer'')"
proof -
  obtain c' where "send_each (greeting 1 2) c = (Inr (), c')" using send_each_unlimited [OF assms] by blast
  then show ?thesis by (simp add: serve_session_def run0_def Let_def proxy_broken split: prod.split)
qed

lemma run0_well_sent: "well_sent (run0 evs) kvs0 ''pw'' []"
  unfolding well_sent_def
  using startup0_chunks kvs0_wire
  by (intro conjI exI [of _ "[take 5 startup0, drop 5 startup0]"] exI [of _ "[take 3 pw0]"] exI [of _ "drop 3 pw0"] exI [of _ "[]"])
    (simp_all add: run0_def conn0_def pw0_def wire_str_def ascii_str_def byte_of_def MAX_MESSAGE_SIZE_def encode_def new_message_def)

lemma run0_room: "room (server_sock lib0 (run0 evs) (pool_key_of default_config info0) ''pw'' (si_extra_params info0) 9) = None"
  using server0_connects by (auto simp: server_sock_def run0_def info0_def)

lemma run0_result:
  "fst (handle_client u lib0 default_config (run0 [eof0]) shared0) = Ok ()"
  "fst (handle_client u lib0 default_config (run0 [broken0]) shared0) = Err (IoError ''reset by peer'')"
proof -
  obtain pm where a: "acquires lib0 default_config (run0 [eof0]) info0 ''pw'' shared0 = (Ok 9, pm)" using run0_acquires by blast
  have "cr_events (run0 [eof0]) = [] @ eof0 # []" "list_all quiet []" "ev_read eof0 = Inr []" by (simp_all add: run0_def eof0_def)
  from served_result [OF run0_well_sent startup0_of a refl run0_room this run0_answered, of u]
  show "fst (handle_client u lib0 default_config (run0 [eof0]) shared0) = Ok ()" by auto
  show "fst (handle_client u lib0 default_config (run0 [broken0]) shared0) = Err (IoError ''reset by peer'')"
    using run0_served [of u "[broken0]"] run0_serve by metis
qed

lemma served_client_leaves_nothing_witness:
  "\<exists>ps sh'. handle_client (\<lambda>c. [c]) lib0 default_config (run0 [eof0]) shared0 = (Ok (), ps, sh')
     \<and> outstanding (sh_pool sh') = outstanding (sh_pool shared0) \<and> sessions (sh_mon sh') = []"
proof -
  obtain ps sh' where h: "handle_client (\<lambda>c. [c]) lib0 default_config (run0 [eof0]) shared0 = (Ok (), ps, sh')"
    using run0_result(1) by (metis fst_conv surj_pair)
  have "fresh_id shared0" "sessions (sh_mon shared0) = []"
    by (simp_all add: fresh_id_def shared0_def monitor_new_def)
  then show ?thesis using h served_client_leaves_nothing [OF h] by simp
qed

lemma failed_session_leaks_connection_witness:
  "\<exists>ps sh'. handle_client (\<lambda>c. [c]) lib0 default_config (run0 [broken0]) shared0 = (Err (IoError ''reset by peer''), ps, sh')
     \<and> outstanding (sh_pool sh') = outstanding (sh_pool shared0) + 1"
proof -
  obtain ps sh' where h: "handle_client (\<lambda>c. [c]) lib0 default_config (run0 [broken0]) shared0 = (Err (IoError ''reset by peer''), ps, sh')"
    using run0_result(2) by (metis fst_conv surj_pair)
  obtain c where c: "password_phase (conn0 [Inr (take 3 pw0), Inr (drop 3 pw0)]) = (Ok ''pw'', c)" using run0_password by blast
  obtain pm where a: "acquires lib0 default_config (run0 [broken0]) info0 ''pw'' shared0 = (Ok 9, pm)" using run0_acquires by blast
  have f: "cr_nodelay (run0 [broken0]) = Inr ()" "cr_tls (run0 [broken0]) = False" by (simp_all add: run0_def)
  from failed_session_leaks_connection [OF h f(1) _ c a] run0_startup [of "\<lambda>c. [c]" "[broken0]"] f(2) h
  show ?thesis by auto
qed

definition evs0 :: "event list" where
  "evs0 = [reads Client [88] False None, reads Server [90, 91] False None]"

lemma evs0_quiet: "list_all quiet evs0" "ev_read eof0 = Inr []" "cr_events (run0 (evs0 @ [eof0])) = evs0 @ eof0 # []"
  by (simp_all add: quiet_def reads_def eof0_def evs0_def run0_def)

lemma client_is_served_witness:
  "\<exists>ps sh'. handle_client (\<lambda>c. [c]) lib0 default_config (run0 (evs0 @ [eof0])) shared0 = (Ok (), ps, sh')
    \<and> sent (to_cl ps) = build_auth_cleartext_request @ concat (greeting 1 2) @ [90, 91]"
proof -
  obtain pm where "acquires lib0 default_config (run0 (evs0 @ [eof0])) info0 ''pw'' shared0 = (Ok 9, pm)" using run0_acquires by blast
  from client_is_served [OF run0_well_sent startup0_of this refl run0_room evs0_quiet(3,1,2) run0_answered, of "\<lambda>c. [c]"]
  show ?thesis by (auto simp: run0_def conn0_def reads_def evs0_def)
qed

lemma first_client_is_served_witness:
  "\<exists>ps sh' k reply. handle_client (\<lambda>c. [c]) lib0 default_config (run0 (evs0 @ [eof0])) shared0 = (Ok (), ps, sh')
    \<and> to_srv ps = Some k \<and> sent k = build_startup_message ''bob'' ''app'' [] @ reply @ [88] @ discard_all"
proof -
  obtain reply where l: "al_password_message lib0 (as_bytes ''pw'') = Inr reply" by (simp add: lib0_def)
  from first_client_is_served [OF run0_well_sent startup0_of vacant0 _ _ _ l _ login0_admits evs0_quiet(3,1,2) run0_answered,
      of _ "[]" server0 "\<lambda>c. [c]"]
  show ?thesis by (auto simp: run0_def server0_def conn0_def reads_def evs0_def info0_def)
qed

lemma unanswered_reset_keeps_connection_witness:
  "\<exists>ps sh'. handle_client (\<lambda>c. [c]) lib0 default_config ((run0 [eof0])\<lparr>cr_reset_reads := []\<rparr>) shared0 = (Pending, ps, sh')
    \<and> outstanding (sh_pool sh') = outstanding (sh_pool shared0) + 1"
proof -
  let ?run = "(run0 [eof0])\<lparr>cr_reset_reads := []\<rparr>"
  have w: "well_sent ?run kvs0 ''pw'' []" using run0_well_sent [of "[eof0]"] by (simp add: well_sent_def)
  obtain pm where "acquires lib0 default_config (run0 [eof0]) info0 ''pw'' shared0 = (Ok 9, pm)" using run0_acquires by blast
  then have a: "acquires lib0 default_config ?run info0 ''pw'' shared0 = (Ok 9, pm)" by (simp add: acquires_def)
  have "server_sock lib0 ?run = server_sock lib0 (run0 [eof0])" by (simp add: fun_eq_iff server_sock_def split: option.split)
  then have r: "room (server_sock lib0 ?run (pool_key_of default_config info0) ''pw'' (si_extra_params info0) 9) = None"
    using run0_room by simp
  have e: "cr_events ?run = [] @ eof0 # []" "list_all quiet []" "ev_read eof0 = Inr []" "cr_reset_reads ?run = []"
    by (simp_all add: run0_def eof0_def)
  show ?thesis by (rule unanswered_reset_keeps_connection [OF w startup0_of a r e])
qed

definition run1 :: client_run where
  "run1 = (run0 [])\<lparr>cr_dials := [\<lparr>d_now = 0, d_wake = TimedOut, d_tcp =
     Inr (conn0 [Inr build_auth_cleartext_request, Inr (build_error_response ''FATAL'' ''28P01'' ''bad'')]), d_stream = 9\<rparr>]\<rparr>"

lemma run1_well_sent: "well_sent run1 kvs0 ''pw'' []"
  using run0_well_sent [of "[]"] by (simp add: well_sent_def run1_def)

lemma rejected_password_is_reported_witness:
  "\<exists>e ps sh'. handle_client (\<lambda>c. [c]) lib0 default_config run1 shared0 = (Err e, ps, sh')
    \<and> sent (to_cl ps) = build_auth_cleartext_request @ build_error_response ''FATAL'' ''28000''
        (''Backend auth failed: Failed to connect to backend '' @ display_key (pool_key_of default_config info0)
          @ '': Backend error: bad'')"
proof -
  obtain reply where l: "al_password_message lib0 (as_bytes ''pw'') = Inr reply" by (simp add: lib0_def)
  from rejected_password_is_reported [OF run1_well_sent startup0_of vacant0 _ _ _ l, of _ "[]"
      "conn0 [Inr build_auth_cleartext_request, Inr (build_error_response ''FATAL'' ''28P01'' ''bad'')]"
      "''FATAL''" "''28P01''" "''bad''" "[]" "\<lambda>c. [c]"]
  show ?thesis by (simp add: run1_def run0_def conn0_def wire_str_def ascii_str_def byte_of_def MAX_MESSAGE_SIZE_def)
qed

lemma run1_acquires: "\<exists>e pm. acquires lib0 default_config run1 info0 ''pw'' shared0 = (Err e, pm)"
proof -
  obtain reply where l: "al_password_message lib0 (as_bytes ''pw'') = Inr reply" by (simp add: lib0_def)
  let ?c = "conn0 [Inr build_auth_cleartext_request, Inr (build_error_response ''FATAL'' ''28P01'' ''bad'')]"
  have "fst (connect_backend lib0 (Inr ?c) (pool_key_of default_config info0) ''pw'' (si_extra_params info0)) = Err (BackendError ''bad'')"
    by (rule password_rejected [OF _ l, where sev = "''FATAL''" and code = "''28P01''" and rs = "[]"])
      (simp_all add: conn0_def wire_str_def ascii_str_def byte_of_def MAX_MESSAGE_SIZE_def)
  then have "fst (acquires lib0 default_config run1 info0 ''pw'' shared0) =
      Err (FailedToConnect (display_key (pool_key_of default_config info0)) (BackendError ''bad''))"
    using first_dial [OF vacant0, of run1 "hd (cr_dials run1)" "[]" lib0 info0 "''pw''"] by (simp add: run1_def)
  then show ?thesis by (cases "acquires lib0 default_config run1 info0 ''pw'' shared0") simp
qed

lemma refused_client_sees_error_witness:
  "\<exists>e ps sh'. handle_client (\<lambda>c. [c]) lib0 default_config run1 shared0 = (Err (BackendConnectionFailed e), ps, sh')
    \<and> sent (to_cl ps) = build_auth_cleartext_request
        @ build_error_response ''FATAL'' ''28000'' (''Backend auth failed: '' @ show_error e)"
proof -
  obtain e pm where "acquires lib0 default_config run1 info0 ''pw'' shared0 = (Err e, pm)" using run1_acquires by blast
  from refused_client_sees_error [OF run1_well_sent startup0_of [of "\<lambda>c. [c]"] this] show ?thesis
    by (auto simp: run1_def run0_def conn0_def)
qed

end
