(* ===== verification/Handover.thy ===== *)
theory Handover
  imports Conversations
begin

text \<open>
  A pooled connection passes from one client to the next. The stream of bytes the server sends on it is
  one queue of reads: part of it is relayed to the first client, part is consumed by the reset in
  \<^verbatim>\<open>release\<close>, and the rest is what the next client is sent. \<^verbatim>\<open>reset_connection\<close> reads up to the first
  ReadyForQuery, whichever query that answers.
\<close>

section \<open>What a reset reads\<close>

text \<open>The reads up to and including the one that completes the first ReadyForQuery, no error message before it.\<close>

definition reset_takes :: "bytes list \<Rightarrow> bool" where
  "reset_takes ds \<longleftrightarrow> list_all (\<lambda>d. d \<noteq> []) ds
     \<and> (case drain (\<lambda>buf. try_read_message buf False) (concat (butlast ds)) of
          (ms, e, _) \<Rightarrow> e = None \<and> find decisive ms = None)
     \<and> (case find decisive (fst (drain (\<lambda>buf. try_read_message buf False) (concat ds))) of
          Some m \<Rightarrow> msg_type m = byte_of CHR ''Z'' | None \<Rightarrow> False)"

lemma drain_prefix:
  assumes "drain (\<lambda>buf. try_read_message buf False) (a @ b) = (ms, None, rest)"
  obtains ms1 r1 ms2 where "drain (\<lambda>buf. try_read_message buf False) a = (ms1, None, r1)"
    "drain (\<lambda>buf. try_read_message buf False) (r1 @ b) = (ms2, None, rest)" "ms = ms1 @ ms2"
proof -
  obtain ms1 e1 r1 where d1: "drain (\<lambda>buf. try_read_message buf False) a = (ms1, e1, r1)" by (metis prod_cases3)
  have "e1 = None"
    using assms d1 message_reader.drain_append_error [of a ms1 _ r1 b] by (cases e1) auto
  then have d1': "drain (\<lambda>buf. try_read_message buf False) a = (ms1, None, r1)" using d1 by simp
  obtain ms2 e2 r2 where d2: "drain (\<lambda>buf. try_read_message buf False) (r1 @ b) = (ms2, e2, r2)" by (metis prod_cases3)
  then show thesis using that d1' message_reader.drain_append [OF d1' d2] assms by simp
qed

lemma until_ready_stops:
  assumes "c_reads c = map Inr ds @ Inr d # rs" "list_all (\<lambda>d. d \<noteq> []) ds" "d \<noteq> []"
    and "drain (\<lambda>buf. try_read_message buf False) (c_buf c @ concat ds) = (ms, None, rest)" "find decisive ms = None"
    and "find decisive (fst (drain (\<lambda>buf. try_read_message buf False) (c_buf c @ concat ds @ d))) = Some m"
    and "msg_type m = byte_of CHR ''Z''"
  shows "\<exists>c'. until_ready eof failed c = (Ok (), c') \<and> c_reads c' = rs"
  using assms(1,2,4-6)
proof (induction ds arbitrary: c ms)
  case Nil
  let ?c = "c\<lparr>c_reads := rs, c_buf := c_buf c @ d\<rparr>"
  have rm: "read_more eof c = (Ok (), ?c)" using Nil(1) assms(3) by (simp add: read_more_def)
  obtain ms1 e1 r1 where d1: "drain (\<lambda>buf. try_read_message buf False) (c_buf ?c) = (ms1, e1, r1)" by (metis prod_cases3)
  then have "find decisive ms1 = Some m" using Nil(5) by simp
  then have "fst (ready_in_buffer failed ?c) = Ok True"
    using ready_in_buffer_decides [OF d1, of failed] assms(7) by (simp add: ruling_def)
  then obtain c' where r: "ready_in_buffer failed ?c = (Ok True, c')" by (metis prod.collapse)
  then show ?case using rm ready_in_buffer_reads [OF r] by (simp add: until_ready.simps [of eof failed c])
next
  case (Cons d0 ds)
  let ?c = "c\<lparr>c_reads := map Inr ds @ Inr d # rs, c_buf := c_buf c @ d0\<rparr>"
  have rm: "read_more eof c = (Ok (), ?c)" using Cons.prems(1,2) by (simp add: read_more_def)
  obtain ms1 r1 ms2 where d1: "drain (\<lambda>buf. try_read_message buf False) (c_buf c @ d0) = (ms1, None, r1)"
    "drain (\<lambda>buf. try_read_message buf False) (r1 @ concat ds) = (ms2, None, rest)" "ms = ms1 @ ms2"
    using drain_prefix [of "c_buf c @ d0" "concat ds" ms rest] Cons.prems(3) by auto
  have f: "find decisive ms1 = None" "find decisive ms2 = None"
    using Cons.prems(4) d1(3) by (auto simp: find_append split: option.splits)
  have rb: "ready_in_buffer failed ?c = (Ok False, ?c\<lparr>c_buf := r1\<rparr>)"
    using ready_in_buffer_decides [of ?c ms1 None r1 failed] d1(1) f(1) by simp
  obtain ms3 e3 r3 where d3: "drain (\<lambda>buf. try_read_message buf False) (r1 @ concat ds @ d) = (ms3, e3, r3)" by (metis prod_cases3)
  have "find decisive ms3 = Some m"
    using Cons.prems(5) message_reader.drain_append [OF d1(1) d3] f(1) by (simp add: find_append)
  then have "\<exists>c'. until_ready eof failed (?c\<lparr>c_buf := r1\<rparr>) = (Ok (), c') \<and> c_reads c' = rs"
    using Cons.IH [of "?c\<lparr>c_buf := r1\<rparr>" ms2] Cons.prems(2) d1(2) f(2) d3 by simp
  then show ?case using rm rb by (simp add: until_ready.simps [of eof failed c])
qed

lemma reset_leaves:
  assumes "room (c_sock c) = None" "c_reads c = map Inr ds @ rs" "reset_takes ds"
  shows "\<exists>c'. reset_connection c = (Ok (), c') \<and> c_reads c' = rs \<and> sent (c_sock c') = sent (c_sock c) @ discard_all"
proof -
  let ?rd = "\<lambda>buf. try_read_message buf False"
  have "?rd [] = (Inr None, [])" by (simp add: try_read_message_def)
  then have "fst (drain ?rd []) = []" using message_reader.drain_stop [of "[]"] by simp
  then have "ds \<noteq> []" using assms(3) by (auto simp: reset_takes_def)
  then obtain as d where ds: "ds = as @ [d]" by (metis append_butlast_last_id)
  obtain ms rest where d1: "drain ?rd (concat as) = (ms, None, rest)" "find decisive ms = None"
    using assms(3) ds by (auto simp: reset_takes_def split: prod.splits)
  obtain m where m: "find decisive (fst (drain ?rd (concat as @ d))) = Some m" "msg_type m = byte_of CHR ''Z''"
    using assms(3) ds by (auto simp: reset_takes_def split: option.splits)
  let ?c = "c\<lparr>c_sock := (c_sock c)\<lparr>sent := sent (c_sock c) @ discard_all\<rparr>, c_buf := []\<rparr>"
  obtain c' where c': "until_ready BackendDisconnectedDuringReset ResetFailed ?c = (Ok (), c')" "c_reads c' = rs"
    using until_ready_stops [of ?c as d rs ms rest m BackendDisconnectedDuringReset ResetFailed] assms(2,3) ds d1 m
    by (auto simp: reset_takes_def)
  then show ?thesis using until_ready_sock [OF c'(1)] assms(1) by (simp add: reset_connection_def send_unlimited)
qed

section \<open>From one client to the next\<close>

definition admitted :: "(nat \<Rightarrow> nat list) \<Rightarrow> client_run \<Rightarrow> startup_info \<Rightarrow> string \<Rightarrow> bool" where
  "admitted u cl info pw \<longleftrightarrow> (\<exists>kvs x. well_sent cl kvs pw x
     \<and> startup_of u (param_table [] kvs) = Ok info)"

definition plays :: "client_run \<Rightarrow> event list \<Rightarrow> bool" where
  "plays cl evs \<longleftrightarrow> list_all quiet evs \<and> (\<exists>e rest. cr_events cl = evs @ e # rest \<and> ev_read e = Inr [])"

definition server_reads :: "event list \<Rightarrow> (pg_error + bytes) list" where
  "server_reads evs = map ev_read (filter (\<lambda>ev. ev_side ev = Server) evs)"

lemma input_server_reads: "list_all quiet evs \<Longrightarrow> server_reads evs @ rs = map Inr ds \<Longrightarrow> \<exists>r. concat ds = input Server evs @ r"
proof (induction evs arbitrary: ds)
  case Nil
  then show ?case by simp
next
  case (Cons ev evs)
  show ?case
  proof (cases "ev_side ev = Server")
    case True
    then obtain d ds' where d: "ds = d # ds'" "ev_read ev = Inr d" "server_reads evs @ rs = map Inr ds'"
      using Cons.prems(2) by (cases ds) (auto simp: server_reads_def)
    then obtain r where "concat ds' = input Server evs @ r" using Cons by auto
    then show ?thesis using d True by auto
  next
    case False
    then show ?thesis using Cons by (auto simp: server_reads_def)
  qed
qed

lemma client_hands_over:
  assumes "admitted u a info pw" "acquires lib cfg a info pw sh = (Ok s, pm)" "plays a evs"
    and "room (server_sock lib a (pool_key_of cfg info) pw (si_extra_params info) s) = None"
    and "cr_reset_reads a = map Inr ds @ rs" "reset_takes ds"
  shows "\<exists>ps mon. handle_client u lib cfg a sh =
      (Ok (), ps, \<lparr>sh_pool = release (pool_key_of cfg info) s (cr_release_now a) (Inr ()) pm, sh_mon = mon\<rparr>)
    \<and> unread ps = rs"
proof -
  obtain kvs x where w: "well_sent a kvs pw x"
    "startup_of u (param_table [] kvs) = Ok info"
    using assms(1) by (auto simp: admitted_def)
  obtain e rest where e: "cr_events a = evs @ e # rest" "list_all quiet evs" "ev_read e = Inr []"
    using assms(3) by (auto simp: plays_def)
  obtain px :: proxy and i mon where h:
    "handle_client u lib cfg a sh = session_end a (pool_key_of cfg info) s i px (sh\<lparr>sh_pool := pm, sh_mon := mon\<rparr>)"
    "room (px_server px) = None" "get_pool pm (pool_key_of cfg info) \<noteq> None"
    using handle_client_ends [OF w assms(2) refl assms(4) e] by blast
  obtain c' where c': "reset_connection \<lparr>c_sock = px_server px, c_reads = cr_reset_reads a, c_buf = []\<rparr> = (Ok (), c')" "c_reads c' = rs"
    using reset_leaves [of "\<lparr>c_sock = px_server px, c_reads = cr_reset_reads a, c_buf = []\<rparr>" ds rs] h(2) assms(5,6) by auto
  obtain pm' where b: "release_begin (pool_key_of cfg info) pm = (True, pm')"
    using h(3) by (auto simp: release_begin_def)
  then have "release (pool_key_of cfg info) s (cr_release_now a) (Inr ()) pm
      = snd (release_end (pool_key_of cfg info) s (cr_release_now a) (Inr ()) pm')" by (simp add: release_def)
  then show ?thesis using h(1) c' b
    by (cases sh) (auto simp: session_end_def release_connection_def Let_def)
qed

text \<open>
  The next client of the same key gets the connection, and is sent first whatever the server sent
  after the first ReadyForQuery that followed the bytes relayed to the previous client.
\<close>

text \<open>
  C22. Two clients in turn on one server connection, with the over-limit flag clear:
  reset_connection consumes the reads of the server up to the one that holds the first
  ReadyForQuery after the bytes relayed to the first client, whichever query it answers (the rest
  of that read is discarded), and the next client of the same key is sent what the server sends in
  the reads after it, so answers to the queries of one client reach another.
\<close>

theorem next_client_gets_what_reset_left:
  assumes "admitted u a info pw" "acquires lib cfg a info pw sh = (Ok s, pm)" "plays a evs"
    and "room (server_sock lib a (pool_key_of cfg info) pw (si_extra_params info) s) = None"
    and "cr_reset_reads a = map Inr (ds @ later)" "reset_takes ds"
    and "get_pool pm (pool_key_of cfg info) = Some p" "idle p = []"
    and "admitted u b info' pw'" "pool_key_of cfg info' = pool_key_of cfg info" "plays b evs'" "cr_dials b = d # dials"
    and "cr_release_now a \<le> d_now d" "d_now d - cr_release_now a \<le> secs (idle_timeout_secs (pool_cfg cfg))"
      "d_now d - cr_release_now a \<le> secs (max_connection_lifetime_secs (pool_cfg cfg))"
    and "room (server_sock lib b (pool_key_of cfg info) pw' (si_extra_params info') s) = None"
    and "server_reads evs' @ cr_reset_reads b = map Inr later" "answered (cr_reset_reads b)"
  shows "\<exists>psa sh' psb sh'' r. handle_client u lib cfg a sh = (Ok (), psa, sh') \<and> unread psa = map Inr later
    \<and> handle_client u lib cfg b sh' = (Ok (), psb, sh'')
    \<and> sent (to_cl psb) = sent (c_sock (cr_conn b)) @ build_auth_cleartext_request
        @ concat (greeting (cr_pid b) (cr_secret b)) @ input Server evs'
    \<and> concat later = input Server evs' @ r"
proof -
  let ?k = "pool_key_of cfg info"
  obtain psa mon where a: "handle_client u lib cfg a sh =
      (Ok (), psa, \<lparr>sh_pool = release ?k s (cr_release_now a) (Inr ()) pm, sh_mon = mon\<rparr>)" "unread psa = map Inr later"
    using client_hands_over [OF assms(1-4) _ assms(6), of "map Inr later"] assms(5) by auto
  let ?sh = "\<lparr>sh_pool = release ?k s (cr_release_now a) (Inr ()) pm, sh_mon = mon\<rparr>"
  obtain pm' where acq: "acquires lib cfg b info' pw' ?sh = (Ok s, pm')"
    using returned_connection_reused [OF assms(7,8), of "cr_release_now a" "round_of lib d" cfg "cr_start b" "map (round_of lib) dials"
        pw' "si_extra_params info'" s] assms(10,12-15)
    by (auto simp: acquires_def round_of_def)
  obtain kvs x where w: "well_sent b kvs pw' x"
    "startup_of u (param_table [] kvs) = Ok info'"
    using assms(9) by (auto simp: admitted_def)
  obtain e rest where e: "cr_events b = evs' @ e # rest" "list_all quiet evs'" "ev_read e = Inr []"
    using assms(11) by (auto simp: plays_def)
  have "room (server_sock lib b (pool_key_of cfg info') pw' (si_extra_params info') s) = None" using assms(10,16) by simp
  from served_result [OF w acq refl this e assms(18)] obtain psb sh'' where
    "handle_client u lib cfg b ?sh = (Ok (), psb, sh'')"
    "sent (to_cl psb) = sent (c_sock (cr_conn b)) @ build_auth_cleartext_request
        @ concat (greeting (cr_pid b) (cr_secret b)) @ input Server evs'" by blast
  moreover obtain r where "concat later = input Server evs' @ r"
    using input_server_reads [OF e(2) assms(17)] by blast
  ultimately show ?thesis using a by blast
qed

section \<open>Instance\<close>

text \<open>A client that closes while its query is still being answered, and the next one.\<close>

definition row0 :: bytes where
  "row0 = encode (new_message (byte_of CHR ''D'') [1]) []"

definition leaver0 :: client_run where
  "leaver0 = (run0 [eof0])\<lparr>cr_reset_reads := map Inr ([build_ready_for_query 73] @ [row0, build_ready_for_query 73])\<rparr>"

definition next0 :: client_run where
  "next0 = (run0 [reads Server row0 False None, eof0])
     \<lparr>cr_dials := [\<lparr>d_now = 0, d_wake = TimedOut, d_tcp = Inr server0, d_stream = 10\<rparr>]\<rparr>"

lemma run0_admitted: "admitted u (run0 evs) info0 ''pw''"
  unfolding admitted_def using run0_well_sent startup0_of by blast

lemma row0_sent: "row0 \<noteq> []"
  by (simp add: row0_def encode_def new_message_def)

lemma leaver0_next0:
  "admitted u leaver0 info0 ''pw''" "admitted u next0 info0 ''pw''" "plays leaver0 []" "plays next0 [reads Server row0 False None]"
  "acquires lib0 default_config leaver0 info0 ''pw'' shared0 = acquires lib0 default_config (run0 [eof0]) info0 ''pw'' shared0"
  using run0_admitted [of u "[eof0]"] run0_admitted [of u "[reads Server row0 False None, eof0]"] row0_sent
  by (simp_all add: admitted_def well_sent_def leaver0_def next0_def plays_def quiet_def eof0_def run0_def acquires_def)

lemma leaver0_next0_room:
  "room (server_sock lib0 leaver0 (pool_key_of default_config info0) ''pw'' (si_extra_params info0) 9) = None"
  "room (server_sock lib0 next0 (pool_key_of default_config info0) ''pw'' (si_extra_params info0) 9) = None"
proof -
  have "server_sock lib0 leaver0 = server_sock lib0 (run0 [eof0])"
    by (simp add: fun_eq_iff server_sock_def leaver0_def split: option.split)
  then show "room (server_sock lib0 leaver0 (pool_key_of default_config info0) ''pw'' (si_extra_params info0) 9) = None"
    using run0_room by simp
qed (simp add: server_sock_def next0_def run0_def)

lemma ready_reset_takes: "reset_takes [build_ready_for_query 73]"
proof -
  have "drain (\<lambda>buf. try_read_message buf False) (build_ready_for_query 73) = ([\<lparr>msg_type = byte_of CHR ''Z'', payload = [73]\<rparr>], None, [])"
    using message_reader.drain_step [OF fixed_builders_read_back(3) [of 73 "[]"]] message_reader.drain_stop [of "[]"]
    by (simp add: try_read_message_def)
  moreover have "drain (\<lambda>buf. try_read_message buf False) [] = ([], None, [])"
    using message_reader.drain_stop [of "[]"] by (simp add: try_read_message_def)
  ultimately show ?thesis by (simp add: reset_takes_def decisive_def build_ready_for_query_def)
qed

lemma next_client_gets_what_reset_left_witness:
  "\<exists>psa sh' psb sh''. handle_client (\<lambda>c. [c]) lib0 default_config leaver0 shared0 = (Ok (), psa, sh')
    \<and> handle_client (\<lambda>c. [c]) lib0 default_config next0 sh' = (Ok (), psb, sh'')
    \<and> sent (to_cl psb) = build_auth_cleartext_request @ concat (greeting 1 2) @ row0"
proof -
  let ?k = "pool_key_of default_config info0"
  obtain pm where a: "acquires lib0 default_config leaver0 info0 ''pw'' shared0 = (Ok 9, pm)"
    using run0_acquires leaver0_next0(5) by metis
  obtain p where p: "get_pool pm ?k = Some p" "idle p = []"
    using acquire_vacant_queue [OF vacant0, of "cr_start leaver0" "round_of lib0 (hd (cr_dials leaver0))" "[]" ?k "''pw''" "si_extra_params info0"] a
    by (auto simp: acquires_def leaver0_def run0_def)
  have f: "cr_reset_reads leaver0 = map Inr ([build_ready_for_query 73] @ [row0, build_ready_for_query 73])"
    "cr_dials next0 = \<lparr>d_now = 0, d_wake = TimedOut, d_tcp = Inr server0, d_stream = 10\<rparr> # []"
    "server_reads [reads Server row0 False None] @ cr_reset_reads next0 = map Inr [row0, build_ready_for_query 73]"
    "answered (cr_reset_reads next0)" "cr_release_now leaver0 = 0"
    using run0_answered [of "[]"] by (simp_all add: leaver0_def next0_def run0_def server_reads_def)
  from next_client_gets_what_reset_left [OF leaver0_next0(1) [of "\<lambda>c. [c]"] a leaver0_next0(3) leaver0_next0_room(1) f(1) ready_reset_takes p leaver0_next0(2) refl
      leaver0_next0(4) f(2) _ _ _ leaver0_next0_room(2) f(3,4)] f(5)
  show ?thesis by (auto simp: next0_def run0_def conn0_def)
qed

end
