(* ===== verification/Admin.thy ===== *)
theory Admin
  imports Pool Monitor Dashboard_Page "HOL-Library.Sublist"
begin

text \<open>
  \<^verbatim>\<open>src/admin/server.rs\<close>: the handlers of the admin server and the dashboard page, and \<^verbatim>\<open>format_bytes\<close> of
  \<^verbatim>\<open>src/monitor/mod.rs\<close>. A handler is a function of the shared state; the routes are a function from
  the path. Parameters: \<open>text\<close> is \<^verbatim>\<open>serde_json::to_string\<close> (\<open>None\<close> when it fails), \<open>enc\<close> is
  \<^verbatim>\<open>prometheus_client::encoding::text::encode\<close>. A JSON object is the list of its fields; the order in which
  the library writes the fields of a \<^verbatim>\<open>json!\<close> object is not modelled.
\<close>

section \<open>Sizes as text\<close>

text \<open>
  \<^verbatim>\<open>bytes as f64 / UNIT as f64\<close> with a power of two is exact, and \<^verbatim>\<open>{:.2}\<close> rounds the exact value to
  hundredths, ties to even.
\<close>

definition div_half_even :: "nat \<Rightarrow> nat \<Rightarrow> nat" where
  "div_half_even n d =
     (let q = n div d; r = n mod d in if d < 2 * r \<or> 2 * r = d \<and> odd q then q + 1 else q)"

definition show_fixed2 :: "nat \<Rightarrow> string" where
  "show_fixed2 h = show_nat (h div 100) @ ''.'' @ [digit_char (h div 10 mod 10), digit_char (h mod 10)]"

definition in_unit :: "u64 \<Rightarrow> nat \<Rightarrow> string" where
  "in_unit bytes unit = show_fixed2 (div_half_even (100 * u64_as_f64 bytes) unit)"

definition format_bytes :: "u64 \<Rightarrow> string" where
  "format_bytes bytes =
     (if 1024 * 1024 * 1024 * 1024 \<le> bytes then in_unit bytes (2 ^ 40) @ '' TB''
      else if 1024 * 1024 * 1024 \<le> bytes then in_unit bytes (2 ^ 30) @ '' GB''
      else if 1024 * 1024 \<le> bytes then in_unit bytes (2 ^ 20) @ '' MB''
      else if 1024 \<le> bytes then in_unit bytes (2 ^ 10) @ '' KB''
      else show_nat (unat bytes) @ '' B'')"

section \<open>Responses\<close>

datatype json = JNull | JBool bool | JNum nat | JStr string | JArr "json list" | JObj "(string \<times> json) list"

datatype response = JsonBody json | HtmlBody string | TextBody "(string \<times> string) list" string | NotFound

record admin_state =
  ad_metrics :: metrics
  ad_pool :: pool_manager
  ad_mon :: db_monitor
  ad_cfg :: config

definition pool_json :: "pool_stats \<Rightarrow> json" where
  "pool_json p =
     JObj [(''key'', JStr (display_key (ps_key p))), (''idle_connections'', JNum (unat (ps_idle_connections p))),
           (''active_connections'', JNum (unat (ps_active_connections p))),
           (''total_acquired'', JNum (unat (ps_total_acquired p))), (''total_errors'', JNum (unat (ps_total_errors p)))]"

definition opt_json :: "u64 option \<Rightarrow> json" where
  "opt_json v = (case v of Some n \<Rightarrow> JNum (unat n) | None \<Rightarrow> JNull)"

definition db_json :: "db_size_info \<Rightarrow> json" where
  "db_json d =
     JObj [(''database'', JStr (di_database d)), (''size_bytes'', opt_json (di_size_bytes d)),
           (''limit_bytes'', opt_json (di_limit_bytes d)), (''over_limit'', JBool (di_over_limit d))]"

definition health_handler :: response where
  "health_handler = JsonBody (JObj [(''status'', JStr ''ok'')])"

definition pools_json :: "admin_state \<Rightarrow> json" where
  "pools_json st = JArr (map pool_json (get_stats (ad_pool st)))"

definition dbs_json :: "admin_state \<Rightarrow> json" where
  "dbs_json st = JArr (map db_json (get_all_db_info (ad_cfg st) (ad_mon st)))"

definition stats_handler :: "admin_state \<Rightarrow> response" where
  "stats_handler st =
     JsonBody (JObj [(''total_server_connections'', JNum (unat (total_connections (ad_pool st)))),
                     (''pools'', pools_json st), (''databases'', dbs_json st)])"

definition pools_handler :: "admin_state \<Rightarrow> response" where
  "pools_handler st = JsonBody (pools_json st)"

definition databases_handler :: "admin_state \<Rightarrow> response" where
  "databases_handler st = JsonBody (dbs_json st)"

definition metrics_handler :: "(metrics \<Rightarrow> string option) \<Rightarrow> admin_state \<Rightarrow> response outcome" where
  "metrics_handler enc st =
     (case enc (ad_metrics st) of
        Some buf \<Rightarrow> Ok (TextBody [(''content-type'', ''application/openmetrics-text; version=1.0.0; charset=utf-8'')] buf)
      | None \<Rightarrow> Panic)"

section \<open>The dashboard\<close>

definition td :: "string \<Rightarrow> string" where
  "td s = ''<td>'' @ s @ ''</td>''"

definition pool_row :: "pool_stats \<Rightarrow> string" where
  \<open>pool_row p =
     ''<tr>'' @ td (display_key (ps_key p)) @ td (show_nat (unat (ps_active_connections p)))
     @ td (show_nat (unat (ps_idle_connections p))) @ td (show_nat (unat (ps_total_acquired p)))
     @ td (show_nat (unat (ps_total_errors p)))
     @ td (if 0 < ps_total_errors p then ''<span class="badge badge-warn">errors</span>''
           else ''<span class="badge badge-ok">healthy</span>'') @ ''</tr>''\<close>

definition db_row :: "db_size_info \<Rightarrow> string" where
  \<open>db_row d =
     (let size_str = (case di_size_bytes d of Some n \<Rightarrow> format_bytes n | None \<Rightarrow> ''-'');
          limit_str = (case di_limit_bytes d of Some n \<Rightarrow> format_bytes n | None \<Rightarrow> ''unlimited'');
          status = (if di_over_limit d then ''<span class="badge badge-danger">READ-ONLY</span>''
                    else ''<span class="badge badge-ok">OK</span>'')
      in ''<tr>'' @ td (di_database d) @ td size_str @ td limit_str @ ''<td>-</td>'' @ td status @ ''</tr>'')\<close>

definition or_empty_array :: "string option \<Rightarrow> string" where
  "or_empty_array s = (case s of Some t \<Rightarrow> t | None \<Rightarrow> ''[]'')"

definition generate_dashboard_html :: "(json \<Rightarrow> string option) \<Rightarrow> pool_stats list \<Rightarrow> db_size_info list \<Rightarrow> u64 \<Rightarrow> string" where
  "generate_dashboard_html text ps dbs conns =
     page_style @ show_nat (unat conns) @ page_servers @ show_nat (length ps) @ page_pools @ show_nat (length dbs)
     @ page_tables @ join nl (map pool_row ps) @ page_pool_table @ join nl (map db_row dbs) @ page_db_table
     @ or_empty_array (text (JArr (map pool_json ps))) @ page_dbs_data @ or_empty_array (text (JArr (map db_json dbs)))
     @ page_charts @ nl @ page_refresh"

definition dashboard_handler :: "(json \<Rightarrow> string option) \<Rightarrow> admin_state \<Rightarrow> response" where
  "dashboard_handler text st =
     HtmlBody (generate_dashboard_html text (get_stats (ad_pool st)) (get_all_db_info (ad_cfg st) (ad_mon st))
       (total_connections (ad_pool st)))"

text \<open>The router of \<^verbatim>\<open>run\<close>, for a GET request.\<close>

definition route :: "(json \<Rightarrow> string option) \<Rightarrow> (metrics \<Rightarrow> string option) \<Rightarrow> admin_state \<Rightarrow> string \<Rightarrow> response outcome" where
  "route text enc st path =
     (if path = ''/'' then Ok (dashboard_handler text st)
      else if path = ''/health'' then Ok health_handler
      else if path = ''/metrics'' then metrics_handler enc st
      else if path = ''/api/stats'' then Ok (stats_handler st)
      else if path = ''/api/pools'' then Ok (pools_handler st)
      else if path = ''/api/databases'' then Ok (databases_handler st)
      else Ok NotFound)"

text \<open>
  \<^verbatim>\<open>run\<close>: an address that cannot be bound is an error; otherwise \<^verbatim>\<open>axum::serve\<close> answers every request from the
  shared state at the time of the request. The requests are given with that state; \<open>ended\<close> is the error
  with which \<^verbatim>\<open>axum::serve\<close> returns, if it does.
\<close>

definition admin_run :: "(json \<Rightarrow> string option) \<Rightarrow> (metrics \<Rightarrow> string option) \<Rightarrow> (string \<Rightarrow> pg_error + unit) \<Rightarrow> pg_error option
    \<Rightarrow> config \<Rightarrow> (admin_state \<times> string) list \<Rightarrow> unit outcome \<times> response outcome list" where
  "admin_run text enc bind ended cfg requests =
     (case bind (admin_listen_addr cfg) of
        Inl e \<Rightarrow> (Err e, [])
      | Inr _ \<Rightarrow>
        (case ended of None \<Rightarrow> Pending | Some e \<Rightarrow> Err e, map (\<lambda>(st, path). route text enc st path) requests))"

section \<open>Rounding\<close>

lemma div_half_even_bound:
  assumes "0 < d"
  shows "2 * n \<le> d * (2 * div_half_even n d + 1)" "d * (2 * div_half_even n d) \<le> 2 * n + d"
proof -
  define q r where "q = n div d" and "r = n mod d"
  have n: "n = d * q + r" "r < d" using assms by (simp_all add: q_def r_def)
  have h: "div_half_even n d = (if d < 2 * r \<or> 2 * r = d \<and> odd q then q + 1 else q)"
    by (simp add: div_half_even_def q_def r_def Let_def)
  show "2 * n \<le> d * (2 * div_half_even n d + 1)" "d * (2 * div_half_even n d) \<le> 2 * n + d"
    unfolding h using n(2) by (simp_all add: n(1) algebra_simps)
qed

text \<open>
  The units of \<open>format_bytes\<close>: the text of a size of at least one KB is a number of hundredths of a
  unit that is within half a hundredth of the size.
\<close>

definition shown_in :: "u64 \<Rightarrow> nat \<Rightarrow> string \<Rightarrow> bool" where
  "shown_in b unit name \<longleftrightarrow>
     (\<exists>h. format_bytes b = show_fixed2 h @ name \<and> 100 \<le> h
        \<and> 200 * unat b \<le> unit * (2 * h + 1) \<and> unit * (2 * h) \<le> 200 * unat b + unit)"

lemma div_half_even_mono: "0 < d \<Longrightarrow> k * d \<le> n \<Longrightarrow> k \<le> div_half_even n d"
proof -
  assume "0 < d" "k * d \<le> n"
  then have "k \<le> n div d" by (simp add: less_eq_div_iff_mult_less_eq)
  then show ?thesis by (simp add: div_half_even_def Let_def)
qed

lemma in_unit_exact:
  assumes "unat b < 2 ^ 53" "0 < unit" "unit \<le> unat b"
  shows "\<exists>h. in_unit b unit = show_fixed2 h \<and> 100 \<le> h
    \<and> 200 * unat b \<le> unit * (2 * h + 1) \<and> unit * (2 * h) \<le> 200 * unat b + unit"
proof -
  have f: "u64_as_f64 b = unat b" by (rule u64_as_f64_small [OF assms(1)])
  have "100 \<le> div_half_even (100 * unat b) unit" using assms by (intro div_half_even_mono) simp_all
  then show ?thesis
    using div_half_even_bound [OF assms(2), of "100 * unat b"]
    by (intro exI [of _ "div_half_even (100 * unat b) unit"]) (simp add: in_unit_def f)
qed

lemma format_bytes_cases:
  "format_bytes b =
     (if 1024 ^ 4 \<le> unat b then in_unit b (1024 ^ 4) @ '' TB''
      else if 1024 ^ 3 \<le> unat b then in_unit b (1024 ^ 3) @ '' GB''
      else if 1024 ^ 2 \<le> unat b then in_unit b (1024 ^ 2) @ '' MB''
      else if 1024 \<le> unat b then in_unit b 1024 @ '' KB''
      else show_nat (unat b) @ '' B'')"
proof -
  have c: "(1024 * 1024 * 1024 * 1024 \<le> b) = (1024 ^ 4 \<le> unat b)" "(1024 * 1024 * 1024 \<le> b) = (1024 ^ 3 \<le> unat b)"
    "(1024 * 1024 \<le> b) = (1024 ^ 2 \<le> unat b)" "(1024 \<le> b) = (1024 \<le> unat b)"
    by (simp_all add: word_le_nat_alt)
  have p: "(2 ^ 40 :: nat) = 1024 ^ 4" "(2 ^ 30 :: nat) = 1024 ^ 3" "(2 ^ 20 :: nat) = 1024 ^ 2" "(2 ^ 10 :: nat) = 1024"
    by simp_all
  show ?thesis unfolding format_bytes_def c p by (rule refl)
qed

lemma shown_inI:
  assumes "unat b < 2 ^ 53" "0 < unit" "unit \<le> unat b" "format_bytes b = in_unit b unit @ name"
  shows "shown_in b unit name"
  using in_unit_exact [OF assms(1-3)] unfolding shown_in_def assms(4) by blast

theorem format_bytes_accurate:
  assumes "unat b < 2 ^ 53"
  shows "if unat b < 1024 then format_bytes b = show_nat (unat b) @ '' B''
    else if unat b < 1024 ^ 2 then shown_in b 1024 '' KB''
    else if unat b < 1024 ^ 3 then shown_in b (1024 ^ 2) '' MB''
    else if unat b < 1024 ^ 4 then shown_in b (1024 ^ 3) '' GB''
    else shown_in b (1024 ^ 4) '' TB''"
proof -
  consider "unat b < 1024" | "1024 \<le> unat b" "unat b < 1024 ^ 2" | "1024 ^ 2 \<le> unat b" "unat b < 1024 ^ 3"
    | "1024 ^ 3 \<le> unat b" "unat b < 1024 ^ 4" | "1024 ^ 4 \<le> unat b" by linarith
  then show ?thesis
  proof cases
    case 1
    then show ?thesis by (simp add: format_bytes_cases)
  next
    case 2
    then have "shown_in b 1024 '' KB''" by (intro shown_inI [OF assms]) (simp_all add: format_bytes_cases)
    then show ?thesis using 2 by simp
  next
    case 3
    then have "shown_in b (1024 ^ 2) '' MB''" by (intro shown_inI [OF assms]) (simp_all add: format_bytes_cases)
    then show ?thesis using 3 by simp
  next
    case 4
    then have "shown_in b (1024 ^ 3) '' GB''" by (intro shown_inI [OF assms]) (simp_all add: format_bytes_cases)
    then show ?thesis using 4 by simp
  next
    case 5
    then have "shown_in b (1024 ^ 4) '' TB''" by (intro shown_inI [OF assms]) (simp_all add: format_bytes_cases)
    then show ?thesis using 5 by simp
  qed
qed

section \<open>What the page shows\<close>

lemma sublist_join: "s \<in> set ss \<Longrightarrow> sublist s (join sep ss)"
proof (induction sep ss rule: join.induct)
  case (3 sep s' t ss)
  then show ?case
    by (metis join.simps(3) set_ConsD sublist_appendI sublist_append_leftI append_Nil sublist_order.order_trans sublist_append_rightI)
qed auto

lemma sublist_infix: "sublist s t \<Longrightarrow> sublist s (a @ t @ b)"
  by (meson sublist_appendI sublist_order.order_trans)

text \<open>Names appear in the page as they are, without HTML escaping.\<close>

lemma page_shows_key:
  assumes "dashboard_handler text st = HtmlBody page" "(k, p) \<in> set (pools (ad_pool st))"
  shows "sublist (''<td>'' @ display_key k @ ''</td>'') page"
proof -
  obtain q where q: "q \<in> set (get_stats (ad_pool st))" "ps_key q = k"
    using assms(2) by (force simp: get_stats_def)
  have "sublist (td (display_key k)) (pool_row q)"
    unfolding pool_row_def q(2) by (intro sublist_infix) (simp add: sublist_append_rightI)
  moreover have "sublist (pool_row q) (join nl (map pool_row (get_stats (ad_pool st))))"
    using q(1) by (intro sublist_join) simp
  ultimately have s: "sublist (td (display_key k)) (join nl (map pool_row (get_stats (ad_pool st))))"
    by (rule sublist_order.order_trans)
  obtain a b where "page = a @ join nl (map pool_row (get_stats (ad_pool st))) @ b"
    using assms(1) unfolding dashboard_handler_def generate_dashboard_html_def response.inject by (metis append_assoc)
  then show ?thesis using sublist_infix [OF s] by (simp add: td_def)
qed

section \<open>Instances\<close>

lemma format_bytes_accurate_witness: "shown_in 1536 1024 '' KB'' \<and> format_bytes 1536 = ''1.50 KB''"
proof
  show "shown_in 1536 1024 '' KB''" using format_bytes_accurate [of 1536] by simp
  have "u64_as_f64 1536 = 1536" using u64_as_f64_small [of 1536] by simp
  then have "in_unit 1536 1024 = show_fixed2 150" by (simp add: in_unit_def div_half_even_def Let_def)
  moreover have "show_fixed2 150 = ''1.50''" by code_simp
  ultimately show "format_bytes 1536 = ''1.50 KB''" by (simp add: format_bytes_cases)
qed

end
