(* ===== verification/Process.thy ===== *)
theory Process
  imports Conversations Admin
begin

text \<open>
  \<^verbatim>\<open>src/main.rs\<close> and \<^verbatim>\<open>src/tls/mod.rs\<close>: loading the configuration, the background tasks, the TLS acceptor,
  the listener and the accept loop. The outside world is the record \<open>process_env\<close>: file system,
  environment, TOML parser, the rustls functions, the result of binding, and the results of
  \<^verbatim>\<open>accept\<close>, each an error or the run of the accepted client. \<open>main_run\<close> returns the tasks spawned so far;
  a client's task is \<open>client_task\<close> of \<open>Frontend\<close>. Argument parsing is clap's.
\<close>

section \<open>The TLS acceptor\<close>

record 'acc tls_lib =
  tl_certs :: "bytes \<Rightarrow> pg_error + bytes list"
  tl_private_key :: "bytes \<Rightarrow> pg_error + bytes option"
  tl_server_config :: "bytes list \<Rightarrow> bytes \<Rightarrow> pg_error + 'acc"

definition with_context :: "string \<Rightarrow> pg_error + 'a \<Rightarrow> pg_error + 'a" where
  "with_context s r = (case r of Inl e \<Rightarrow> Inl (WithContext s e) | Inr x \<Rightarrow> Inr x)"

definition build_server_tls_acceptor :: "'acc tls_lib \<Rightarrow> (string \<Rightarrow> pg_error + bytes) \<Rightarrow> tls_config \<Rightarrow> pg_error + 'acc" where
  "build_server_tls_acceptor lib read c =
     (if cert_path c = [] \<or> key_path c = [] then Inl TlsPathsNotSet
      else case with_context (''Reading cert: '' @ cert_path c) (read (cert_path c)) of
        Inl e \<Rightarrow> Inl e
      | Inr cert_pem \<Rightarrow>
        (case with_context (''Reading key: '' @ key_path c) (read (key_path c)) of
           Inl e \<Rightarrow> Inl e
         | Inr key_pem \<Rightarrow>
           (case with_context ''Parsing TLS certificates'' (tl_certs lib cert_pem) of
              Inl e \<Rightarrow> Inl e
            | Inr certs \<Rightarrow>
              (case with_context ''Parsing TLS private key'' (tl_private_key lib key_pem) of
                 Inl e \<Rightarrow> Inl e
               | Inr None \<Rightarrow> Inl NoPrivateKey
               | Inr (Some key) \<Rightarrow>
                   with_context ''Building TLS server config'' (tl_server_config lib certs key)))))"

section \<open>main\<close>

record cli =
  cli_config :: string
  cli_listen :: "string option"
  cli_admin_listen :: "string option"

record 'acc process_env =
  pe_toml :: "string \<Rightarrow> pg_error + config"
  pe_fs :: "string \<Rightarrow> (pg_error + string) option"
  pe_var :: "string \<Rightarrow> string option"
  pe_read :: "string \<Rightarrow> pg_error + bytes"
  pe_tls :: "'acc tls_lib"
  pe_bind :: "string \<Rightarrow> pg_error + unit"
  pe_accepts :: "(pg_error + client_run) list"

datatype spawned = MonitorTask | AdminTask | ClientTask client_run

text \<open>The accept loop: an error of \<^verbatim>\<open>accept\<close> leaves \<^verbatim>\<open>main\<close>.\<close>

fun accept_loop :: "bool \<Rightarrow> (pg_error + client_run) list \<Rightarrow> unit outcome \<times> spawned list" where
  "accept_loop tls [] = (Pending, [])"
| "accept_loop tls (r # rs) =
     (case r of
        Inl e \<Rightarrow> (Err e, [])
      | Inr run \<Rightarrow> (case accept_loop tls rs of (out, ts) \<Rightarrow> (out, ClientTask (run\<lparr>cr_tls := tls\<rparr>) # ts)))"

definition main_run :: "'acc process_env \<Rightarrow> cli \<Rightarrow> unit outcome \<times> spawned list" where
  "main_run env args =
     (case load (pe_toml env) (pe_fs env) (pe_var env) (cli_config args) (cli_listen args) (cli_admin_listen args) of
        Inl e \<Rightarrow> (Err e, [])
      | Inr cfg \<Rightarrow>
        let background = [MonitorTask, AdminTask]
        in case (if tls_enabled (tls_cfg cfg)
                 then map_sum id Some (build_server_tls_acceptor (pe_tls env) (pe_read env) (tls_cfg cfg)) else Inr None) of
             Inl e \<Rightarrow> (Err e, background)
           | Inr tls_acceptor \<Rightarrow>
             (case pe_bind env (listen_addr cfg) of
                Inl e \<Rightarrow> (Err e, background)
              | Inr _ \<Rightarrow>
                (case accept_loop (tls_acceptor \<noteq> None) (pe_accepts env) of
                   (out, clients) \<Rightarrow> (out, background @ clients))))"

text \<open>The task of the admin server: an error of \<^verbatim>\<open>run\<close> is logged and ends the task.\<close>

definition admin_task :: "(json \<Rightarrow> string option) \<Rightarrow> (metrics \<Rightarrow> string option) \<Rightarrow> (string \<Rightarrow> pg_error + unit) \<Rightarrow> pg_error option
    \<Rightarrow> config \<Rightarrow> (admin_state \<times> string) list \<Rightarrow> unit outcome \<times> response outcome list" where
  "admin_task text enc bind ended cfg requests =
     (case admin_run text enc bind ended cfg requests of (Err e, rs) \<Rightarrow> (Ok (), rs) | r \<Rightarrow> r)"

text \<open>
  \<^verbatim>\<open>main\<close> spawns the clients' tasks concurrently. \<open>serve_all\<close> is the special case in which each ends before the
  next begins; \<open>Pool_Tasks\<close> and \<open>Monitor_Tasks\<close> have the interleavings.
\<close>

definition serve_all :: "(nat \<Rightarrow> nat list) \<Rightarrow> 'sc auth_lib \<Rightarrow> config \<Rightarrow> client_run list \<Rightarrow> metrics \<times> shared \<Rightarrow> metrics \<times> shared" where
  "serve_all u lib cfg runs st = fold (client_task u lib cfg) runs st"

section \<open>Accepting\<close>

lemma accept_loop_accepted:
  "accept_loop tls (map Inr runs @ rs) =
     (case accept_loop tls rs of (out, ts) \<Rightarrow> (out, map (\<lambda>run. ClientTask (run\<lparr>cr_tls := tls\<rparr>)) runs @ ts))"
  by (induction runs) (simp_all split: prod.split)

theorem accept_error_ends_main:
  assumes "load (pe_toml env) (pe_fs env) (pe_var env) (cli_config args) (cli_listen args) (cli_admin_listen args) = Inr cfg"
    and "\<not> tls_enabled (tls_cfg cfg)" "pe_bind env (listen_addr cfg) = Inr ()"
    and "pe_accepts env = map Inr runs @ Inl e # later"
  shows "main_run env args =
    (Err e, [MonitorTask, AdminTask] @ map (\<lambda>run. ClientTask (run\<lparr>cr_tls := False\<rparr>)) runs)"
  using assms by (simp add: main_run_def Let_def accept_loop_accepted)

theorem tls_without_paths_stops_late:
  assumes "load (pe_toml env) (pe_fs env) (pe_var env) (cli_config args) (cli_listen args) (cli_admin_listen args) = Inr cfg"
    and "tls_enabled (tls_cfg cfg)" "cert_path (tls_cfg cfg) = [] \<or> key_path (tls_cfg cfg) = []"
  shows "main_run env args = (Err TlsPathsNotSet, [MonitorTask, AdminTask])"
  using assms by (simp add: main_run_def Let_def build_server_tls_acceptor_def)

section \<open>Serving many clients\<close>

lemma client_task_served:
  assumes "handle_client u lib cfg run sh = (Ok v, ps, sh')"
  shows "client_task u lib cfg run (m, sh) = (m\<lparr>client_connections_total := client_connections_total m + 1\<rparr>, sh')"
  using assms by (simp add: client_task_def)

fun all_served :: "(nat \<Rightarrow> nat list) \<Rightarrow> 'sc auth_lib \<Rightarrow> config \<Rightarrow> client_run list \<Rightarrow> shared \<Rightarrow> bool" where
  "all_served u lib cfg [] sh \<longleftrightarrow> True"
| "all_served u lib cfg (run # runs) sh \<longleftrightarrow>
     (case handle_client u lib cfg run sh of (r, _, sh') \<Rightarrow> (case r of Ok _ \<Rightarrow> all_served u lib cfg runs sh' | _ \<Rightarrow> False))"

text \<open>
  C19. From an empty session registry, after any sequence of clients that are all served to their
  end, the pool's ledger and the gauge of active clients are as before, the registry is empty
  again and the counter of clients has grown by their number.
\<close>

theorem served_clients_leave_nothing:
  assumes "all_served u lib cfg runs sh" "sessions (sh_mon sh) = []" "serve_all u lib cfg runs (m, sh) = (m', sh')"
  shows "outstanding (sh_pool sh') = outstanding (sh_pool sh) \<and> sessions (sh_mon sh') = []
    \<and> client_connections_active m' = client_connections_active m
    \<and> client_connections_total m' = client_connections_total m + of_nat (length runs)"
  using assms
proof (induction runs arbitrary: m sh)
  case (Cons run runs)
  then obtain v ps sh1 where h: "handle_client u lib cfg run sh = (Ok v, ps, sh1)" "all_served u lib cfg runs sh1"
    by (auto split: prod.splits outcome.splits)
  have "fresh_id sh" using Cons.prems(2) by (simp add: fresh_id_def)
  then have 1: "outstanding (sh_pool sh1) = outstanding (sh_pool sh)" "sessions (sh_mon sh1) = []"
    using handle_client_Ok [OF h(1)] Cons.prems(2) by simp_all
  have "serve_all u lib cfg runs (m\<lparr>client_connections_total := client_connections_total m + 1\<rparr>, sh1) = (m', sh')"
    using Cons.prems(3) client_task_served [OF h(1)] by (simp add: serve_all_def)
  from Cons.IH [OF h(2) 1(2) this] 1(1) show ?case by simp
qed (simp add: serve_all_def)

text \<open>
  An admin address that cannot be bound ends the admin task without an answer and leaves the proxy as it
  is: the listener, the accepted clients and the result of \<^verbatim>\<open>main\<close> are the same.
\<close>

theorem admin_bind_failure_is_isolated:
  assumes "load (pe_toml env) (pe_fs env) (pe_var env) (cli_config args) (cli_listen args) (cli_admin_listen args) = Inr cfg"
    and "admin_listen_addr cfg \<noteq> listen_addr cfg" "bind = (pe_bind env)(admin_listen_addr cfg := Inl e)"
  shows "main_run (env\<lparr>pe_bind := bind\<rparr>) args = main_run env args \<and> admin_task text enc bind ended cfg requests = (Ok (), [])"
  using assms by (auto simp: main_run_def admin_task_def admin_run_def Let_def split: sum.split)

section \<open>Settings without effect\<close>

text \<open>
  Nothing looks at \<^verbatim>\<open>require_tls\<close>, \<^verbatim>\<open>upstream_tls\<close>, \<^verbatim>\<open>upstream_tls_accept_invalid\<close>, the health check interval and
  the queue size. Of the TLS settings only \<^verbatim>\<open>enabled\<close> and the two paths have an effect, through the acceptor
  that \<^verbatim>\<open>main\<close> builds and hands to every client's task (\<open>cr_tls\<close>).
\<close>

definition unused_set :: "bool \<Rightarrow> bool \<Rightarrow> bool \<Rightarrow> u64 \<Rightarrow> u32 \<Rightarrow> config \<Rightarrow> config" where
  "unused_set rt ut ai h q cfg =
     cfg\<lparr>tls_cfg := (tls_cfg cfg)\<lparr>require_tls := rt, upstream_tls := ut, upstream_tls_accept_invalid := ai\<rparr>,
        pool_cfg := (pool_cfg cfg)\<lparr>health_check_interval_secs := h, max_queue_size := q\<rparr>\<rparr>"

definition reset_ctx :: "tls_config \<Rightarrow> pool_config \<Rightarrow> slow_ctx \<Rightarrow> slow_ctx" where
  "reset_ctx t p c = c\<lparr>sc_cfg := (sc_cfg c)\<lparr>tls_cfg := t, pool_cfg := p\<rparr>\<rparr>"

lemma reset_limit: "session_limit_of (cfg\<lparr>tls_cfg := t, pool_cfg := p\<rparr>) = session_limit_of cfg"
  by (simp add: fun_eq_iff session_limit_of_def split: option.split)

lemma reset_fields:
  "sc_upper (reset_ctx t p c) = sc_upper c" "limit_notice (reset_ctx t p c) = limit_notice c"
  "should_inject (reset_ctx t p c) = should_inject c" "monitor_cfg (sc_cfg (reset_ctx t p c)) = monitor_cfg (sc_cfg c)"
  by (simp_all add: fun_eq_iff reset_ctx_def limit_notice_def should_inject_def reset_limit)

lemma reset_message: "slow_client_message (reset_ctx t p c) = slow_client_message c"
  unfolding slow_client_message_def [abs_def] reset_fields ..

lemma reset_client_loop: "slow_client_loop (reset_ctx t p c) sizes i ij px = slow_client_loop c sizes i ij px"
  by (induction c sizes i ij px rule: slow_client_loop.induct)
    (subst (1 2) slow_client_loop.simps, auto simp: reset_message split: prod.split sum.split option.split)

lemma reset_loop: "slow_loop (reset_ctx t p c) evs ij px = slow_loop c evs ij px"
  by (induction c evs ij px rule: slow_loop.induct)
    (auto simp: slow_step_def reset_client_loop cong: option.case_cong split: prod.split sum.split outcome.split option.split list.split side.split)

lemma reset_phase: "proxy_phase (reset_ctx t p c) evs px = proxy_phase c evs px"
  by (induction c evs px rule: proxy_phase.induct)
    (subst (1 2) proxy_phase.simps, auto simp: slow_proxy_loop_def reset_loop split: prod.split outcome.split proxy_loop_exit.split)

lemma unused_pop_idle: "pop_idle (pc\<lparr>health_check_interval_secs := h, max_queue_size := q\<rparr>) now k cs pm = pop_idle pc now k cs pm"
  by (induction cs arbitrary: pm) (simp_all add: expired_def idle_too_long_def)

lemma unused_acquire_loop:
  "acquire_loop (pc\<lparr>health_check_interval_secs := h, max_queue_size := q\<rparr>) k pw ex dl rs pm = acquire_loop pc k pw ex dl rs pm"
proof (induction rs arbitrary: pm)
  case (Cons r rs)
  let ?pc = "pc\<lparr>health_check_interval_secs := h, max_queue_size := q\<rparr>"
  have t: "take_idle ?pc = take_idle pc" by (simp add: fun_eq_iff take_idle_def unused_pop_idle split: option.split)
  have c: "check_capacity ?pc = check_capacity pc" by (simp add: fun_eq_iff check_capacity_def Let_def)
  show ?case unfolding acquire_loop.simps t c Cons.IH ..
qed simp

lemma unused_client: "handle_client u lib (unused_set rt ut ai h q cfg) cl sh = handle_client u lib cfg cl sh"
proof -
  let ?cfg = "unused_set rt ut ai h q cfg"
  have p: "pool_key_of ?cfg = pool_key_of cfg" "effective_limit ?cfg = effective_limit cfg"
    by (simp_all add: fun_eq_iff unused_set_def pool_key_of_def effective_limit_def reset_limit)
  have a: "acquire ?cfg = acquire cfg" by (simp add: fun_eq_iff acquire_def unused_set_def unused_acquire_loop)
  have q: "proxy_phase \<lparr>sc_key = k, sc_cfg = ?cfg, sc_info = i, sc_upper = u\<rparr> evs px
      = proxy_phase \<lparr>sc_key = k, sc_cfg = cfg, sc_info = i, sc_upper = u\<rparr> evs px" for k i evs px
    using reset_phase [of "tls_cfg ?cfg" "pool_cfg ?cfg" "\<lparr>sc_key = k, sc_cfg = cfg, sc_info = i, sc_upper = u\<rparr>"]
    by (simp add: reset_ctx_def unused_set_def)
  have s: "serve_session u ?cfg = serve_session u cfg"
    unfolding serve_session_def [abs_def] Let_def p q by (rule refl)
  show ?thesis unfolding handle_client_def p a s by (rule refl)
qed

lemma unused_acceptor:
  "build_server_tls_acceptor lib read (tls_cfg (unused_set rt ut ai h q cfg)) = build_server_tls_acceptor lib read (tls_cfg cfg)"
proof -
  have "cert_path (tls_cfg (unused_set rt ut ai h q cfg)) = cert_path (tls_cfg cfg)"
    "key_path (tls_cfg (unused_set rt ut ai h q cfg)) = key_path (tls_cfg cfg)" by (simp_all add: unused_set_def)
  then show ?thesis unfolding build_server_tls_acceptor_def by presburger
qed

text \<open>
  C40. Two configurations, however they were loaded, that differ only in require_tls,
  upstream_tls, upstream_tls_accept_invalid, health_check_interval_secs and max_queue_size make
  main end in the same way with the same spawned tasks (each client with the same TLS acceptor or
  none) and make handle_client do the same for every client: the five settings have no effect
  there.
\<close>

theorem unused_settings_ignored:
  assumes "load (pe_toml env) (pe_fs env) (pe_var env) (cli_config args) (cli_listen args) (cli_admin_listen args) = Inr cfg"
    and "env' = env\<lparr>pe_toml := toml, pe_fs := fs, pe_var := var\<rparr>"
    and "load toml fs var (cli_config args) (cli_listen args) (cli_admin_listen args) = Inr (unused_set rt ut ai h q cfg)"
  shows "main_run env' args = main_run env args
    \<and> handle_client u lib (unused_set rt ut ai h q cfg) cl sh = handle_client u lib cfg cl sh"
proof -
  have "tls_enabled (tls_cfg (unused_set rt ut ai h q cfg)) = tls_enabled (tls_cfg cfg)"
    "listen_addr (unused_set rt ut ai h q cfg) = listen_addr cfg" by (simp_all add: unused_set_def)
  then have "main_run env' args = main_run env args"
    using assms by (auto simp: main_run_def unused_acceptor Let_def split: sum.split)
  then show ?thesis using unused_client by blast
qed

section \<open>Instances\<close>

definition env0 :: "config \<Rightarrow> (pg_error + client_run) list \<Rightarrow> unit process_env" where
  "env0 cfg accepts =
     \<lparr>pe_toml = (\<lambda>_. Inr cfg), pe_fs = (\<lambda>_. Some (Inr [])), pe_var = (\<lambda>_. None), pe_read = (\<lambda>_. Inr []),
      pe_tls = \<lparr>tl_certs = (\<lambda>_. Inr []), tl_private_key = (\<lambda>_. Inr None), tl_server_config = (\<lambda>_ _. Inr ())\<rparr>,
      pe_bind = (\<lambda>_. Inr ()), pe_accepts = accepts\<rparr>"

definition args0 :: cli where
  "args0 = \<lparr>cli_config = ''config.toml'', cli_listen = None, cli_admin_listen = None\<rparr>"

lemma load0:
  "load (pe_toml (env0 cfg rs)) (pe_fs (env0 cfg rs)) (pe_var (env0 cfg rs)) (cli_config args0) (cli_listen args0)
     (cli_admin_listen args0) = Inr cfg"
  by (simp add: env0_def args0_def load_def read_config_def cli_overrides_def env_overrides_def override_def)

lemma accept_error_ends_main_witness:
  "main_run (env0 default_config [Inr (run0 [eof0]), Inl (IoError ''too many open files''), Inr (run0 [])]) args0 =
     (Err (IoError ''too many open files''), [MonitorTask, AdminTask, ClientTask ((run0 [eof0])\<lparr>cr_tls := False\<rparr>)])"
  using accept_error_ends_main [OF load0, of default_config _ "[run0 [eof0]]"]
  by (simp add: default_config_def default_tls_config_def env0_def)

lemma tls_without_paths_stops_late_witness:
  "main_run (env0 (default_config\<lparr>tls_cfg := default_tls_config\<lparr>tls_enabled := True\<rparr>\<rparr>) []) args0 =
     (Err TlsPathsNotSet, [MonitorTask, AdminTask])"
  by (rule tls_without_paths_stops_late [OF load0]) (simp_all add: default_tls_config_def)

lemma served_clients_leave_nothing_witness:
  "\<exists>m' sh'. serve_all (\<lambda>c. [c]) lib0 default_config [run0 [eof0]] (metrics_new, shared0) = (m', sh')
     \<and> outstanding (sh_pool sh') = outstanding (sh_pool shared0) \<and> client_connections_active m' = client_connections_active metrics_new"
proof -
  obtain ps sh1 where h: "handle_client (\<lambda>c. [c]) lib0 default_config (run0 [eof0]) shared0 = (Ok (), ps, sh1)"
    using run0_result(1) by (metis fst_conv surj_pair)
  obtain m' sh' where s: "serve_all (\<lambda>c. [c]) lib0 default_config [run0 [eof0]] (metrics_new, shared0) = (m', sh')" by fastforce
  have "all_served (\<lambda>c. [c]) lib0 default_config [run0 [eof0]] shared0" using h by simp
  moreover have "sessions (sh_mon shared0) = []" by (simp add: shared0_def monitor_new_def)
  ultimately show ?thesis using served_clients_leave_nothing [OF _ _ s] s by blast
qed

lemma unused_settings_ignored_witness:
  "main_run (env0 (unused_set True False True 1 2 default_config) [Inr (run0 [eof0])]) args0 = main_run (env0 default_config [Inr (run0 [eof0])]) args0
   \<and> upstream_tls (tls_cfg default_config)
   \<and> handle_client (\<lambda>c. [c]) lib0 (unused_set True False True 1 2 default_config) (run0 [eof0]) shared0
       = handle_client (\<lambda>c. [c]) lib0 default_config (run0 [eof0]) shared0"
proof -
  let ?env = "env0 (unused_set True False True 1 2 default_config) [Inr (run0 [eof0])]"
  have "?env = (env0 default_config [Inr (run0 [eof0])])\<lparr>pe_toml := pe_toml ?env, pe_fs := pe_fs ?env, pe_var := pe_var ?env\<rparr>"
    by (simp add: env0_def)
  moreover have "upstream_tls (tls_cfg default_config)" by (simp add: default_config_def default_tls_config_def)
  ultimately show ?thesis
    using unused_settings_ignored [OF load0 _ load0] by blast
qed

end
