(* ===== verification/Sessions.thy ===== *)
theory Sessions
  imports Process Pool_Wakeups
begin

text \<open>
  \<^verbatim>\<open>handle_client\<close> of \<open>Frontend\<close> and the tasks of \<open>Pool_Tasks\<close> are two views of a client: the first runs one
  client without interruption and says what both peers are sent, the second interleaves many and keeps
  the pool's books. Every session that returns is a run of the task model, from the spawn of its task to
  the end of \<^verbatim>\<open>release\<close>, or to \<open>Abandoned\<close> when it returns an error with a connection in hand. So the books
  of the task model are those of any sequence of whole sessions.
\<close>

section \<open>One session\<close>

definition lost :: "unit outcome \<Rightarrow> peers \<Rightarrow> bool" where
  "lost out ps \<longleftrightarrow> (case out of Err _ \<Rightarrow> to_srv ps \<noteq> None | _ \<Rightarrow> False)"

fun over :: "task \<Rightarrow> bool" where
  "over Finished \<longleftrightarrow> True"
| "over (Abandoned k) \<longleftrightarrow> True"
| "over _ \<longleftrightarrow> False"

lemma serve_session_releases:
  assumes "serve_session u cfg cl info s srv c sh = (Ok v, ps, sh')"
  shows "\<exists>now c0 c1. release_connection (pool_key_of cfg info) s now c0 (sh_pool sh) = (Ok v, c1, sh_pool sh')"
  using assms
  by (auto simp: serve_session_def session_end_def Let_def split: option.splits prod.splits sum.splits outcome.splits) metis+

lemma serve_session_server:
  "serve_session u cfg cl info s srv c sh = (out, ps, sh') \<Longrightarrow> to_srv ps \<noteq> None"
  by (auto simp: serve_session_def session_end_def Let_def split: option.splits prod.splits sum.splits outcome.splits)

lemma release_steps:
  assumes "at_task w i (Holding k s)" "release_connection k s now c (mgr w) = (Ok v, c', pm)"
  shows "steps pc w (become i Finished pm w)"
proof -
  obtain b pm1 where b: "release_begin k (mgr w) = (b, pm1)" by fastforce
  show ?thesis
  proof (cases b)
    case False
    then have "pm = pm1" using assms(2) b by (simp add: release_connection_def)
    then show ?thesis using steps_one [OF step.release_unknown [OF assms(1)]] b False by simp
  next
    case True
    let ?w = "become i (Resetting k s) pm1 w"
    have 1: "step pc w ?w" using step.release_known [OF assms(1)] b True by simp
    obtain res where "pm = snd (release_end k s now res pm1)"
      using assms(2) b True by (auto simp: release_connection_def split: prod.splits outcome.splits)
    then obtain n where "release_end k s now res (mgr ?w) = (n, pm)" by (metis mgr_become prod.collapse)
    moreover have "at_task ?w i (Resetting k s)" using at_task_bound [OF assms(1)] by simp
    ultimately have "step pc ?w (become i Finished pm ?w)" by (blast intro: step.reset)
    then show ?thesis using steps_step [OF 1 steps_one] by simp
  qed
qed

lemma serve_session_steps:
  assumes "serve_session u cfg cl info s srv c sh = (out, ps, sh')" "out = Ok () \<or> out \<in> range Err"
    and "at_task w i (Holding (pool_key_of cfg info) s)" "mgr w = sh_pool sh"
  shows "\<exists>t. steps pc w (become i t (sh_pool sh') w) \<and> over t \<and> abandoned_weight t = of_bool (lost out ps)"
proof (cases out)
  case (Ok v)
  then obtain now c0 c1 where "release_connection (pool_key_of cfg info) s now c0 (mgr w) = (Ok v, c1, sh_pool sh')"
    using serve_session_releases assms(1,4) by metis
  then have "steps pc w (become i Finished (sh_pool sh') w)" by (rule release_steps [OF assms(3)])
  then show ?thesis using Ok by (intro exI [of _ Finished]) (simp add: lost_def)
next
  case (Err e)
  then have "sh_pool sh' = mgr w" using serve_session_fails assms(1,4) by metis
  then have "steps pc w (become i (Abandoned (pool_key_of cfg info)) (sh_pool sh') w)"
    using steps_one [OF step.abandon [OF assms(3)]] by metis
  then show ?thesis using Err serve_session_server [OF assms(1)] by (intro exI conjI) (auto simp: lost_def)
qed (use assms(2) in auto)

lemma spawned: 
  "at_task (w\<lparr>tasks := tasks w @ [t]\<rparr>) (length (tasks w)) t"
  "become (length (tasks w)) t' pm (w\<lparr>tasks := tasks w @ [t]\<rparr>) = \<lparr>mgr = pm, tasks = tasks w @ [t']\<rparr>"
  by (simp_all add: at_task_def become_def)

lemma live_spawned: "live_streams (w\<lparr>tasks := tasks w @ [Starting k]\<rparr>) = live_streams w"
  by (simp add: live_streams_def)

lemma acquiring_session_steps:
  assumes "acquires lib cfg cl info pw sh = (out, pm)" "out \<noteq> Pending" "out \<noteq> Panic" "mgr w = sh_pool sh"
    and "\<forall>d\<in>set (cr_dials cl). d_stream d \<notin># live_streams w"
  shows "steps (pool_cfg cfg) w \<lparr>mgr = pm, tasks = tasks w @ [ends_as (pool_key_of cfg info) out]\<rparr>"
proof -
  let ?k = "pool_key_of cfg info" let ?w = "w\<lparr>tasks := tasks w @ [Starting ?k]\<rparr>"
  have "steps (pool_cfg cfg) ?w (become (length (tasks w)) (ends_as ?k out) pm ?w)"
    using assms unfolding acquires_def
    by (intro acquire_is_a_run [OF spawned(1), where rounds = "map (round_of lib) (cr_dials cl)"])
      (auto simp: live_spawned round_of_def split: outcome.splits)
  then show ?thesis using steps_step [OF step.spawn] by (simp add: spawned(2))
qed

text \<open>A session that returns before \<^verbatim>\<open>acquire\<close> leaves no task, any other leaves one that is over.\<close>

lemma session_steps:
  assumes "handle_client u lib cfg cl sh = (out, ps, sh')" "out = Ok () \<or> out \<in> range Err" "mgr w = sh_pool sh"
    and "\<forall>d\<in>set (cr_dials cl). d_stream d \<notin># live_streams w"
  shows "\<exists>ts. steps (pool_cfg cfg) w \<lparr>mgr = sh_pool sh', tasks = tasks w @ ts\<rparr> \<and> length ts \<le> 1 \<and> list_all over ts
    \<and> sum_list (map abandoned_weight ts) = of_bool (lost out ps)"
    (is "\<exists>ts. ?P ts")
proof -
  have w: "\<lparr>mgr = sh_pool sh, tasks = tasks w @ []\<rparr> = w" using assms(3) by (cases w) simp
  have early: ?thesis if "sh' = sh" "to_srv ps = None"
    using that steps_refl [of "pool_cfg cfg" w] w by (intro exI [of _ "[]"]) (simp add: lost_def split: outcome.split)
  show ?thesis
  proof (cases "\<exists>info c pw c'. cr_nodelay cl = Inr () \<and> startup_phase u (cr_tls cl) (cr_conn cl) = (Ok (Started info), c)
      \<and> password_phase c = (Ok pw, c')")
    case False
    then have "sh' = sh \<and> to_srv ps = None"
      using assms(1) by (auto simp: handle_client_def only_client_def split: sum.splits prod.splits outcome.splits startup.splits)
    then show ?thesis using early by blast
  next
    case True
    then obtain info c pw c' where p: "cr_nodelay cl = Inr ()" "startup_phase u (cr_tls cl) (cr_conn cl) = (Ok (Started info), c)"
      "password_phase c = (Ok pw, c')" by blast
    let ?k = "pool_key_of cfg info"
    obtain a pm where a: "acquires lib cfg cl info pw sh = (a, pm)" by fastforce
    show ?thesis
    proof (cases a)
      case (Ok s)
      let ?w = "\<lparr>mgr = pm, tasks = tasks w @ [Holding ?k s]\<rparr>"
      have 1: "steps (pool_cfg cfg) w ?w"
        using acquiring_session_steps [OF a _ _ assms(3,4)] Ok by (simp add: ends_as_def)
      have "\<exists>t. steps (pool_cfg cfg) ?w (become (length (tasks w)) t (sh_pool sh') ?w) \<and> over t
          \<and> abandoned_weight t = of_bool (lost out ps)"
        using assms(1,2) a Ok handle_client_acquired [OF p, of lib cfg sh s pm]
        by (intro serve_session_steps [where info = "info\<lparr>si_password := pw\<rparr>"]) (auto simp: at_task_def)
      then obtain t where "steps (pool_cfg cfg) ?w \<lparr>mgr = sh_pool sh', tasks = tasks w @ [t]\<rparr>" "over t"
        "abandoned_weight t = of_bool (lost out ps)" by (auto simp: become_def)
      then have "?P [t]" using steps_append [OF 1] by simp
      then show ?thesis by blast
    next
      case (Err e)
      have "sh_pool sh' = pm \<and> \<not> lost out ps"
        using assms(1) a Err p by (auto simp: handle_client_def acquires_def only_client_def lost_def split: prod.splits sum.splits)
      then have "?P [Finished]" using acquiring_session_steps [OF a _ _ assms(3,4)] Err by (simp add: ends_as_def)
      then show ?thesis by blast
    qed (use assms(1,2) a p in \<open>auto simp: handle_client_def acquires_def\<close>)
  qed
qed

text \<open>
  C7. Every call of handle_client that returns is a run of the concurrent task model that starts
  from the shared pool, adds no task or one task (the list of added tasks has length at most 1)
  and ends in the same pool: the task is finished, or abandoned with its connection exactly when
  the session returned an error with a server connection in hand.
\<close>

theorem session_is_a_run:
  assumes "handle_client u lib cfg cl sh = (out, ps, sh')" "out = Ok () \<or> out \<in> range Err" "mgr w = sh_pool sh"
    and "\<forall>d\<in>set (cr_dials cl). d_stream d \<notin># live_streams w"
  shows "\<exists>ts. steps (pool_cfg cfg) w \<lparr>mgr = sh_pool sh', tasks = tasks w @ ts\<rparr> \<and> length ts \<le> 1 \<and> list_all over ts
    \<and> sum_list (map abandoned_weight ts) = of_bool (lost out ps)"
  by (rule session_steps [OF assms])

section \<open>Sessions in turn\<close>

text \<open>Every session returns, and the operating system gives it no descriptor that is still open in the pool.\<close>

fun orderly :: "(nat \<Rightarrow> nat list) \<Rightarrow> 'sc auth_lib \<Rightarrow> config \<Rightarrow> client_run list \<Rightarrow> shared \<Rightarrow> bool" where
  "orderly u lib cfg [] sh \<longleftrightarrow> True"
| "orderly u lib cfg (cl # cls) sh \<longleftrightarrow>
     (case handle_client u lib cfg cl sh of
        (out, ps, sh') \<Rightarrow>
          (case out of Ok _ \<Rightarrow> True | Err _ \<Rightarrow> True | Panic \<Rightarrow> False | Pending \<Rightarrow> False)
          \<and> list_all (\<lambda>d. d_stream d \<notin># idle_streams (sh_pool sh)) (cr_dials cl)
          \<and> orderly u lib cfg cls sh')"

fun losses :: "(nat \<Rightarrow> nat list) \<Rightarrow> 'sc auth_lib \<Rightarrow> config \<Rightarrow> client_run list \<Rightarrow> shared \<Rightarrow> nat" where
  "losses u lib cfg [] sh = 0"
| "losses u lib cfg (cl # cls) sh =
     (case handle_client u lib cfg cl sh of (out, ps, sh') \<Rightarrow> of_bool (lost out ps) + losses u lib cfg cls sh')"

lemma over_streams: "list_all over ts \<Longrightarrow> sum_list (map task_streams ts) = {#}"
proof (induction ts)
  case (Cons t ts)
  then show ?case by (cases t) simp_all
qed simp

lemma client_task_shared: "snd (client_task u lib cfg cl (m, sh)) = snd (snd (handle_client u lib cfg cl sh))"
  by (auto simp: client_task_def Let_def split: prod.splits outcome.splits)

lemma sessions_steps:
  assumes "orderly u lib cfg cls sh" "mgr w = sh_pool sh" "list_all over (tasks w)"
  shows "\<exists>w'. steps (pool_cfg cfg) w w' \<and> mgr w' = sh_pool (snd (serve_all u lib cfg cls (m, sh))) \<and> list_all over (tasks w')
    \<and> abandoned w' = abandoned w + losses u lib cfg cls sh"
  using assms
proof (induction cls arbitrary: m sh w)
  case Nil
  then show ?case using steps_refl [of "pool_cfg cfg" w] by (intro exI [of _ w]) (simp add: serve_all_def)
next
  case (Cons cl cls)
  obtain out ps sh1 where h: "handle_client u lib cfg cl sh = (out, ps, sh1)" by (metis prod_cases3)
  have o: "out = Ok () \<or> out \<in> range Err" "orderly u lib cfg cls sh1"
    using Cons.prems(1) h by (auto split: outcome.splits)
  have "live_streams w = idle_streams (sh_pool sh)"
    using Cons.prems(2) over_streams [OF Cons.prems(3)] by (simp add: live_streams_def)
  then have "\<forall>d\<in>set (cr_dials cl). d_stream d \<notin># live_streams w" using Cons.prems(1) h by (simp add: list_all_iff)
  from session_steps [OF h o(1) Cons.prems(2) this] obtain ts where
    ts: "steps (pool_cfg cfg) w \<lparr>mgr = sh_pool sh1, tasks = tasks w @ ts\<rparr>" "list_all over ts"
      "sum_list (map abandoned_weight ts) = of_bool (lost out ps)" by blast
  let ?w = "\<lparr>mgr = sh_pool sh1, tasks = tasks w @ ts\<rparr>"
  obtain m1 where m1: "client_task u lib cfg cl (m, sh) = (m1, sh1)"
    using client_task_shared [of u lib cfg cl m sh] h by (metis prod.collapse snd_conv)
  obtain w' where "steps (pool_cfg cfg) ?w w'" "mgr w' = sh_pool (snd (serve_all u lib cfg cls (m1, sh1)))"
    "list_all over (tasks w')" "abandoned w' = abandoned ?w + losses u lib cfg cls sh1"
    using Cons.IH [OF o(2), of ?w m1] Cons.prems(3) ts(2) by auto
  then show ?case using steps_append [OF ts(1)] ts(3) m1 h by (intro exI [of _ w']) (simp add: serve_all_def abandoned_def)
qed

text \<open>
  C20. After any sequence of client sessions that return, from an empty pool and with unused
  socket numbers, the global counter and the gauge of server connections equal the number of idle
  connections plus the number of sessions that returned an error with a server connection in hand,
  and no connection is queued twice.
\<close>

theorem clients_in_turn_accounted:
  assumes "orderly u lib cfg cls sh" "sh_pool sh = pool_manager_new metrics_new"
    and "serve_all u lib cfg cls (m, sh) = (m', sh')"
  shows "total_server_connections (sh_pool sh') = of_nat (size (idle_streams (sh_pool sh')) + losses u lib cfg cls sh)
    \<and> server_connections_active (pm_metrics (sh_pool sh')) = total_server_connections (sh_pool sh')
    \<and> (\<forall>s. count (idle_streams (sh_pool sh')) s \<le> 1)"
proof -
  obtain w where w: "steps (pool_cfg cfg) (world_new metrics_new) w" "mgr w = sh_pool sh'" "list_all over (tasks w)"
    "abandoned w = losses u lib cfg cls sh"
    using sessions_steps [OF assms(1), of "world_new metrics_new" m] assms(2,3) by (auto simp: world_new_def abandoned_def)
  obtain b where r: "run (pool_cfg cfg) b (world_new metrics_new) w"
    using steps_run [OF w(1), of "world_new metrics_new"] run.here by blast
  have l: "live_streams w = idle_streams (sh_pool sh')" using over_streams [OF w(3)] w(2) by (simp add: live_streams_def)
  then show ?thesis
    using run_accounted [OF r] run_gauge [OF r] run_exclusive [OF r] w(2,4)
    by (simp add: accounted_def gauge_def exclusive_def)
qed

section \<open>Instances\<close>

lemma shared0_idle: "live_streams (world_new metrics_new) = {#}" "idle_streams (sh_pool shared0) = {#}"
  by (simp_all add: live_streams_def world_new_def shared0_def pool_manager_new_def idle_streams_def)

lemma session_is_a_run_witness:
  "\<exists>sh' ps ts. handle_client (\<lambda>c. [c]) lib0 default_config (run0 [broken0]) shared0 = (Err (IoError ''reset by peer''), ps, sh')
     \<and> steps (pool_cfg default_config) (world_new metrics_new) \<lparr>mgr = sh_pool sh', tasks = ts\<rparr> \<and> length ts \<le> 1 \<and> list_all over ts"
proof -
  obtain ps sh' where h: "handle_client (\<lambda>c. [c]) lib0 default_config (run0 [broken0]) shared0 = (Err (IoError ''reset by peer''), ps, sh')"
    using run0_result(2) by (metis fst_conv surj_pair)
  have "mgr (world_new metrics_new) = sh_pool shared0" by (simp add: world_new_def shared0_def)
  from session_is_a_run [OF h _ this] shared0_idle(1) h show ?thesis by (auto simp: world_new_def)
qed

lemma clients_in_turn_accounted_witness:
  "\<exists>m' sh'. serve_all (\<lambda>c. [c]) lib0 default_config [run0 [broken0]] (metrics_new, shared0) = (m', sh')
     \<and> total_server_connections (sh_pool sh') = of_nat (size (idle_streams (sh_pool sh')) + losses (\<lambda>c. [c]) lib0 default_config [run0 [broken0]] shared0)"
proof -
  obtain ps sh1 where h: "handle_client (\<lambda>c. [c]) lib0 default_config (run0 [broken0]) shared0 = (Err (IoError ''reset by peer''), ps, sh1)"
    using run0_result(2) by (metis fst_conv surj_pair)
  obtain m' sh' where s: "serve_all (\<lambda>c. [c]) lib0 default_config [run0 [broken0]] (metrics_new, shared0) = (m', sh')" by fastforce
  have "orderly (\<lambda>c. [c]) lib0 default_config [run0 [broken0]] shared0" using h shared0_idle(2) by (simp add: list_all_iff)
  moreover have "sh_pool shared0 = pool_manager_new metrics_new" by (simp add: shared0_def)
  ultimately show ?thesis using clients_in_turn_accounted [OF _ _ s] s by blast
qed

end
