(* ===== verification/Unit_Tests.thy ===== *)
theory Unit_Tests
  imports Scanner Admin Proxy
begin

text \<open>
  The unit tests of \<^verbatim>\<open>src/config.rs\<close>, \<^verbatim>\<open>src/protocol/messages.rs\<close> and \<^verbatim>\<open>src/monitor/mod.rs\<close>, one Boolean definition
  per \<^verbatim>\<open>#[test]\<close> function: the conjunction of its assertions, run on the definitions of the development.
  \<open>u\<close> is the Unicode upper-case table, which none of the tests' texts consults.
\<close>

section \<open>Configuration\<close>

definition test_parse_size_limit :: "(nat \<Rightarrow> nat list) \<Rightarrow> bool" where
  "test_parse_size_limit u \<longleftrightarrow>
     parse_size_limit u ''5GB'' = Ok (Some (5 * 1024 * 1024 * 1024))
   \<and> parse_size_limit u ''100MB'' = Ok (Some (100 * 1024 * 1024))
   \<and> parse_size_limit u ''1TB'' = Ok (Some (1024 * 1024 * 1024 * 1024))
   \<and> parse_size_limit u ''1024KB'' = Ok (Some (1024 * 1024))
   \<and> parse_size_limit u ''1048576'' = Ok (Some 1048576)
   \<and> parse_size_limit u ''0'' = Ok None
   \<and> parse_size_limit u '''' = Ok None
   \<and> parse_size_limit u ''5gb'' = Ok (Some (5 * 1024 * 1024 * 1024))"

definition test_default_config :: bool where
  "test_default_config \<longleftrightarrow>
     (let cfg = default_config
      in listen_addr cfg = ''0.0.0.0:5433'' \<and> upstream_port cfg = 5432
       \<and> max_connections_per_pool (pool_cfg cfg) = 20)"

text \<open>No file \<^verbatim>\<open>nonexistent.toml\<close>; the other variables are whatever they are.\<close>

definition test_upstream_tls_env_override :: "(string \<Rightarrow> pg_error + config) \<Rightarrow> (string \<Rightarrow> string option) \<Rightarrow> bool" where
  "test_upstream_tls_env_override toml env \<longleftrightarrow>
     (case load toml (\<lambda>_. None) (env(''PG_MUX_UPSTREAM_TLS'' := Some ''false'')) ''nonexistent.toml'' None None of
        Inr cfg \<Rightarrow> \<not> upstream_tls (tls_cfg cfg)
      | Inl _ \<Rightarrow> False)"

definition test_default_upstream_tls_is_true :: bool where
  "test_default_upstream_tls_is_true \<longleftrightarrow> upstream_tls (tls_cfg default_config)"

section \<open>Messages\<close>

definition test_build_and_parse_startup :: bool where
  "test_build_and_parse_startup \<longleftrightarrow>
     (let msg = build_startup_message ''testuser'' ''testdb'' []
      in case get_i32 (take 4 msg) of
           None \<Rightarrow> False
         | Some len \<Rightarrow>
             (case parse_startup_params (take (i32_as_usize len - 4) (drop 4 msg)) of
                Ok (version, params) \<Rightarrow>
                  version = 196608 \<and> map_of params ''user'' = Some ''testuser''
                  \<and> map_of params ''database'' = Some ''testdb''
              | _ \<Rightarrow> False))"

definition test_error_response :: bool where
  "test_error_response \<longleftrightarrow>
     (case build_error_response ''ERROR'' ''28000'' ''auth failed'' of b # _ \<Rightarrow> b = byte_of CHR ''E'' | [] \<Rightarrow> False)"

definition test_is_shrink_operation :: "(nat \<Rightarrow> nat list) \<Rightarrow> bool" where
  "test_is_shrink_operation u \<longleftrightarrow>
     is_shrink_operation u ''DELETE FROM foo'' \<and> is_shrink_operation u ''TRUNCATE TABLE bar''
   \<and> is_shrink_operation u ''  DROP TABLE baz'' \<and> is_shrink_operation u ''VACUUM FULL''
   \<and> \<not> is_shrink_operation u ''SELECT 1'' \<and> \<not> is_shrink_operation u ''INSERT INTO foo VALUES (1)''"

definition test_query :: bytes where
  "test_query = (let query = as_bytes ''SELECT 1'' @ [0]
     in byte_of CHR ''Q'' # put_i32 (usize_as_i32 (length query + 4)) @ query)"

definition test_try_read_message :: bool where
  "test_try_read_message \<longleftrightarrow>
     (case try_read_message test_query False of
        (Inr (Some msg), _) \<Rightarrow> msg_type msg = byte_of CHR ''Q'' \<and> extract_query_text msg = Some ''SELECT 1''
      | _ \<Rightarrow> False)"

definition test_try_read_message_with_raw :: bool where
  "test_try_read_message_with_raw \<longleftrightarrow>
     (case try_read_message_with_raw test_query of
        (Inr (Some (msg, raw)), buf) \<Rightarrow> msg_type msg = byte_of CHR ''Q'' \<and> raw = test_query \<and> buf = []
      | _ \<Rightarrow> False)"

definition test_scanner_single_ready_for_query :: bool where
  "test_scanner_single_ready_for_query \<longleftrightarrow>
     (case scan scanner_new [0x5A, 0, 0, 0, 5, byte_of CHR ''I''] of
        (s, at_idle) \<Rightarrow> at_idle \<and> transaction_status s = byte_of CHR ''I'')"

definition test_scanner_transaction_state_tracking :: bool where
  "test_scanner_transaction_state_tracking \<longleftrightarrow>
     (case scan scanner_new [0x5A, 0, 0, 0, 5, byte_of CHR ''T''] of
        (s, at_idle) \<Rightarrow> \<not> at_idle \<and> transaction_status s = byte_of CHR ''T''
          \<and> (case scan s [0x5A, 0, 0, 0, 5, byte_of CHR ''I''] of
               (s, at_idle) \<Rightarrow> at_idle \<and> transaction_status s = byte_of CHR ''I''))"

definition test_scanner_skips_non_z_messages :: bool where
  "test_scanner_skips_non_z_messages \<longleftrightarrow>
     (let data = [byte_of CHR ''D''] @ put_i32 8 @ [1, 2, 3, 4] @ [0x5A, 0, 0, 0, 5, byte_of CHR ''I'']
      in case scan scanner_new data of (s, at_idle) \<Rightarrow> at_idle \<and> transaction_status s = byte_of CHR ''I'')"

definition test_scanner_split_across_reads :: bool where
  "test_scanner_split_across_reads \<longleftrightarrow>
     (case scan scanner_new [0x5A, 0, 0] of
        (s, at_idle) \<Rightarrow> \<not> at_idle
          \<and> (case scan s [0, 5, byte_of CHR ''I''] of
               (s, at_idle) \<Rightarrow> at_idle \<and> transaction_status s = byte_of CHR ''I''))"

definition test_scanner_large_message_then_rfq :: bool where
  "test_scanner_large_message_then_rfq \<longleftrightarrow>
     (let data = [byte_of CHR ''T''] @ put_i32 104 @ replicate 100 0 @ [0x5A, 0, 0, 0, 5, byte_of CHR ''I'']
      in case scan scanner_new data of (s, at_idle) \<Rightarrow> at_idle \<and> transaction_status s = byte_of CHR ''I'')"

definition test_scanner_payload_split_across_reads :: bool where
  "test_scanner_payload_split_across_reads \<longleftrightarrow>
     (let part1 = [byte_of CHR ''D''] @ put_i32 24 @ replicate 10 0xAA;
          part2 = replicate 10 0xBB @ [0x5A, 0, 0, 0, 5, byte_of CHR ''I'']
      in case scan scanner_new part1 of
           (s, at_idle) \<Rightarrow> \<not> at_idle \<and> remaining_skip s = 10
             \<and> (case scan s part2 of (s, at_idle) \<Rightarrow> at_idle \<and> transaction_status s = byte_of CHR ''I''))"

section \<open>The monitor\<close>

definition test_format_bytes :: bool where
  "test_format_bytes \<longleftrightarrow>
     format_bytes 0 = ''0 B'' \<and> format_bytes 1023 = ''1023 B'' \<and> format_bytes 1024 = ''1.00 KB''
   \<and> format_bytes (1024 * 1024) = ''1.00 MB'' \<and> format_bytes (5 * 1024 * 1024 * 1024) = ''5.00 GB''"

definition test_session_registry :: bool where
  "test_session_registry \<longleftrightarrow>
     (let mon = (monitor_new metrics_new)\<lparr>db_sizes := [(''testdb'', 500)]\<rparr>
      in case register_session ''testdb'' 1000 mon of
           ((id1, flag1), mon) \<Rightarrow> \<not> load_flag mon flag1
             \<and> (case register_session ''testdb'' 100 mon of
                  ((id2, flag2), mon) \<Rightarrow> load_flag mon flag2
                    \<and> sessions (unregister_session id2 (unregister_session id1 mon)) = []))"

section \<open>All of them pass\<close>

lemmas text_run = trim_ascii_str to_uppercase_ascii slice_to_ascii size_unit_def ends_with_def starts_with_def up_c_def
  ascii_up_def ascii_str_def white_space_def char_of_eq_iff digit_val_def Let_def

lemmas scan_run = scan_def scan_loop.simps take_header_def open_message_def copy_at_def header_payload_len_def
  scanner_new_def from_be_bytes_def put_i32_def i32_as_usize_def byte_of_def Let_def

lemma parse_size_limit_passes: "test_parse_size_limit u"
  unfolding test_parse_size_limit_def by (intro conjI) (simp_all add: parse_size_limit_def text_run)

lemma config_passes: "test_default_config" "test_default_upstream_tls_is_true" "test_upstream_tls_env_override toml env"
  by (simp_all add: test_default_config_def test_default_upstream_tls_is_true_def default_config_def default_pool_config_def
      default_tls_config_def test_upstream_tls_env_override_def load_def read_config_def cli_overrides_def env_overrides_def
      override_def parse_bool_def Let_def split: option.split)

lemma startup_passes: "test_build_and_parse_startup"
proof -
  let ?kvs = "[(''user'', ''testuser''), (''database'', ''testdb'')]"
  let ?p = "put_i32 196608 @ concat (map (\<lambda>(k, v). cstr k @ cstr v) ?kvs) @ [0]"
  have m: "build_startup_message ''testuser'' ''testdb'' [] = put_i32 (usize_as_i32 (length ?p + 4)) @ ?p"
    by (simp add: build_startup_message_def cstr_def Let_def)
  have "\<forall>(k, v) \<in> set ?kvs. wire_str k \<and> k \<noteq> [] \<and> wire_str v"
    by (simp add: wire_str_def ascii_str_def byte_of_def)
  then have "parse_startup_params ?p = Ok (196608, param_table [] ?kvs)"
    using parse_pairs_roundtrip [of ?kvs "[]" "[]"] by (simp add: parse_startup_params_def get_put_i32)
  moreover have "length ?p = 35" by (simp add: cstr_def)
  ultimately show ?thesis
    unfolding test_build_and_parse_startup_def Let_def m
    by (simp add: map_of_param_table get_put_i32 [of _ "[]", simplified] usize_as_i32_def i32_as_usize_def)
qed

lemma message_passes: "test_error_response" "test_try_read_message" "test_try_read_message_with_raw"
  using read_frame [of "as_bytes ''SELECT 1'' @ [0]" "byte_of CHR ''Q''" "[]"] extract_wire_query [of "''SELECT 1''"]
    with_raw_frame [of "as_bytes ''SELECT 1'' @ [0]" "byte_of CHR ''Q''" "[]"]
  by (simp_all add: test_error_response_def build_error_response_def test_try_read_message_def test_try_read_message_with_raw_def
      test_query_def Let_def MAX_MESSAGE_SIZE_def new_message_def wire_str_def ascii_str_def byte_of_def)

lemma is_shrink_operation_passes: "test_is_shrink_operation u"
  unfolding test_is_shrink_operation_def by (intro conjI) (simp_all add: is_shrink_operation_def text_run)

lemma scanner_passes:
  "test_scanner_single_ready_for_query" "test_scanner_transaction_state_tracking" "test_scanner_skips_non_z_messages"
  "test_scanner_split_across_reads" "test_scanner_large_message_then_rfq" "test_scanner_payload_split_across_reads"
  by (simp_all add: test_scanner_single_ready_for_query_def test_scanner_transaction_state_tracking_def
      test_scanner_skips_non_z_messages_def test_scanner_split_across_reads_def test_scanner_large_message_then_rfq_def
      test_scanner_payload_split_across_reads_def scan_run)

lemma format_bytes_passes: "test_format_bytes"
  using u64_as_f64_small [of 1024] u64_as_f64_small [of 1048576] u64_as_f64_small [of 5368709120]
  by (simp add: test_format_bytes_def format_bytes_cases in_unit_def div_half_even_def show_fixed2_def show_nat.simps
      digit_char_def char_of_eq_iff Let_def)

lemma session_registry_passes: "test_session_registry"
  by (simp add: test_session_registry_def register_session_def monitor_new_def get_db_size_def load_flag_def
      unregister_session_def Let_def)

theorem unit_tests_pass:
  "test_parse_size_limit u \<and> test_default_config \<and> test_upstream_tls_env_override toml env \<and> test_default_upstream_tls_is_true
   \<and> test_build_and_parse_startup \<and> test_error_response \<and> test_is_shrink_operation u \<and> test_try_read_message
   \<and> test_try_read_message_with_raw \<and> test_scanner_single_ready_for_query \<and> test_scanner_transaction_state_tracking
   \<and> test_scanner_skips_non_z_messages \<and> test_scanner_split_across_reads \<and> test_scanner_large_message_then_rfq
   \<and> test_scanner_payload_split_across_reads \<and> test_format_bytes \<and> test_session_registry"
  by (intro conjI parse_size_limit_passes config_passes startup_passes message_passes is_shrink_operation_passes
      scanner_passes format_bytes_passes session_registry_passes)

end
