(* ===== verification/Spec2Isabelle.thy ===== *)
theory Spec2Isabelle
  imports Wire Scanner Indexing Config Metrics Lease Pool Pool_Tasks Pool_Wakeups Pool_Lockout Monitor Monitor_Tasks Net
    Proxy Enforcement Backend Startup Client_Text Frontend Conversations Handover Dashboard_Page Admin Process Sessions Unit_Tests
begin

text \<open>
  A verification development for pg-multiplexer, a PostgreSQL connection multiplexer in Rust.

  \<^bold>\<open>The program.\<close> A client connects over TCP, sends a startup message and a cleartext password
  (\<^verbatim>\<open>protocol/frontend.rs\<close>). \<^verbatim>\<open>PoolManager::acquire\<close> (\<^verbatim>\<open>pool/mod.rs\<close>) lends it a server connection, an idle one
  of its (host, port, database, user) or a new one made by \<^verbatim>\<open>connect_backend\<close> (\<^verbatim>\<open>protocol/backend.rs\<close>). The
  client is greeted, registered with the size monitor (\<^verbatim>\<open>monitor/mod.rs\<close>) and proxied by two alternating
  loops: the fast one relays raw bytes and follows the message boundaries with
  \<^verbatim>\<open>MessageBoundaryScanner\<close> (\<^verbatim>\<open>protocol/messages.rs\<close>), the slow one cuts messages and makes simple queries
  read-only while the database is over its limit. A background task of the monitor measures the
  databases and sets the over-limit flags that make the loops switch. At the end \<^verbatim>\<open>release\<close> resets the
  connection with \<^verbatim>\<open>DISCARD ALL\<close> and queues it again. \<^verbatim>\<open>main.rs\<close> loads the configuration (\<^verbatim>\<open>config.rs\<close>),
  starts the monitor and the admin server (\<^verbatim>\<open>admin/server.rs\<close>, \<^verbatim>\<open>admin/metrics.rs\<close>) and accepts clients.
  File names are relative to \<^verbatim>\<open>src/src/\<close>.

  \<^bold>\<open>Theories.\<close>

  \<^item> \<open>Prelude\<close>: fixed-width integers and their casts, byte buffers, the big-endian codec, the errors
    (one constructor per \<^verbatim>\<open>bail!\<close>) and the result of an asynchronous call (\<open>Ok\<close>, \<open>Err\<close>, \<open>Panic\<close>, or
    \<open>Pending\<close>: the recorded input ended while the call waits).
  \<^item> \<open>Rust_Str\<close>: UTF-8, trimming, splitting, slicing and number parsing as the standard library has them.
  \<^item> \<open>Framing\<close>: the interface of the read loops. The locale \<open>frame_reader\<close> fixes a function that cuts a
    message off a buffer and assumes that more bytes never change a decision already made; it shows
    that the messages of a stream do not depend on how the stream is cut into reads.
  \<^item> \<open>Wire\<close> (\<^verbatim>\<open>messages.rs\<close>): message readers, startup parameters, builders, shrink detection; the three
    interpretations of \<open>frame_reader\<close>. Round trips, exact error cases, panics on malformed input.
  \<^item> \<open>Scanner\<close> (\<^verbatim>\<open>messages.rs\<close>): the boundary scanner and its agreement with a byte-at-a-time automaton.
  \<^item> \<open>Indexing\<close> (\<^verbatim>\<open>messages.rs\<close>): the scanner and the raw message reader with their positions, slices and indices
    checked, and that none is ever out of range. \<open>Proxy\<close> uses the checked scanner.
  \<^item> \<open>Config\<close>, \<open>Metrics\<close>: configuration structs, \<^verbatim>\<open>load\<close> and \<^verbatim>\<open>parse_size_limit\<close>; the metrics and pool keys.
  \<^item> \<open>Lease\<close>: the locale \<open>lease\<close>, what a sequence of take-and-give-back sessions does to a provider.
  \<^item> \<open>Pool\<close> (\<^verbatim>\<open>pool/mod.rs\<close>): \<open>acquire\<close>, \<open>release\<close> and the statistics as state-passing functions, with the
    effect of each branch on the ledger; the interpretation \<open>pool_lease\<close>.
  \<^item> \<open>Pool_Tasks\<close>: concurrent calls, cut at the \<^verbatim>\<open>await\<close> points and locks, as the relation \<open>step\<close>; the loads of a
    capacity check are one snapshot and adjacent counter updates one step. Exclusive
    ownership and accounting hold in every interleaving; the limits hold up to an exact overshoot.
  \<^item> \<open>Pool_Wakeups\<close>: \<open>step\<close> refined by \<open>wstep\<close>, in which a waiting task only wakes by a permit of its
    pool's \<^verbatim>\<open>Notify\<close> or by timeout: when wake-ups reach a waiting task and when one is lost.
  \<^item> \<open>Pool_Lockout\<close>: what closes an idle connection and who is told. Connections left idle by other users
    are not evicted for a client in need of one, and a closed connection wakes no waiting task.
  \<^item> \<open>Monitor\<close> (\<^verbatim>\<open>monitor/mod.rs\<close>): limits, sessions, flags, size check and report. \<open>Monitor_Tasks\<close>: the check
    suspended at each query and interleaved with clients that register (\<open>mon_step\<close>); what the flags
    say between checks, and the race in which they are wrong.
  \<^item> \<open>Net\<close>: the outgoing side of a socket. \<open>Proxy\<close> (\<^verbatim>\<open>frontend.rs\<close>): both loops and their alternation. The
    locale \<open>proxy_flow\<close> lifts a relation kept by each loop to the whole phase; \<open>server_flow\<close> and
    \<open>client_flow\<close> interpret it for the two directions. Bytes are relayed exactly, queries over the limit
    are read-only, switching only happens when the last status seen was idle, nothing panics.
  \<^item> \<open>Enforcement\<close>: how a limit takes effect in a running session: what the server is sent up to the hand-over
    to the slow loop and from then on, with answers of the server in between. The hand-over may fall inside
    a message of the server: what follows is then misread, and a notice can be written inside the message.
  \<^item> \<open>Backend\<close> (\<^verbatim>\<open>backend.rs\<close>): \<open>connect_backend\<close> with cleartext, MD5 and SCRAM authentication,
    \<open>reset_connection\<close>, error fields; what decides each wait, independent of segmentation.
  \<^item> \<open>Startup\<close> (\<^verbatim>\<open>frontend.rs\<close>): startup message and password. \<open>Client_Text\<close>: the texts taken from a client are
    UTF-8 without null bytes, so the message sent to the server in its name reads back as its parameters.
  \<^item> \<open>Frontend\<close> (\<^verbatim>\<open>frontend.rs\<close>, the client task of \<^verbatim>\<open>main.rs\<close>): \<open>handle_client\<close> as a whole, with what both peers
    are sent and the shared pool and monitor. \<open>Conversations\<close>: whom it serves and with which bytes, what a
    refused client is told, which ends leave a connection behind. \<open>Handover\<close>: two clients on one server
    connection, and what of the first one's answers reaches the second.
  \<^item> \<open>Dashboard_Page\<close>, \<open>Admin\<close> (\<^verbatim>\<open>admin/server.rs\<close>, \<^verbatim>\<open>format_bytes\<close>): handlers, routes and the dashboard page.
  \<^item> \<open>Process\<close> (\<^verbatim>\<open>main.rs\<close>, \<^verbatim>\<open>tls/mod.rs\<close>): the TLS acceptor, start-up, the admin task, the accept loop,
    sequences of clients, settings that nothing reads.
  \<^item> \<open>Sessions\<close>: every session of \<open>handle_client\<close> that returns is a run of a task of \<open>Pool_Tasks\<close>, so its
    invariants hold for sequences of whole sessions.
  \<^item> \<open>Unit_Tests\<close>: the unit tests of the sources, evaluated on the model.
  \<^item> This theory: what spans the monitor and the proxy, and the sessions and the dashboard.

  \<^bold>\<open>Inputs.\<close> What the environment decides is an argument: the reads of a socket (bytes, end of file or
  an error), the events of a \<^verbatim>\<open>select!\<close>, the clock and the server of each pass of \<open>acquire\<close>, the
  answers to size queries, the file system and the environment variables. A loop over an unbounded
  input is a recursion over the recorded input and ends in \<open>Pending\<close> when that is exhausted, so there is
  no fuel to choose: the statements that a call returns name an input for which it is not \<open>Pending\<close>.
  Third-party code is a parameter too: the password, MD5 and SCRAM functions of \<^verbatim>\<open>postgres-protocol\<close>, the
  TOML parser, rustls, and the Unicode upper-case table.

  \<^bold>\<open>Not modelled.\<close> The HTTP server (axum), the text encodings of serde_json and prometheus-client, the
  behaviour of the dashboard script in a browser, the TLS handshake (no code path performs one),
  argument parsing (clap), logging, and the integration tests, which need a running server.
  \<open>handle_client\<close> runs against a pool that other clients do not change meanwhile; interleavings are the
  subject of \<open>Pool_Tasks\<close>, \<open>Pool_Wakeups\<close> and \<open>Monitor_Tasks\<close>. In those, and in \<open>Pool\<close>, the outcomes of
  connecting and of the reset are inputs; \<open>Frontend\<close> computes them with \<open>connect_backend\<close> and
  \<open>reset_connection\<close> of \<open>Backend\<close> from what the server sends. The numbers that stand for new sockets are
  inputs, assumed fresh where that matters.
\<close>

section \<open>The monitor and the slow loop agree\<close>

lemma should_inject_effective:
  assumes "si_max_db_size (sc_info c) \<noteq> Some 0" "l = effective_limit (sc_cfg c) (sc_info c)"
  shows "should_inject c known \<longleftrightarrow> l \<noteq> 0 \<and> (case known of Some sz \<Rightarrow> l < sz | None \<Rightarrow> False)"
  using assms by (auto simp: should_inject_def effective_limit_def session_limit_of_def word_gt_0 split: option.splits)

text \<open>
  C16. Whenever no check is in progress (and no registration straddled a flag update), the flag of
  a session that was registered with the session's effective limit agrees with the decision the
  slow loop takes itself from the known size, unless the client asked for a limit of 0 bytes.
\<close>

theorem flag_agrees_with_slow_loop:
  assumes "(tidy_step cfg)\<^sup>*\<^sup>* (mon_world_new m) w" "mw_phase w = Idle" "(i, s) \<in> set (sessions (mw_mon w))"
    and "sl_limit_bytes s = effective_limit (sc_cfg c) (sc_info c)" "si_max_db_size (sc_info c) \<noteq> Some 0"
  shows "load_flag (mw_mon w) (sl_over_limit s) = should_inject c (get_db_size (mw_mon w) (sl_database s))"
  using tidy_flag [OF assms(1-3)] should_inject_effective [OF assms(5,4)] by (simp add: over_limit_def)

section \<open>Names of refused clients reach the dashboard\<close>

text \<open>
  C24. The user and database names of a client are printed on the admin dashboard without HTML
  escaping, even of a client whose connection was refused.
\<close>

theorem refused_client_reaches_dashboard:
  assumes "handle_client u lib cfg client sh = (Err e, ps, sh')" "well_sent client kvs pw x"
    and "startup_of u (param_table [] kvs) = Ok info"
    and "acquires lib cfg client info pw sh = (Err e', pm)"
    and "dashboard_handler text st = HtmlBody page" "ad_pool st = sh_pool sh'"
  shows "sublist (''<td>'' @ display_key (pool_key_of cfg info) @ ''</td>'') page"
proof -
  let ?k = "pool_key_of cfg info"
  have "sh_pool sh' = pm" using refused_result [OF assms(2,3,4)] assms(1) by simp
  moreover have "get_pool pm ?k \<noteq> None" using assms(4) acquire_keeps_pool unfolding acquires_def by blast
  ultimately obtain p where "(?k, p) \<in> set (pools (ad_pool st))"
    using assms(6) by (auto simp: get_pool_def dest: map_of_SomeD)
  from page_shows_key [OF assms(5) this] show ?thesis .
qed

section \<open>Instances\<close>

definition app_ctx :: slow_ctx where
  "app_ctx =
     \<lparr>sc_key = pool_key_of default_config info0, sc_cfg = default_config, sc_info = info0\<lparr>si_max_db_size := Some 100\<rparr>,
      sc_upper = (\<lambda>c. [c])\<rparr>"

lemma flag_agrees_with_slow_loop_witness:
  "load_flag (mw_mon (checked_world default_config metrics_new)) (sl_over_limit app_session)
     = should_inject app_ctx (get_db_size (mw_mon (checked_world default_config metrics_new)) ''app'')"
proof -
  have "(1, app_session) \<in> set (sessions (mw_mon (checked_world default_config metrics_new)))"
    by (simp add: checked_world_facts)
  from flag_agrees_with_slow_loop [OF checked_world_run checked_world_facts(1) this, of app_ctx] show ?thesis
    by (simp add: app_session_def app_ctx_def effective_limit_def session_limit_of_def)
qed

lemma show_nat_5432: "show_nat 5432 = ''5432''"
proof -
  have d: "show_nat 5 = ''5''" "[digit_char 4] = ''4''" "[digit_char 3] = ''3''" "[digit_char 2] = ''2''" by code_simp+
  have "show_nat 5432 = show_nat 5 @ [digit_char 4] @ [digit_char 3] @ [digit_char 2]"
    by (simp add: show_nat.simps [of 5432] show_nat.simps [of 543] show_nat.simps [of 54])
  then show ?thesis unfolding d by simp
qed

lemma refused_client_reaches_dashboard_witness:
  "\<exists>st page. dashboard_handler (\<lambda>_. None) st = HtmlBody page \<and> sublist ''<td>localhost:5432/app@bob</td>'' page"
proof -
  obtain e pm where a: "acquires lib0 default_config run1 info0 ''pw'' shared0 = (Err e, pm)" using run1_acquires by blast
  obtain ps where h: "handle_client (\<lambda>c. [c]) lib0 default_config run1 shared0 =
      (Err (BackendConnectionFailed e), ps, shared0\<lparr>sh_pool := pm\<rparr>)"
    using refused_result [OF run1_well_sent startup0_of [of "\<lambda>c. [c]"] a] by blast
  let ?st = "\<lparr>ad_metrics = metrics_new, ad_pool = pm, ad_mon = monitor_new metrics_new, ad_cfg = default_config\<rparr>"
  obtain page where p: "dashboard_handler (\<lambda>_. None) ?st = HtmlBody page" by (simp add: dashboard_handler_def)
  have "display_key (pool_key_of default_config info0) = ''localhost:5432/app@bob''"
    by (simp add: display_key_def pool_key_of_def default_config_def info0_def show_nat_5432)
  then show ?thesis
    using refused_client_reaches_dashboard [OF h run1_well_sent startup0_of a p] p by auto
qed

end
